(* ===== verification/Prelude.thy ===== *)
theory Prelude
  imports Complex_Main
begin

text \<open>
  Shared vocabulary of the development: Python's integer and rounding
  operations, results that may raise, slices, and the list lemmas the
  component theories use.

  Python \<open>int\<close> is \<open>int\<close>; a Python \<open>float\<close> is an exact rational (\<open>rat\<close>):
  the models compute what the source's formula denotes, without the rounding of
  IEEE doubles. An exception is the left summand of a sum.
\<close>

named_theorems py_defs "definitions of the Python operations, for unfolding"

section \<open>Results that may raise\<close>

definition bindE :: "'e + 'a \<Rightarrow> ('a \<Rightarrow> 'e + 'b) \<Rightarrow> 'e + 'b" where
  "bindE m f = (case m of Inl e \<Rightarrow> Inl e | Inr a \<Rightarrow> f a)"

definition guardE :: "bool \<Rightarrow> 'e \<Rightarrow> 'e + unit" where
  "guardE b e = (if b then Inr () else Inl e)"

lemma bindE_simps [simp]:
  "bindE (Inl e) f = Inl e"
  "bindE (Inr a) f = f a"
  by (simp_all add: bindE_def)

lemma bindE_eq_Inr [simp]:
  "bindE m f = Inr b \<longleftrightarrow> (\<exists>a. m = Inr a \<and> f a = Inr b)"
  by (cases m) simp_all

lemma guardE_eq_Inr [simp]: "guardE b e = Inr u \<longleftrightarrow> b"
  by (simp add: guardE_def)

lemma guardE_True [simp]: "guardE True e = Inr ()"
  and guardE_False [simp]: "guardE False e = Inl e"
  by (simp_all add: guardE_def)

text \<open>Elimination rules that walk a computation that did not raise.\<close>

lemma bindE_InrE: "bindE m f = Inr b \<Longrightarrow> (\<And>a. m = Inr a \<Longrightarrow> f a = Inr b \<Longrightarrow> P) \<Longrightarrow> P"
  by auto

lemma guardE_InrE: "guardE b e = Inr u \<Longrightarrow> (b \<Longrightarrow> P) \<Longrightarrow> P"
  by auto

lemma option_InrE:
  "(case x of None \<Rightarrow> Inl e | Some a \<Rightarrow> f a) = Inr b \<Longrightarrow> (\<And>a. x = Some a \<Longrightarrow> f a = Inr b \<Longrightarrow> P) \<Longrightarrow> P"
  by (cases x) auto

lemma if_Inl_InrE:
  "(if c then Inl e else m) = Inr b \<Longrightarrow> (\<not> c \<Longrightarrow> m = Inr b \<Longrightarrow> P) \<Longrightarrow> P"
  by (cases c) auto

lemmas raise_elims = bindE_InrE guardE_InrE option_InrE if_Inl_InrE

section \<open>Integers and rounding\<close>

text \<open>\<open>math.ceil(a / b)\<close> for integers and a positive divisor.\<close>

definition ceil_div :: "int \<Rightarrow> int \<Rightarrow> int" where
  "ceil_div a b = - ((- a) div b)"

lemma le_div_iff_mult_le:
  assumes "0 < (b::int)" shows "k \<le> a div b \<longleftrightarrow> k * b \<le> a"
proof
  assume "k \<le> a div b"
  then have "k * b \<le> (a div b) * b"
    using assms by (simp add: mult_right_mono)
  also have "\<dots> \<le> a"
    using assms by (simp add: minus_mod_eq_div_mult [symmetric])
  finally show "k * b \<le> a" .
next
  assume "k * b \<le> a"
  from zdiv_mono1 [OF this assms] show "k \<le> a div b" using assms by simp
qed

lemma ceil_div_le_iff:
  assumes "0 < b" shows "ceil_div a b \<le> k \<longleftrightarrow> a \<le> k * b"
proof -
  have "ceil_div a b \<le> k \<longleftrightarrow> - k \<le> (- a) div b"
    by (auto simp: ceil_div_def)
  also have "\<dots> \<longleftrightarrow> - k * b \<le> - a"
    using assms by (simp add: le_div_iff_mult_le)
  finally show ?thesis by auto
qed

lemma less_ceil_div_iff:
  "0 < b \<Longrightarrow> k < ceil_div a b \<longleftrightarrow> k * b < a"
  using ceil_div_le_iff [of b a k] by linarith

text \<open>
  Python's \<open>round\<close> to an integer: to the nearest, ties to the even neighbour.
\<close>

definition py_round :: "rat \<Rightarrow> int" where
  "py_round x = (let f = \<lfloor>x\<rfloor>; d = x - of_int f in
     if d < 1/2 then f else if 1/2 < d then f + 1 else if even f then f else f + 1)"

lemma py_round_of_int [simp]: "py_round (of_int n) = n"
  by (simp add: py_round_def)

lemma py_round_near: "\<bar>of_int (py_round x) - x\<bar> \<le> 1/2"
proof -
  have "of_int \<lfloor>x\<rfloor> \<le> x" "x < of_int \<lfloor>x\<rfloor> + 1"
    by linarith+
  then show ?thesis
    unfolding py_round_def Let_def abs_if by (auto split: if_splits) linarith
qed

lemma py_round_mono: "x \<le> y \<Longrightarrow> py_round x \<le> py_round y"
proof -
  assume xy: "x \<le> y"
  show ?thesis
  proof (cases "\<lfloor>x\<rfloor> = \<lfloor>y\<rfloor>")
    case True
    with xy show ?thesis by (auto simp: py_round_def Let_def)
  next
    case False
    with xy have "\<lfloor>x\<rfloor> + 1 \<le> \<lfloor>y\<rfloor>"
      using floor_mono [OF xy] by linarith
    then show ?thesis by (auto simp: py_round_def Let_def)
  qed
qed

text \<open>Truncation of a float to an integer, \<open>int(x)\<close>.\<close>

definition py_int :: "rat \<Rightarrow> int" where
  "py_int x = (if 0 \<le> x then \<lfloor>x\<rfloor> else \<lceil>x\<rceil>)"

section \<open>Integer ranges\<close>

lemma drop_upto: "drop m [i..j] = [i + int m..j]"
proof (induction m arbitrary: i)
  case 0
  then show ?case by simp
next
  case (Suc m)
  show ?case
    by (cases "i \<le> j") (simp_all add: upto_rec1 [of i j] Suc.IH algebra_simps)
qed

lemma newest_upto:
  assumes "i \<le> j"
  shows "drop (length [i..j] - nat limit) [i..j] = [max i (j - limit + 1)..j]"
proof (cases "0 \<le> limit")
  case True
  then have "i + int (nat (j - i + 1) - nat limit) = max i (j - limit + 1)"
    using assms by linarith
  then show ?thesis by (simp add: drop_upto)
next
  case False
  then show ?thesis using assms by (simp add: drop_upto)
qed

lemma filter_upto: "filter (\<lambda>k. a \<le> k \<and> k < b) [i..j] = [max i a..min (b - 1) j]"
proof (induction "nat (j - i + 1)" arbitrary: i)
  case 0
  then show ?case by simp
next
  case (Suc n)
  then have ij: "i \<le> j" and n: "n = nat (j - (i + 1) + 1)" by linarith+
  have *: "[i..j] = i # [i + 1..j]" using ij by (rule upto_rec1)
  show ?case
  proof (cases "a \<le> i \<and> i < b")
    case True
    then have "max i a = i" "i \<le> min (b - 1) j" "max (i + 1) a = i + 1" using ij by auto
    then show ?thesis using Suc.hyps(1) [OF n] True by (simp add: * upto_rec1 [of i "min (b - 1) j"])
  next
    case False
    then have "[max (i + 1) a..min (b - 1) j] = [max i a..min (b - 1) j]"
      by (cases "a \<le> i") (auto simp: max_def)
    then show ?thesis using Suc.hyps(1) [OF n] False by (simp add: *)
  qed
qed

section \<open>Slices\<close>

text \<open>
  \<open>buf[i:i+len(xs)] = xs\<close>, and \<open>xs[i:j]\<close> for integer bounds that are not
  negative (a slice that ends before it starts is empty).
\<close>

definition slice_set :: "nat \<Rightarrow> 'a list \<Rightarrow> 'a list \<Rightarrow> 'a list" where
  "slice_set i xs buf = take i buf @ xs @ drop (i + length xs) buf"

definition slice :: "int \<Rightarrow> int \<Rightarrow> 'a list \<Rightarrow> 'a list" where
  "slice i j xs = take (nat (j - i)) (drop (nat i) xs)"

lemma length_slice_set [simp]:
  "i + length xs \<le> length buf \<Longrightarrow> length (slice_set i xs buf) = length buf"
  by (simp add: slice_set_def)

lemma length_slice [simp]:
  "0 \<le> i \<Longrightarrow> j \<le> int (length xs) \<Longrightarrow> length (slice i j xs) = nat (j - i)"
  by (simp add: slice_def)

lemma slice_empty [simp]: "j \<le> i \<Longrightarrow> slice i j xs = []"
  by (simp add: slice_def)

section \<open>JSON values and strings\<close>

text \<open>
  A decoded JSON value, as the API bodies and the database's JSON columns hold
  it. An object is an association list with Python's \<open>dict.get\<close> as lookup.
  A \<open>string\<close> is a list of code points below 256.
\<close>

datatype json =
  JNull | JBool bool | JInt int | JFloat rat | JStr string
| JList "json list" | JObj "(string \<times> json) list"

type_synonym json_obj = "(string \<times> json) list"

definition jget :: "json_obj \<Rightarrow> string \<Rightarrow> json" where
  "jget b k = (case map_of b k of None \<Rightarrow> JNull | Some v \<Rightarrow> v)"

text \<open>Python's truth value of a decoded JSON value.\<close>

fun jtruthy :: "json \<Rightarrow> bool" where
  "jtruthy JNull = False"
| "jtruthy (JBool b) = b"
| "jtruthy (JInt n) = (n \<noteq> 0)"
| "jtruthy (JFloat x) = (x \<noteq> 0)"
| "jtruthy (JStr s) = (s \<noteq> [])"
| "jtruthy (JList xs) = (xs \<noteq> [])"
| "jtruthy (JObj kvs) = (kvs \<noteq> [])"

lemma jget_Nil [simp]: "jget [] k = JNull"
  and jget_Cons [simp]: "jget ((k', v) # b) k = (if k = k' then v else jget b k)"
  by (simp_all add: jget_def)

text \<open>\<open>str.isspace\<close> below 256, and \<open>str.strip\<close>.\<close>

definition is_space :: "char \<Rightarrow> bool" where
  "is_space c = (let k = (of_char c :: nat) in
     (9 \<le> k \<and> k \<le> 13) \<or> (28 \<le> k \<and> k \<le> 32) \<or> k = 133 \<or> k = 160)"

definition strip :: "string \<Rightarrow> string" where
  "strip s = rev (dropWhile is_space (rev (dropWhile is_space s)))"

lemma strip_id:
  assumes "s \<noteq> []" "\<not> is_space (hd s)" "\<not> is_space (last s)"
  shows "strip s = s"
proof -
  from assms have "dropWhile is_space s = s" by (cases s) auto
  moreover from assms have "dropWhile is_space (rev s) = rev s"
    by (cases "rev s") (auto simp: last_rev hd_rev dest: arg_cong [where f = hd])
  ultimately show ?thesis by (simp add: strip_def)
qed

lemma set_strip_subset: "set (strip s) \<subseteq> set s"
  unfolding strip_def by (metis set_dropWhileD set_rev subsetI)

end
