(* ===== verification/Ring_Reader.thy ===== *)
theory Ring_Reader
  imports Prelude
begin

text \<open>
  The interface through which the scheduled-capture code reads back the
  receiver's ring (\<open>RingReader\<close> in \<open>schedules/cutter.py\<close>): the stream positions
  held, and a copy of a range of the stream. The locale states what a provider
  promises relative to the stream of samples written so far; the ring buffer
  interprets it, the run cutter is proved over it.
\<close>

record 'a ring_reader =
  rr_bounds :: "int \<times> int"
  rr_read_range :: "int \<Rightarrow> int \<Rightarrow> 'a list option"

locale ring_provider =
  fixes view :: "'r \<Rightarrow> 'a ring_reader"
    and holds :: "'r \<Rightarrow> 'a list \<Rightarrow> bool"
    and put :: "'r \<Rightarrow> 'a list \<Rightarrow> 'r"
  assumes bounds_stream: "holds r xs \<Longrightarrow> snd (rr_bounds (view r)) = int (length xs)"
    and oldest_range: "holds r xs \<Longrightarrow>
      0 \<le> fst (rr_bounds (view r)) \<and> fst (rr_bounds (view r)) \<le> int (length xs)"
    and read_range_held: "holds r xs \<Longrightarrow> fst (rr_bounds (view r)) \<le> s \<Longrightarrow> s < e \<Longrightarrow>
      e \<le> int (length xs) \<Longrightarrow> rr_read_range (view r) s e = Some (slice s e xs)"
    and read_range_lost: "holds r xs \<Longrightarrow>
      \<not> (fst (rr_bounds (view r)) \<le> s \<and> s < e \<and> e \<le> int (length xs)) \<Longrightarrow>
      rr_read_range (view r) s e = None"
    and holds_put: "holds r xs \<Longrightarrow> holds (put r d) (xs @ d)"
begin

text \<open>What a reader gets is always the stream itself.\<close>

lemma read_range_sound:
  "holds r xs \<Longrightarrow> rr_read_range (view r) s e = Some d \<Longrightarrow> 0 \<le> s \<and> s < e \<and> d = slice s e xs"
  using oldest_range [of r xs] read_range_held [of r xs s e] read_range_lost [of r xs s e]
  by fastforce

lemma read_range_length:
  "holds r xs \<Longrightarrow> rr_read_range (view r) s e = Some d \<Longrightarrow> int (length d) = e - s"
  using oldest_range [of r xs] read_range_held [of r xs s e] read_range_lost [of r xs s e]
  by fastforce

text \<open>A range that was written stays the same range of the stream, whatever follows.\<close>

lemma read_range_after_put:
  assumes "holds r xs" "rr_read_range (view (put r d)) s e = Some y" "e \<le> int (length xs)"
  shows "y = slice s e xs"
proof -
  have "0 \<le> s \<and> s < e \<and> y = slice s e (xs @ d)"
    using read_range_sound [OF holds_put [OF assms(1)] assms(2)] .
  moreover from this have "nat (e - s) \<le> length xs - nat s" using assms(3) by linarith
  ultimately show ?thesis by (simp add: slice_def)
qed

end

end
