(* ===== verification/Ring_Buffer.thy ===== *)
theory Ring_Buffer
  imports Ring_Reader
begin

text \<open>
  \<open>capture/buffer.py: CircularBuffer\<close>: the fixed-size ring the receiver thread
  writes every chunk to. The specification is the stream of all samples written
  since the ring was created or cleared: the ring holds its newest
  \<open>max_samples\<close> samples, in order, and every read is a piece of that stream.
  Each method runs under the buffer's lock, so it is one step here. The capacity
  is positive, as every caller makes it.
\<close>

section \<open>The ring and its operations\<close>

record 'a ring =
  rb_buffer :: "'a list"
  rb_max_samples :: nat
  rb_write_pos :: nat
  rb_total_written :: nat

definition ring_new :: "nat \<Rightarrow> 'a \<Rightarrow> 'a ring" where
  "ring_new max_samples zero = \<lparr>rb_buffer = replicate max_samples zero,
     rb_max_samples = max_samples, rb_write_pos = 0, rb_total_written = 0\<rparr>"

definition ring_filled :: "'a ring \<Rightarrow> nat" where
  "ring_filled r = min (rb_total_written r) (rb_max_samples r)"

definition ring_write :: "'a ring \<Rightarrow> 'a list \<Rightarrow> 'a ring" where
  "ring_write r data = (let n = length data in
     if rb_max_samples r \<le> n then
       r\<lparr>rb_buffer := drop (n - rb_max_samples r) data, rb_write_pos := 0,
         rb_total_written := rb_total_written r + n\<rparr>
     else
       (let end_pos = rb_write_pos r + n;
            buf = (if end_pos \<le> rb_max_samples r then slice_set (rb_write_pos r) data (rb_buffer r)
                   else let first_chunk = rb_max_samples r - rb_write_pos r
                        in slice_set 0 (drop first_chunk data)
                             (slice_set (rb_write_pos r) (take first_chunk data) (rb_buffer r)))
        in r\<lparr>rb_buffer := buf, rb_write_pos := end_pos mod rb_max_samples r,
             rb_total_written := rb_total_written r + n\<rparr>))"

definition ring_read_with_position :: "'a ring \<Rightarrow> 'a list \<times> nat" where
  "ring_read_with_position r =
     (if rb_total_written r < rb_max_samples r
      then (take (rb_write_pos r) (rb_buffer r), rb_total_written r)
      else (drop (rb_write_pos r) (rb_buffer r) @ take (rb_write_pos r) (rb_buffer r),
            rb_total_written r))"

definition ring_read :: "'a ring \<Rightarrow> 'a list" where
  "ring_read r = fst (ring_read_with_position r)"

definition ring_clear :: "'a \<Rightarrow> 'a ring \<Rightarrow> 'a ring" where
  "ring_clear zero r = r\<lparr>rb_buffer := map (\<lambda>_. zero) (rb_buffer r), rb_write_pos := 0,
     rb_total_written := 0\<rparr>"

definition ring_oldest_position :: "'a ring \<Rightarrow> int" where
  "ring_oldest_position r =
     int (rb_total_written r) - int (min (rb_total_written r) (rb_max_samples r))"

definition ring_bounds :: "'a ring \<Rightarrow> int \<times> int" where
  "ring_bounds r = (int (rb_total_written r) - int (min (rb_total_written r) (rb_max_samples r)),
     int (rb_total_written r))"

definition ring_copy_range :: "'a ring \<Rightarrow> int \<Rightarrow> int \<Rightarrow> 'a list" where
  "ring_copy_range r start end' =
     (let cap = int (rb_max_samples r);
          i0 = (int (rb_write_pos r) - (int (rb_total_written r) - start)) mod cap;
          n = end' - start
      in if i0 + n \<le> cap then slice i0 (i0 + n) (rb_buffer r)
         else let first = cap - i0
              in drop (nat i0) (rb_buffer r) @ take (nat (n - first)) (rb_buffer r))"

definition ring_read_range :: "'a ring \<Rightarrow> int \<Rightarrow> int \<Rightarrow> 'a list option" where
  "ring_read_range r start end' =
     (let oldest = int (rb_total_written r) - int (min (rb_total_written r) (rb_max_samples r))
      in if end' \<le> start \<or> start < oldest \<or> int (rb_total_written r) < end' then None
         else Some (ring_copy_range r start end'))"

definition ring_read_tail :: "'a ring \<Rightarrow> int \<Rightarrow> 'a list \<times> nat" where
  "ring_read_tail r n =
     (let n = min n (min (int (rb_total_written r)) (int (rb_max_samples r)))
      in if n \<le> 0 then ([], rb_total_written r)
         else (ring_copy_range r (int (rb_total_written r) - n) (int (rb_total_written r)),
               rb_total_written r))"

section \<open>The stream it stands for\<close>

text \<open>
  \<open>ring_holds r xs\<close>: the ring is consistent and \<open>xs\<close> is everything written to it.
\<close>

definition ring_holds :: "'a ring \<Rightarrow> 'a list \<Rightarrow> bool" where
  "ring_holds r xs \<longleftrightarrow> 0 < rb_max_samples r \<and> length (rb_buffer r) = rb_max_samples r \<and>
     rb_write_pos r < rb_max_samples r \<and> rb_total_written r = length xs \<and>
     (length xs < rb_max_samples r \<longrightarrow> rb_write_pos r = length xs) \<and>
     ring_read r = drop (length xs - rb_max_samples r) xs"

lemma ring_holds_new: "0 < n \<Longrightarrow> ring_holds (ring_new n z) []"
  by (simp add: ring_holds_def ring_new_def ring_read_def ring_read_with_position_def)

lemma ring_holds_clear: "ring_holds r xs \<Longrightarrow> ring_holds (ring_clear z r) []"
  by (simp add: ring_holds_def ring_clear_def ring_read_def ring_read_with_position_def)

text \<open>
  Appending a chunk that fits within the capacity: in place, or split around
  the end of the array.
\<close>

lemma ring_write_small:
  assumes h: "ring_holds r xs" and n: "length d < rb_max_samples r"
  shows "ring_holds (ring_write r d) (xs @ d)"
proof -
  define cap w buf where "cap = rb_max_samples r" and "w = rb_write_pos r" and "buf = rb_buffer r"
  note defs = cap_def w_def buf_def
  let ?L = "length xs" and ?n = "length d"
  have inv: "0 < cap" "length buf = cap" "w < cap" "rb_total_written r = ?L" "?L < cap \<Longrightarrow> w = ?L"
    using h by (auto simp: ring_holds_def defs)
  have content: "?L < cap \<Longrightarrow> take w buf = xs"
      "cap \<le> ?L \<Longrightarrow> drop w buf @ take w buf = drop (?L - cap) xs"
    using h by (auto simp: ring_holds_def ring_read_def ring_read_with_position_def defs)
  show ?thesis
  proof (cases "w + ?n \<le> cap")
    case True
    let ?buf = "take w buf @ d @ drop (w + ?n) buf"
    have r': "ring_write r d = r\<lparr>rb_buffer := ?buf, rb_write_pos := (w + ?n) mod cap,
        rb_total_written := ?L + ?n\<rparr>"
      using n True inv by (simp add: ring_write_def Let_def slice_set_def defs [symmetric])
    have full: "?n \<le> cap - w" "drop (w + ?n) ?buf = drop (w + ?n) buf"
        "take (w + ?n) ?buf = take w buf @ d" "length ?buf = cap"
      using True inv by (auto simp: min_def)
    have "ring_read (ring_write r d) = drop (?L + ?n - cap) (xs @ d)"
    proof (cases "?L + ?n < cap")
      case True
      then show ?thesis
        using inv content(1) full
        by (simp add: r' ring_read_def ring_read_with_position_def defs [symmetric])
    next
      case False
      have tail: "drop ?n (drop w buf @ take w buf) @ d = drop (?L + ?n - cap) (xs @ d)"
        if "cap \<le> ?L" using that content(2) n by (simp add: drop_drop add.commute defs)
      show ?thesis
      proof (cases "w + ?n = cap")
        case True
        then have "ring_read (ring_write r d) = take w buf @ d"
          using False inv by (simp add: r' ring_read_def ring_read_with_position_def defs [symmetric])
        also have "\<dots> = drop (?L + ?n - cap) (xs @ d)"
          using tail content(1) inv True by (cases "?L < cap") simp_all
        finally show ?thesis .
      next
        case False
        then have "w + ?n < cap" using \<open>w + ?n \<le> cap\<close> by simp
        moreover from this have "cap \<le> ?L" using \<open>\<not> ?L + ?n < cap\<close> inv(5) by linarith
        ultimately have "ring_read (ring_write r d) = drop ?n (drop w buf @ take w buf) @ d"
          using full inv
          by (simp add: r' ring_read_def ring_read_with_position_def defs [symmetric] add.commute)
        with tail \<open>cap \<le> ?L\<close> show ?thesis by simp
      qed
    qed
    then show ?thesis
      using inv full True unfolding ring_holds_def r' by (auto simp: defs [symmetric])
  next
    case False
    define fc where "fc = cap - w"
    let ?buf = "drop fc d @ drop (?n - fc) (take w buf @ take fc d)"
    have fc: "fc < ?n" "?n - fc < w" "w + fc = cap"
      using False inv n by (auto simp: fc_def defs)
    have r': "ring_write r d = r\<lparr>rb_buffer := ?buf, rb_write_pos := ?n - fc,
        rb_total_written := ?L + ?n\<rparr>"
    proof -
      have "(w + ?n) mod cap = ?n - fc"
      proof -
        have "w + ?n = cap + (?n - fc)" "?n - fc < cap" using fc inv(3) by linarith+
        then show ?thesis by simp
      qed
      then show ?thesis
        using n False inv fc
        by (simp add: ring_write_def Let_def slice_set_def defs [symmetric] fc_def [symmetric])
    qed
    have "cap \<le> ?L + ?n" using False inv by linarith
    then have "ring_read (ring_write r d) = drop (?n - fc) (take w buf) @ d"
      using fc inv False
      by (simp add: r' ring_read_def ring_read_with_position_def defs [symmetric])
    also have "drop (?n - fc) (take w buf) = drop (?L + ?n - cap) xs"
    proof (cases "?L < cap")
      case True
      then have "?n - fc = ?L + ?n - cap" using inv(5) fc by linarith
      then show ?thesis using True content(1) by simp
    next
      case False
      have "drop ?n (drop w buf @ take w buf) = drop (?n - fc) (take w buf)"
        using fc inv(2) by (simp add: fc_def)
      then have "drop (?n - fc) (take w buf) = drop ?n (drop (?L - cap) xs)"
        using content(2) False by simp
      also have "\<dots> = drop (?L + ?n - cap) xs" using False by (simp add: add.commute)
      finally show ?thesis .
    qed
    also have "drop (?L + ?n - cap) xs @ d = drop (?L + ?n - cap) (xs @ d)"
      using n by (simp add: cap_def)
    finally show ?thesis
      using inv fc unfolding ring_holds_def r' by (auto simp: defs [symmetric])
  qed
qed

text \<open>A chunk at least as long as the ring replaces its whole content.\<close>

lemma ring_write_large:
  assumes "ring_holds r xs" "rb_max_samples r \<le> length d"
  shows "ring_holds (ring_write r d) (xs @ d)"
  using assms
  by (auto simp: ring_holds_def ring_write_def Let_def ring_read_def ring_read_with_position_def)

lemma ring_holds_write: "ring_holds r xs \<Longrightarrow> ring_holds (ring_write r d) (xs @ d)"
  by (cases "length d < rb_max_samples r") (simp_all add: ring_write_small ring_write_large)

section \<open>Reading it back\<close>

lemma ring_holds_bounds:
  assumes "ring_holds r xs"
  shows "ring_bounds r = (int (length xs - rb_max_samples r), int (length xs))"
  using assms by (simp add: ring_holds_def ring_bounds_def min_def)

text \<open>The sample at stream position \<open>p\<close> sits at index \<open>(write_pos - (total - p)) mod cap\<close>.\<close>

lemma slice_rotated:
  assumes "w \<le> length buf" "k + n \<le> length buf"
  shows "take n (drop k (drop w buf @ take w buf)) =
    (if length buf - w \<le> k then take n (drop (k - (length buf - w)) buf)
     else if w + k + n \<le> length buf then take n (drop (w + k) buf)
     else drop (w + k) buf @ take (n - (length buf - (w + k))) buf)"
  using assms by (auto simp: drop_take min_def add.commute)

lemma ring_copy_range_stream:
  assumes h: "ring_holds r xs" and s: "int (length xs - rb_max_samples r) \<le> s" "s < e"
    and e: "e \<le> int (length xs)"
  shows "ring_copy_range r s e = slice s e xs"
proof -
  define cap w buf where "cap = rb_max_samples r" and "w = rb_write_pos r" and "buf = rb_buffer r"
  note defs = cap_def w_def buf_def
  define L where "L = length xs"
  have inv: "0 < cap" "length buf = cap" "w < cap" "rb_total_written r = L" "L < cap \<Longrightarrow> w = L"
    using h by (auto simp: ring_holds_def defs L_def)
  obtain p n where p: "s = int p" "e = int (p + n)" "0 < n" "p + n \<le> L" "L - cap \<le> p"
  proof -
    have "s = int (nat s)" "e = int (nat s + nat (e - s))" using s by auto
    with that [of "nat s" "nat (e - s)"] s e show ?thesis by (auto simp: L_def cap_def)
  qed
  show ?thesis
  proof (cases "L < cap")
    case True
    then have w: "w = L" "take L buf = xs"
      using h inv by (auto simp: ring_holds_def ring_read_def ring_read_with_position_def defs L_def)
    have "take n (drop p buf) = take n (drop p xs)"
      using p(4) w(2) by (metis add.commute le_add_diff_inverse2 min.absorb1 take_drop take_take)
    moreover have "(int w - (int L - s)) mod int cap = int p"
      using p True w by (simp add: mod_pos_pos_trivial)
    ultimately show ?thesis
      using p True inv
      by (simp add: ring_copy_range_def Let_def slice_def defs [symmetric])
  next
    case False
    then have c: "drop w buf @ take w buf = drop (L - cap) xs"
      using h inv by (auto simp: ring_holds_def ring_read_def ring_read_with_position_def defs L_def)
    define k where "k = p - (L - cap)"
    have k: "k + n \<le> cap" "p = k + (L - cap)" using p False by (auto simp: k_def)
    have "slice s e xs = take n (drop k (drop w buf @ take w buf))"
    proof -
      have "slice s e xs = take n (drop p xs)" using p(1,2) by (simp add: slice_def)
      also have "drop p xs = drop k (drop (L - cap) xs)" by (simp add: k(2))
      finally show ?thesis unfolding c .
    qed
    also have "\<dots> = ring_copy_range r s e"
    proof (cases "cap - w \<le> k")
      case True
      define j where "j = k - (cap - w)"
      have j: "int w - (int L - s) = int j" "j < cap" "j + n \<le> cap"
        using p k True inv False by (auto simp: j_def)
      then have "(int w - (int L - s)) mod int cap = int j" by (simp add: mod_pos_pos_trivial)
      then show ?thesis
        using slice_rotated [of w buf k n] k(1) inv p True j(3)
        by (simp add: ring_copy_range_def Let_def slice_def defs [symmetric] j_def [symmetric])
    next
      case False
      define q where "q = w + k"
      have q: "nat (int n - (int cap - int q)) = n - (cap - q)"
        using False by (simp add: q_def)
      have "int w - (int L - s) = int q + int cap * (- 1)"
        using p k \<open>\<not> L < cap\<close> by (simp add: q_def)
      then have "(int w - (int L - s)) mod int cap = int q"
        using False inv by (simp only: mod_mult_self2) (simp add: mod_pos_pos_trivial q_def)
      then show ?thesis
        using slice_rotated [of w buf k n, folded q_def] k(1) inv p False q
        by (simp add: ring_copy_range_def Let_def slice_def defs [symmetric])
    qed
    finally show ?thesis ..
  qed
qed

lemma ring_read_range_stream:
  assumes "ring_holds r xs"
  shows "ring_read_range r s e =
    (if int (length xs - rb_max_samples r) \<le> s \<and> s < e \<and> e \<le> int (length xs)
     then Some (slice s e xs) else None)"
proof -
  have "int (rb_total_written r) - int (min (rb_total_written r) (rb_max_samples r))
      = int (length xs - rb_max_samples r)" "rb_total_written r = length xs"
    using assms by (auto simp: ring_holds_def)
  then show ?thesis
    using ring_copy_range_stream [OF assms, of s e]
    unfolding ring_read_range_def Let_def by (simp only:) auto
qed

lemma ring_read_tail_stream:
  assumes "ring_holds r xs"
  shows "ring_read_tail r n =
    (drop (length xs - nat (min n (int (rb_max_samples r)))) xs, length xs)"
proof -
  define m where "m = min n (min (int (rb_total_written r)) (int (rb_max_samples r)))"
  have t: "rb_total_written r = length xs" using assms by (simp add: ring_holds_def)
  show ?thesis
  proof (cases "m \<le> 0")
    case True
    then have "length xs - nat (min n (int (rb_max_samples r))) = length xs \<or> xs = []"
      using assms t by (auto simp: m_def ring_holds_def min_def split: if_splits)
    then show ?thesis using True t by (auto simp: ring_read_tail_def Let_def m_def [symmetric])
  next
    case False
    then have "ring_copy_range r (int (length xs) - m) (int (length xs)) =
        slice (int (length xs) - m) (int (length xs)) xs"
      using t by (intro ring_copy_range_stream [OF assms]) (auto simp: m_def)
    also have "\<dots> = drop (length xs - nat (min n (int (rb_max_samples r)))) xs"
    proof -
      have "nat (int (length xs) - m) = length xs - nat (min n (int (rb_max_samples r)))"
        using False t by (auto simp: m_def min_def split: if_splits)
      moreover have "length xs - nat (int (length xs) - m) \<le> nat m" using False by linarith
      ultimately show ?thesis by (simp add: slice_def)
    qed
    finally show ?thesis
      using False t unfolding ring_read_tail_def Let_def m_def [symmetric] by simp
  qed
qed

section \<open>The ring provides the reader's interface\<close>

definition ring_view :: "'a ring \<Rightarrow> 'a ring_reader" where
  "ring_view r = \<lparr>rr_bounds = ring_bounds r, rr_read_range = ring_read_range r\<rparr>"

interpretation circular: ring_provider ring_view ring_holds ring_write
  by unfold_locales
    (auto simp: ring_view_def ring_holds_bounds ring_read_range_stream ring_holds_write)

section \<open>Runs of the buffer\<close>

datatype 'a ring_op = Write "'a list" | Clear

fun ring_step :: "'a \<Rightarrow> 'a ring \<Rightarrow> 'a ring_op \<Rightarrow> 'a ring" where
  "ring_step zero r (Write d) = ring_write r d"
| "ring_step zero r Clear = ring_clear zero r"

text \<open>What was written since the last clear.\<close>

fun op_stream :: "'a list \<Rightarrow> 'a ring_op \<Rightarrow> 'a list" where
  "op_stream xs (Write d) = xs @ d"
| "op_stream xs Clear = []"

lemma ring_run_holds: "ring_holds r xs \<Longrightarrow> ring_holds (foldl (ring_step z) r ops) (foldl op_stream xs ops)"
proof (induction ops arbitrary: r xs)
  case Nil
  then show ?case by simp
next
  case (Cons p ops)
  then show ?case by (cases p) (simp_all add: circular.holds_put ring_holds_clear)
qed

lemma ring_write_max [simp]: "rb_max_samples (ring_write r d) = rb_max_samples r"
  and ring_clear_max [simp]: "rb_max_samples (ring_clear z r) = rb_max_samples r"
  by (simp_all add: ring_write_def ring_clear_def Let_def)

lemma ring_run_max [simp]: "rb_max_samples (foldl (ring_step z) r ops) = rb_max_samples r"
proof (induction ops arbitrary: r)
  case (Cons p ops)
  then show ?case by (cases p) simp_all
qed simp

text \<open>
  C19: after any sequence of writes (of chunks of any length, longer than the
  ring included) and clears, reading the ring gives the newest samples written
  since the last clear, in order, as many as fit, and the stream position.
\<close>

theorem ring_read_newest:
  assumes "0 < cap" "r = foldl (ring_step z) (ring_new cap z) ops" "xs = foldl op_stream [] ops"
  shows "ring_read_with_position r = (drop (length xs - cap) xs, length xs) \<and>
    ring_filled r = min (length xs) cap"
proof -
  have "ring_holds r xs" unfolding assms(2,3) by (rule ring_run_holds) (rule ring_holds_new [OF assms(1)])
  moreover have "rb_max_samples r = cap" by (simp add: assms(2) ring_new_def)
  ultimately show ?thesis
    by (auto simp: ring_holds_def ring_read_def ring_filled_def ring_read_with_position_def)
qed

text \<open>
  A range read returns exactly that range of the stream of samples written
  since the last clear when all of it is still held, and nothing otherwise; it
  never returns other samples.
\<close>

theorem ring_read_range_exact:
  assumes "0 < cap" "r = foldl (ring_step z) (ring_new cap z) ops" "xs = foldl op_stream [] ops"
  shows "ring_read_range r s e =
    (if int (length xs) - int cap \<le> s \<and> 0 \<le> s \<and> s < e \<and> e \<le> int (length xs)
     then Some (take (nat (e - s)) (drop (nat s) xs)) else None)"
proof -
  have "ring_holds r xs" unfolding assms(2,3) by (rule ring_run_holds) (rule ring_holds_new [OF assms(1)])
  moreover have "rb_max_samples r = cap" by (simp add: assms(2) ring_new_def)
  ultimately show ?thesis
    using ring_read_range_stream [of r xs s e] by (auto simp: slice_def)
qed

text \<open>
  The newest \<open>n\<close> samples come with the stream position they end at; fewer
  when the ring does not hold \<open>n\<close>.
\<close>

theorem ring_read_tail_newest:
  assumes "0 < cap" "r = foldl (ring_step z) (ring_new cap z) ops" "xs = foldl op_stream [] ops"
  shows "ring_read_tail r n = (drop (length xs - nat (min n (int cap))) xs, length xs)"
proof -
  have "ring_holds r xs" unfolding assms(2,3) by (rule ring_run_holds) (rule ring_holds_new [OF assms(1)])
  moreover have "rb_max_samples r = cap" by (simp add: assms(2) ring_new_def)
  ultimately show ?thesis using ring_read_tail_stream [of r xs n] by simp
qed

theorem ring_read_newest_witness:
  "ring_read_with_position (foldl (ring_step 0) (ring_new 3 (0::int)) [Write [1, 2], Write [3, 4]])
    = ([2, 3, 4], 4)"
  using ring_read_newest [of 3 _ "0::int" "[Write [1, 2], Write [3, 4]]", OF _ refl refl] by simp

theorem ring_read_range_exact_witness:
  "ring_read_range (foldl (ring_step 0) (ring_new 3 (0::int)) [Write [1, 2], Write [3, 4]]) 2 4
    = Some [3, 4]"
  using ring_read_range_exact [of 3 _ "0::int" "[Write [1, 2], Write [3, 4]]", OF _ refl refl]
  by simp

theorem ring_read_tail_newest_witness:
  "ring_read_tail (foldl (ring_step 0) (ring_new 3 (0::int)) [Write [1, 2], Write [3, 4]]) 2
    = ([3, 4], 4)"
  using ring_read_tail_newest [of 3 _ "0::int" "[Write [1, 2], Write [3, 4]]", OF _ refl refl]
  by simp

end
