(* ===== verification/Iso_Time.thy ===== *)
theory Iso_Time
  imports Prelude
begin

text \<open>
  What the schedule code uses of Python's \<open>datetime\<close>: the proleptic Gregorian
  ordinal of a date and back, the formatting of an epoch time and
  \<open>datetime.fromisoformat\<close>. The parser accepts the grammar every supported
  Python version accepts: a date, any one separator, \<open>HH[:MM[:SS[.fff[fff]]]]\<close>
  and an optional offset of the same shape; later versions accept further
  spellings. The main lemma is that reading a formatted instant gives it back.
\<close>

section \<open>Decimal fields\<close>

definition digit_char :: "nat \<Rightarrow> char" where
  "digit_char d = char_of (48 + d)"

definition char_digit :: "char \<Rightarrow> nat option" where
  "char_digit c = (let k = of_char c in if 48 \<le> k \<and> k \<le> 57 then Some (k - 48) else None)"

fun show_nat :: "nat \<Rightarrow> nat \<Rightarrow> string" where
  "show_nat 0 n = []"
| "show_nat (Suc w) n = show_nat w (n div 10) @ [digit_char (n mod 10)]"

fun read_nat :: "nat \<Rightarrow> nat \<Rightarrow> string \<Rightarrow> (nat \<times> string) option" where
  "read_nat 0 acc s = Some (acc, s)"
| "read_nat (Suc w) acc [] = None"
| "read_nat (Suc w) acc (c # s) =
     (case char_digit c of None \<Rightarrow> None | Some d \<Rightarrow> read_nat w (10 * acc + d) s)"

lemma char_digit_digit_char [simp]: "d < 10 \<Longrightarrow> char_digit (digit_char d) = Some d"
  by (simp add: char_digit_def digit_char_def)

lemma length_show_nat [simp]: "length (show_nat w n) = w"
  by (induction w arbitrary: n) simp_all

lemma set_show_nat: "c \<in> set (show_nat w n) \<Longrightarrow> \<exists>d < 10. c = digit_char d"
  by (induction w arbitrary: n) (auto intro: exI [where x = "_ mod 10"])

lemma read_nat_add:
  "read_nat (v + w) acc s =
     (case read_nat v acc s of None \<Rightarrow> None | Some (a, r) \<Rightarrow> read_nat w a r)"
  by (induction v acc s rule: read_nat.induct) (auto split: option.splits)

lemma read_show_nat [simp]:
  "n < 10 ^ w \<Longrightarrow> read_nat w acc (show_nat w n @ rest) = Some (acc * 10 ^ w + n, rest)"
proof (induction w arbitrary: n acc rest)
  case 0
  then show ?case by simp
next
  case (Suc w)
  from Suc.prems have "n div 10 < 10 ^ w" by auto
  then have "read_nat w acc (show_nat w (n div 10) @ digit_char (n mod 10) # rest)
      = Some (acc * 10 ^ w + n div 10, digit_char (n mod 10) # rest)"
    by (rule Suc.IH)
  then show ?case
    using read_nat_add [of w 1 acc] by (simp add: algebra_simps)
qed

section \<open>Dates\<close>

definition is_leap :: "int \<Rightarrow> bool" where
  "is_leap y \<longleftrightarrow> y mod 4 = 0 \<and> (y mod 100 \<noteq> 0 \<or> y mod 400 = 0)"

definition days_before_year :: "int \<Rightarrow> int" where
  "days_before_year y = (let p = y - 1 in p * 365 + p div 4 - p div 100 + p div 400)"

text \<open>Days of the year before each month, and the days of the whole year last.\<close>

definition month_starts :: "bool \<Rightarrow> int list" where
  "month_starts leap = (let l = (if leap then 1 else 0) in
     [0, 31, 59 + l, 90 + l, 120 + l, 151 + l, 181 + l, 212 + l, 243 + l, 273 + l,
      304 + l, 334 + l, 365 + l])"

definition days_in_month :: "int \<Rightarrow> nat \<Rightarrow> int" where
  "days_in_month y m = month_starts (is_leap y) ! m - month_starts (is_leap y) ! (m - 1)"

definition ymd2ord :: "int \<Rightarrow> nat \<Rightarrow> nat \<Rightarrow> int" where
  "ymd2ord y m d = days_before_year y + month_starts (is_leap y) ! (m - 1) + int d"

definition month_of :: "bool \<Rightarrow> int \<Rightarrow> nat" where
  "month_of leap n = length (takeWhile (\<lambda>s. s \<le> n) (month_starts leap))"

text \<open>Year, zero-based day of the year, of an ordinal (day 1 is 0001-01-01).\<close>

definition ord2year :: "int \<Rightarrow> int \<times> int" where
  "ord2year ord = (let n = ord - 1;
     n400 = n div 146097; r400 = n mod 146097;
     n100 = r400 div 36524; r100 = r400 mod 36524;
     n4 = r100 div 1461; r4 = r100 mod 1461;
     n1 = r4 div 365; r1 = r4 mod 365;
     y = n400 * 400 + n100 * 100 + n4 * 4 + n1 + 1
     in if n1 = 4 \<or> n100 = 4 then (y - 1, 365) else (y, r1))"

definition ord2ymd :: "int \<Rightarrow> int \<times> nat \<times> nat" where
  "ord2ymd ord = (let (y, n) = ord2year ord; m = month_of (is_leap y) n
     in (y, m, nat (n - month_starts (is_leap y) ! (m - 1) + 1)))"

lemma days_before_year_parts:
  assumes "0 \<le> b" "b \<le> 3" "0 \<le> c" "c \<le> 24" "0 \<le> d" "d \<le> 3"
  shows "days_before_year (400 * a + 100 * b + 4 * c + d + 1)
    = 146097 * a + 36524 * b + 1461 * c + 365 * d"
proof -
  let ?p = "400 * a + 100 * b + 4 * c + d"
  have "?p div 4 = 100 * a + 25 * b + c"
    using assms by (intro int_div_pos_eq [where r = d]) auto
  moreover have "?p div 100 = 4 * a + b"
    using assms by (intro int_div_pos_eq [where r = "4 * c + d"]) auto
  moreover have "?p div 400 = a"
    using assms by (intro int_div_pos_eq [where r = "100 * b + 4 * c + d"]) auto
  ultimately show ?thesis by (simp add: days_before_year_def)
qed

lemma is_leap_parts:
  assumes "0 \<le> b" "b \<le> 3" "0 \<le> c" "c \<le> 24" "0 \<le> d" "d \<le> 3"
  shows "is_leap (400 * a + 100 * b + 4 * c + d + 1) \<longleftrightarrow> d = 3 \<and> (c \<noteq> 24 \<or> b = 3)"
proof (cases "d = 3")
  case True
  let ?y = "400 * a + 100 * b + 4 * c + d + 1"
  have "?y mod 4 = 0"
    using True by (intro int_mod_pos_eq [where q = "100 * a + 25 * b + c + 1"]) auto
  moreover have "?y mod 100 = (if c = 24 then 0 else 4 * c + 4)"
    using True assms
    by (cases "c = 24")
      (auto intro: int_mod_pos_eq [where q = "4 * a + b + 1"] int_mod_pos_eq [where q = "4 * a + b"])
  moreover have "?y mod 400 = (if c = 24 \<and> b = 3 then 0 else 100 * b + 4 * c + 4)"
    using True assms
    by (cases "c = 24 \<and> b = 3")
      (auto intro: int_mod_pos_eq [where q = "a + 1"] int_mod_pos_eq [where q = a])
  ultimately show ?thesis using True assms unfolding is_leap_def by auto
next
  case False
  let ?y = "400 * a + 100 * b + 4 * c + d + 1"
  have "?y mod 4 = d + 1"
    using False assms by (intro int_mod_pos_eq [where q = "100 * a + 25 * b + c"]) auto
  with False assms show ?thesis unfolding is_leap_def by auto
qed

text \<open>The year found for an ordinal contains it.\<close>

lemma ord2year_correct:
  assumes "ord2year ord = (y, n)"
  shows "days_before_year y + n + 1 = ord" "0 \<le> n" "n < (if is_leap y then 366 else 365)"
proof -
  define m where "m = ord - 1"
  define a where "a = m div 146097"
  define r where "r = m mod 146097"
  define b where "b = r div 36524"
  define s where "s = r mod 36524"
  define c where "c = s div 1461"
  define t where "t = s mod 1461"
  define d where "d = t div 365"
  define u where "u = t mod 365"
  note defs = a_def r_def b_def s_def c_def t_def d_def u_def
  have m: "m = 146097 * a + r" "0 \<le> r" "r < 146097" unfolding a_def r_def by simp_all
  have r: "r = 36524 * b + s" "0 \<le> s" "s < 36524" unfolding b_def s_def by simp_all
  have s: "s = 1461 * c + t" "0 \<le> t" "t < 1461" unfolding c_def t_def by simp_all
  have t: "t = 365 * d + u" "0 \<le> u" "u < 365" unfolding d_def u_def by simp_all
  have b: "0 \<le> b" "b \<le> 4" and c: "0 \<le> c" "c \<le> 24" and d: "0 \<le> d" "d \<le> 4"
    using m r s t by linarith+
  have y: "(y, n) = (if d = 4 \<or> b = 4 then (a * 400 + b * 100 + c * 4 + d, 365)
      else (a * 400 + b * 100 + c * 4 + d + 1, u))"
    using assms by (auto simp: ord2year_def Let_def m_def [symmetric] defs split: if_splits)
  consider "b = 4" | "b \<le> 3" "d = 4" | "b \<le> 3" "d \<le> 3" using b d by linarith
  then have "days_before_year y + n + 1 = ord \<and> 0 \<le> n \<and> n < (if is_leap y then 366 else 365)"
  proof cases
    case 1
    have "s = 0" using r m 1 by linarith
    then have z: "s = 0" "c = 0" "t = 0" "d = 0" by (simp_all add: c_def t_def d_def)
    then have yn: "y = 400 * a + 100 * 3 + 4 * 24 + 3 + 1" "n = 365" using y 1 by auto
    show ?thesis
      using days_before_year_parts [of 3 24 3 a] is_leap_parts [of 3 24 3 a] m r z 1
      unfolding yn m_def by simp
  next
    case 2
    with t s r have u: "u = 0" "c \<noteq> 24 \<or> b = 3" using m c by linarith+
    have yn: "y = 400 * a + 100 * b + 4 * c + 3 + 1" "n = 365" using y 2 by auto
    show ?thesis
      using days_before_year_parts [of b c 3 a] is_leap_parts [of b c 3 a] m r s t u 2 b c
      unfolding yn m_def by simp
  next
    case 3
    have yn: "y = 400 * a + 100 * b + 4 * c + d + 1" "n = u" using y 3 by auto
    show ?thesis
      using days_before_year_parts [of b c d a] m r s t 3 b c d
      unfolding yn m_def by simp
  qed
  then show "days_before_year y + n + 1 = ord" "0 \<le> n" "n < (if is_leap y then 366 else 365)"
    by auto
qed

lemma month_of_correct:
  assumes "0 \<le> n" "n < (if leap then 366 else 365)"
  defines "m \<equiv> month_of leap n"
  shows "1 \<le> m" "m \<le> 12" "month_starts leap ! (m - 1) \<le> n" "n < month_starts leap ! m"
  using assms(1,2) unfolding m_def month_of_def month_starts_def Let_def
  by (cases leap; force)+

lemma ymd2ord_ord2ymd:
  assumes "ord2ymd ord = (y, m, d)"
  shows "ymd2ord y m d = ord" "1 \<le> m" "m \<le> 12" "1 \<le> d" "int d \<le> days_in_month y m"
proof -
  obtain n where yn: "ord2year ord = (y, n)"
    using assms by (auto simp: ord2ymd_def Let_def split: prod.splits)
  have md: "m = month_of (is_leap y) n"
      "d = nat (n - month_starts (is_leap y) ! (m - 1) + 1)"
    using assms yn by (auto simp: ord2ymd_def Let_def)
  note * = month_of_correct [OF ord2year_correct(2,3) [OF yn], folded md(1)]
  show "1 \<le> m" "m \<le> 12" by (fact *)+
  show "1 \<le> d" "int d \<le> days_in_month y m" "ymd2ord y m d = ord"
    using * ord2year_correct(1) [OF yn] md(2) by (simp_all add: ymd2ord_def days_in_month_def)
qed

lemma days_in_month_le_31: "1 \<le> m \<Longrightarrow> m \<le> 12 \<Longrightarrow> days_in_month y m \<le> 31"
proof -
  assume "1 \<le> m" "m \<le> 12"
  then have "m \<in> {1, 2, 3, 4, 5, 6, 7, 8, 9, 10, 11, 12}" by (simp, presburger)
  then show ?thesis
    by (cases "is_leap y") (auto simp: days_in_month_def month_starts_def)
qed

lemma days_before_year_bounds:
  "400 * days_before_year y \<le> 146097 * (y - 1) + 400"
  "146097 * (y - 1) - 1200 \<le> 400 * days_before_year y"
proof -
  define p where "p = y - 1"
  have "4 * (p div 4) \<le> p \<and> p \<le> 4 * (p div 4) + 3"
    "100 * (p div 100) \<le> p \<and> p \<le> 100 * (p div 100) + 99"
    "400 * (p div 400) \<le> p \<and> p \<le> 400 * (p div 400) + 399" by presburger+
  moreover have "days_before_year y = p * 365 + p div 4 - p div 100 + p div 400"
    by (simp add: days_before_year_def p_def Let_def)
  ultimately have "400 * days_before_year y \<le> 146097 * p + 400 \<and>
      146097 * p - 1200 \<le> 400 * days_before_year y" by linarith
  then show "400 * days_before_year y \<le> 146097 * (y - 1) + 400"
    "146097 * (y - 1) - 1200 \<le> 400 * days_before_year y"
    by (simp_all add: p_def)
qed

lemma ord2year_bounds:
  assumes "1 \<le> ord" "ord \<le> 3652059" "ord2year ord = (y, n)"
  shows "1 \<le> y" "y \<le> 9999"
proof -
  have *: "days_before_year y < ord" "ord \<le> days_before_year y + 366"
    using ord2year_correct [OF assms(3)] by (auto split: if_splits)
  show "1 \<le> y"
  proof (rule ccontr)
    assume "\<not> 1 \<le> y"
    moreover have "is_leap 0" "days_before_year 0 = - 366"
      by (simp_all add: is_leap_def days_before_year_def)
    ultimately show False
      using days_before_year_bounds [of y] * assms(1) by (cases "y = 0") auto
  qed
  show "y \<le> 9999"
  proof (rule ccontr)
    assume "\<not> y \<le> 9999"
    moreover have "days_before_year 10000 = 3652059" by (simp add: days_before_year_def)
    ultimately show False
      using days_before_year_bounds [of y] * assms(2) by (cases "y = 10000") auto
  qed
qed

section \<open>Formatting and parsing an instant\<close>

text \<open>The ordinal of 1970-01-01.\<close>

definition epoch_ord :: int where
  "epoch_ord = 719163"

text \<open>\<open>datetime.fromtimestamp(secs, utc)\<close> as \<open>%Y-%m-%dT%H:%M:%S\<close>.\<close>

definition show_seconds :: "int \<Rightarrow> string" where
  "show_seconds secs = (let (y, m, d) = ord2ymd (secs div 86400 + epoch_ord);
     t = nat (secs mod 86400)
     in show_nat 4 (nat y) @ ''-'' @ show_nat 2 m @ ''-'' @ show_nat 2 d @ ''T'' @
        show_nat 2 (t div 3600) @ '':'' @ show_nat 2 (t div 60 mod 60) @ '':'' @
        show_nat 2 (t mod 60))"

fun expect :: "char \<Rightarrow> string \<Rightarrow> string option" where
  "expect c [] = None"
| "expect c (x # s) = (if x = c then Some s else None)"

definition read_date :: "string \<Rightarrow> ((int \<times> nat \<times> nat) \<times> string) option" where
  "read_date s = Option.bind (read_nat 4 0 s) (\<lambda>(y, s).
     Option.bind (expect CHR ''-'' s) (\<lambda>s. Option.bind (read_nat 2 0 s) (\<lambda>(m, s).
     Option.bind (expect CHR ''-'' s) (\<lambda>s. Option.bind (read_nat 2 0 s) (\<lambda>(d, s).
     if 1 \<le> y \<and> 1 \<le> m \<and> m \<le> 12 \<and> 1 \<le> d \<and> int d \<le> days_in_month (int y) m
     then Some ((int y, m, d), s) else None)))))"

text \<open>
  \<open>HH[:MM[:SS[.fff[fff]]]]\<close>, all of the string: hours, minutes, seconds,
  microseconds.
\<close>

definition read_hms :: "string \<Rightarrow> (nat \<times> nat \<times> nat \<times> nat) option" where
  "read_hms s = Option.bind (read_nat 2 0 s) (\<lambda>(h, s).
     if s = [] then Some (h, 0, 0, 0) else
     Option.bind (expect CHR '':'' s) (\<lambda>s. Option.bind (read_nat 2 0 s) (\<lambda>(m, s).
     if s = [] then Some (h, m, 0, 0) else
     Option.bind (expect CHR '':'' s) (\<lambda>s. Option.bind (read_nat 2 0 s) (\<lambda>(sec, s).
     if s = [] then Some (h, m, sec, 0) else
     Option.bind (expect CHR ''.'' s) (\<lambda>s.
     if length s = 6 then Option.bind (read_nat 6 0 s) (\<lambda>(f, _). Some (h, m, sec, f))
     else if length s = 3 then Option.bind (read_nat 3 0 s) (\<lambda>(f, _). Some (h, m, sec, f * 1000))
     else None))))))"

definition is_sign :: "char \<Rightarrow> bool" where
  "is_sign c \<longleftrightarrow> c = CHR ''+'' \<or> c = CHR ''-''"

text \<open>
  \<open>fromisoformat\<close> and \<open>timestamp()\<close>: microseconds since the epoch of a
  time with a zone, \<open>Some None\<close> for a naive one, \<open>None\<close> for a malformed one.
\<close>

definition fromisoformat :: "string \<Rightarrow> int option option" where
  "fromisoformat s = Option.bind (read_date s) (\<lambda>((y, m, d), s).
     case s of [] \<Rightarrow> Some None
     | _ # t \<Rightarrow>
       (let tm = takeWhile (\<lambda>c. \<not> is_sign c) t; tz = dropWhile (\<lambda>c. \<not> is_sign c) t in
        Option.bind (read_hms tm) (\<lambda>(h, mi, sec, us).
        if h < 24 \<and> mi < 60 \<and> sec < 60 then
          (case tz of [] \<Rightarrow> Some None
           | c # z \<Rightarrow> Option.bind (read_hms z) (\<lambda>(zh, zm, zs, zu).
               let off = ((int zh * 60 + int zm) * 60 + int zs) * 1000000 + int zu;
                   off = (if c = CHR ''-'' then - off else off);
                   secs = (ymd2ord y m d - epoch_ord) * 86400 + int ((h * 60 + mi) * 60 + sec)
               in if \<bar>off\<bar> < 86400 * 1000000
                  then Some (Some (secs * 1000000 + int us - off)) else None))
        else None)))"

text \<open>Reading back a formatted time.\<close>

lemma read_date_show:
  assumes "ord2ymd ord = (y, m, d)" "1 \<le> ord" "ord \<le> 3652059"
  shows "read_date (show_nat 4 (nat y) @ ''-'' @ show_nat 2 m @ ''-'' @ show_nat 2 d @ r)
    = Some ((y, m, d), r)"
proof -
  obtain n where "ord2year ord = (y, n)"
    using assms(1) by (auto simp: ord2ymd_def Let_def split: prod.splits)
  from ord2year_bounds [OF assms(2,3) this] have y: "1 \<le> y" "y \<le> 9999" .
  note md = ymd2ord_ord2ymd [OF assms(1)]
  with days_in_month_le_31 [of m y] have "d \<le> 31" by simp
  with y md show ?thesis by (simp add: read_date_def)
qed

lemma read_hms_show:
  assumes "h < 100" "mi < 100" "sec < 100" "f < 1000"
  shows "read_hms (show_nat 2 h @ '':'' @ show_nat 2 mi @ '':'' @ show_nat 2 sec @ ''.'' @
    show_nat 3 f) = Some (h, mi, sec, f * 1000)"
proof -
  have "read_nat 3 0 (show_nat 3 f) = Some (f, [])"
    using read_show_nat [of f 3 0 "[]"] assms by simp
  with assms show ?thesis by (simp add: read_hms_def)
qed

lemma read_hms_zero: "read_hms ''00:00'' = Some (0, 0, 0, 0)"
  by code_simp

lemma of_char_digit_char [simp]: "d < 10 \<Longrightarrow> of_char (digit_char d) = (48 + d :: nat)"
  by (simp add: digit_char_def)

lemma digit_char_neq [simp]: "d < 10 \<Longrightarrow> \<not> is_sign (digit_char d) \<and> \<not> is_space (digit_char d)"
proof
  assume d: "d < 10"
  show "\<not> is_sign (digit_char d)"
  proof
    assume "is_sign (digit_char d)"
    then have "(of_char (digit_char d) :: nat) = of_char CHR ''+'' \<or>
        (of_char (digit_char d) :: nat) = of_char CHR ''-''"
      by (auto simp: is_sign_def)
    with d show False by simp
  qed
  show "\<not> is_space (digit_char d)" using d by (simp add: is_space_def)
qed

lemma show_nat_not_sign: "c \<in> set (show_nat w n) \<Longrightarrow> \<not> is_sign c \<and> \<not> is_space c"
  using set_show_nat by fastforce

lemma takeWhile_dropWhile_split:
  "\<forall>x \<in> set xs. P x \<Longrightarrow> \<not> P y \<Longrightarrow> takeWhile P (xs @ y # ys) = xs \<and> dropWhile P (xs @ y # ys) = y # ys"
  by (induction xs) auto

definition show_ms :: "int \<Rightarrow> string" where
  "show_ms ms = show_seconds (ms div 1000) @ ''.'' @ show_nat 3 (nat (ms mod 1000))"

lemma fromisoformat_utc:
  assumes "read_date s = Some ((y, m, d), sep # hms @ CHR ''+'' # z)"
    and "\<forall>c \<in> set hms. \<not> is_sign c"
    and "read_hms hms = Some (h, mi, sec, us)" "h < 24" "mi < 60" "sec < 60"
    and "read_hms z = Some (0, 0, 0, 0)"
  shows "fromisoformat s = Some (Some (((ymd2ord y m d - epoch_ord) * 86400 +
    int ((h * 60 + mi) * 60 + sec)) * 1000000 + int us))"
proof -
  have "\<not> \<not> is_sign CHR ''+''" by (simp add: is_sign_def)
  from takeWhile_dropWhile_split [OF assms(2) this] assms show ?thesis
    by (simp add: fromisoformat_def Let_def)
qed

lemma clock_parts: "(t div 3600 * 60 + t div 60 mod 60) * 60 + t mod 60 = (t::nat)"
proof -
  have "t div 3600 = t div 60 div 60" by (simp add: div_mult2_eq)
  then show ?thesis by (metis div_mult_mod_eq mult.commute)
qed

lemma fromisoformat_show_ms:
  assumes "0 \<le> ms" "ms < 253402300800000"
  shows "fromisoformat (show_ms ms @ ''+00:00'') = Some (Some (ms * 1000))"
proof -
  define secs t where "secs = ms div 1000" and "t = nat (secs mod 86400)"
  obtain y m d where ymd: "ord2ymd (secs div 86400 + epoch_ord) = (y, m, d)"
    by (metis surj_pair)
  have ord: "1 \<le> secs div 86400 + epoch_ord" "secs div 86400 + epoch_ord \<le> 3652059"
  proof -
    have "0 \<le> secs" "secs < 253402300800" using assms by (auto simp: secs_def)
    then show "1 \<le> secs div 86400 + epoch_ord" "secs div 86400 + epoch_ord \<le> 3652059"
      using le_div_iff_mult_le [of 86400 2932897 secs] pos_imp_zdiv_nonneg_iff [of 86400 secs]
      by (simp_all add: epoch_ord_def)
  qed
  have t: "t < 86400" "int t = secs mod 86400"
    unfolding t_def by (auto simp: nat_less_iff)
  define h mi sec f where "h = t div 3600" and "mi = t div 60 mod 60" and "sec = t mod 60"
    and "f = nat (ms mod 1000)"
  have bounds: "h < 24" "mi < 60" "sec < 60" "f < 1000"
    using t(1) by (auto simp: h_def mi_def sec_def f_def nat_less_iff)
  define hms where "hms = show_nat 2 h @ '':'' @ show_nat 2 mi @ '':'' @ show_nat 2 sec @ ''.'' @
    show_nat 3 f"
  have "show_ms ms @ ''+00:00'' = show_nat 4 (nat y) @ ''-'' @ show_nat 2 m @ ''-'' @
      show_nat 2 d @ (CHR ''T'' # hms @ CHR ''+'' # ''00:00'')"
    using ymd by (simp add: show_ms_def show_seconds_def secs_def t_def hms_def h_def mi_def
        sec_def f_def Let_def)
  then have "read_date (show_ms ms @ ''+00:00'')
      = Some ((y, m, d), CHR ''T'' # hms @ CHR ''+'' # ''00:00'')"
    by (simp only: read_date_show [OF ymd ord])
  moreover have "\<forall>c \<in> set hms. \<not> is_sign c"
    using show_nat_not_sign by (auto simp: hms_def is_sign_def)
  moreover have "read_hms hms = Some (h, mi, sec, f * 1000)"
    unfolding hms_def using bounds by (intro read_hms_show) auto
  ultimately have "fromisoformat (show_ms ms @ ''+00:00'') = Some (Some
      (((ymd2ord y m d - epoch_ord) * 86400 + int ((h * 60 + mi) * 60 + sec)) * 1000000 +
        int (f * 1000)))"
    using bounds(1-3) read_hms_zero by (rule fromisoformat_utc)
  also have "(h * 60 + mi) * 60 + sec = t"
    unfolding h_def mi_def sec_def by (rule clock_parts)
  also have "((ymd2ord y m d - epoch_ord) * 86400 + int t) * 1000000 + int (f * 1000) = ms * 1000"
  proof -
    have "(ymd2ord y m d - epoch_ord) * 86400 + int t = secs"
      using t(2) ymd2ord_ord2ymd(1) [OF ymd] by simp
    moreover have "int f = ms - secs * 1000"
      by (simp add: f_def secs_def minus_div_mult_eq_mod)
    ultimately show ?thesis by simp
  qed
  finally show ?thesis .
qed

lemma strip_show_ms: "strip (show_ms ms @ ''Z'') = show_ms ms @ ''Z''"
proof (rule strip_id)
  obtain y m d where ymd: "ord2ymd (ms div 1000 div 86400 + epoch_ord) = (y, m, d)"
    by (metis surj_pair)
  have "show_nat 4 (nat y) \<noteq> []"
    using length_show_nat [of 4 "nat y"] by (metis list.size(3) zero_neq_numeral)
  then obtain c cs where c: "show_nat 4 (nat y) = c # cs" by (meson neq_Nil_conv)
  then have "hd (show_ms ms @ ''Z'') = c"
    using ymd by (simp add: show_ms_def show_seconds_def Let_def)
  moreover have "\<not> is_space c" using show_nat_not_sign [of c 4 "nat y"] c by simp
  ultimately show "\<not> is_space (hd (show_ms ms @ ''Z''))" by simp
  show "show_ms ms @ ''Z'' \<noteq> []" "\<not> is_space (last (show_ms ms @ ''Z''))"
    by (simp_all add: is_space_def)
qed

text \<open>\<open>datetime.isoformat()\<close> of an aware UTC time, in microseconds since the epoch.\<close>

definition isoformat_utc :: "int \<Rightarrow> string" where
  "isoformat_utc us = show_seconds (us div 1000000) @
     (if us mod 1000000 = 0 then [] else ''.'' @ show_nat 6 (nat (us mod 1000000))) @ ''+00:00''"

end
