(* ===== verification/Run_Cutter.thy ===== *)
theory Run_Cutter
  imports Ring_Buffer Iso_Time "HOL-Library.Product_Lexorder" "HOL-Library.Multiset"
begin

text \<open>
  \<open>schedules/cutter.py\<close>: cutting one scheduled run out of the live stream, to the
  sample. The specification is the time line of the stream (received samples
  with a zero in the place of every lost one): the file is the stretch of the
  time line from the requested instant, and the cutter's index tables say which
  file samples are zero fill and where each stream sample went. A sample is an
  \<open>int\<close> (a packed SC16 pair); times and rates are exact rationals.
\<close>

type_synonym iq = "int list"
type_synonym gap = "int \<times> int"

datatype cut_op = IQ iq | Zeros int

section \<open>State\<close>

record run_spec =
  rs_schedule_id :: string
  rs_run :: int
  rs_start_ms :: int
  rs_n_samples :: int
  rs_rate_hz :: rat
  rs_center_freq_hz :: rat
  rs_label :: string

record cutter =
  rc_spec :: run_spec
  rc_started :: bool
  rc_done :: bool
  rc_written :: int
  rc_reason :: "string option"
  rc_next_pos :: int
  rc_gaps :: "gap list"
  rc_lost :: int
  rc_late :: int
  rc_first_time :: "rat option"
  rc_error_ns :: "int option"
  rc_stream_start :: "int option"
  rc_breaks :: "(int \<times> int) list"
  rc_zeros_total :: int

definition cutter_new :: "run_spec \<Rightarrow> cutter" where
  "cutter_new spec = \<lparr>rc_spec = spec, rc_started = False, rc_done = False, rc_written = 0,
     rc_reason = None, rc_next_pos = 0, rc_gaps = [], rc_lost = 0, rc_late = 0,
     rc_first_time = None, rc_error_ns = None, rc_stream_start = None, rc_breaks = [],
     rc_zeros_total = 0\<rparr>"

section \<open>Times and gaps\<close>

definition iso_ns :: "rat \<Rightarrow> string" where
  "iso_ns t = (let whole = \<lfloor>t\<rfloor>; ns = py_round ((t - of_int whole) * 1000000000);
     (whole, ns) = (if 1000000000 \<le> ns then (whole + 1, ns - 1000000000) else (whole, ns))
     in show_seconds whole @ ''.'' @ show_nat 9 (nat ns) @ ''Z'')"

definition split_gaps :: "gap list \<Rightarrow> int \<times> gap list" where
  "split_gaps gaps =
     ((\<Sum>(off, lost) \<leftarrow> filter (\<lambda>(off, _). off \<le> 0) gaps. lost),
      sort (filter (\<lambda>(off, _). 0 < off) gaps))"

fun place_loop :: "int \<Rightarrow> int \<Rightarrow> int \<Rightarrow> gap list \<Rightarrow> int \<times> int" where
  "place_loop target n lost_before [] = (min (target - lost_before) n, 0)"
| "place_loop target n lost_before ((off, lost) # gaps) =
     (if target < off + lost_before then (min (target - lost_before) n, 0)
      else if target < off + lost_before + lost then (off, off + lost_before + lost - target)
      else place_loop target n (lost_before + lost) gaps)"

definition place :: "int \<Rightarrow> gap list \<Rightarrow> int \<Rightarrow> int \<times> int" where
  "place target gaps n = place_loop target n 0 (sort gaps)"

section \<open>Results\<close>

definition cutter_status :: "cutter \<Rightarrow> string" where
  "cutter_status c =
     (if \<not> rc_started c then (if rc_done c then ''missed'' else ''pending'')
      else if \<not> rc_done c then ''recording''
      else if rc_reason c = None \<and> rc_lost c = 0 \<and> rc_written c = rs_n_samples (rc_spec c)
      then ''recorded'' else ''partial'')"

record cutter_info =
  ci_requested_start :: string
  ci_first_sample_time :: "string option"
  ci_first_sample_epoch :: "rat option"
  ci_start_error_ns :: "int option"
  ci_late_start_samples :: int
  ci_gaps :: "gap list"
  ci_lost_samples :: int
  ci_stream_start :: "int option"
  ci_samples :: int

definition cutter_info_of :: "cutter \<Rightarrow> cutter_info" where
  "cutter_info_of c = \<lparr>
     ci_requested_start = show_ms (rs_start_ms (rc_spec c)) @ ''Z'',
     ci_first_sample_time = map_option iso_ns (rc_first_time c),
     ci_first_sample_epoch = rc_first_time c,
     ci_start_error_ns = rc_error_ns c,
     ci_late_start_samples = rc_late c,
     ci_gaps = rc_gaps c,
     ci_lost_samples = rc_lost c,
     ci_stream_start = rc_stream_start c,
     ci_samples = rc_written c\<rparr>"

text \<open>
  \<open>bisect.bisect_right\<close> over the break positions: the number of breaks at or
  before \<open>pos\<close>, by binary search.
\<close>

function bisect_breaks :: "(int \<times> int) list \<Rightarrow> int \<Rightarrow> nat \<Rightarrow> nat \<Rightarrow> nat" where
  "bisect_breaks bs pos lo hi =
     (if lo < hi then
        (let mid = (lo + hi) div 2
         in if pos < fst (bs ! mid) then bisect_breaks bs pos lo mid
            else bisect_breaks bs pos (Suc mid) hi)
      else lo)"
  by pat_completeness auto
termination
  by (relation "measure (\<lambda>(_, _, lo, hi). hi - lo)") auto

definition file_index :: "cutter \<Rightarrow> int \<Rightarrow> int option" where
  "file_index c stream_pos = (case rc_stream_start c of None \<Rightarrow> None
     | Some start \<Rightarrow>
       (let i = bisect_breaks (rc_breaks c) stream_pos 0 (length (rc_breaks c));
            zeros = (if 0 < i then snd (rc_breaks c ! (i - 1)) else 0)
        in Some (stream_pos - start + zeros)))"

definition stream_end :: "cutter \<Rightarrow> int option" where
  "stream_end c = (case rc_stream_start c of None \<Rightarrow> None
     | Some start \<Rightarrow> Some (start + rc_written c - rc_zeros_total c))"

section \<open>Feeding\<close>

definition room :: "cutter \<Rightarrow> int" where
  "room c = rs_n_samples (rc_spec c) - rc_written c"

definition check_done :: "cutter \<Rightarrow> cutter" where
  "check_done c = (if rs_n_samples (rc_spec c) \<le> rc_written c then c\<lparr>rc_done := True\<rparr> else c)"

type_synonym cut_state = "cutter \<times> cut_op list"

definition cut_iq :: "iq \<Rightarrow> cut_state \<Rightarrow> cut_state" where
  "cut_iq data = (\<lambda>(c, ops). let k = min (int (length data)) (room c) in
     if 0 < k
     then (check_done (c\<lparr>rc_written := rc_written c + k\<rparr>), ops @ [IQ (take (nat k) data)])
     else (check_done c, ops))"

definition extend_gaps :: "gap list \<Rightarrow> int \<Rightarrow> int \<Rightarrow> gap list" where
  "extend_gaps gaps pos k =
     (if gaps \<noteq> [] \<and> fst (last gaps) + snd (last gaps) = pos
      then butlast gaps @ [(fst (last gaps), snd (last gaps) + k)] else gaps @ [(pos, k)])"

definition cut_zeros :: "int \<Rightarrow> int \<Rightarrow> bool \<Rightarrow> cut_state \<Rightarrow> cut_state" where
  "cut_zeros cnt pos shifts = (\<lambda>(c, ops). let k = min cnt (room c) in
     if 0 < k
     then (let c = (if shifts
                    then c\<lparr>rc_zeros_total := rc_zeros_total c + k,
                           rc_breaks := rc_breaks c @ [(pos, rc_zeros_total c + k)]\<rparr> else c)
           in (check_done (c\<lparr>rc_gaps := extend_gaps (rc_gaps c) (rc_written c) k,
                 rc_lost := rc_lost c + k, rc_written := rc_written c + k\<rparr>), ops @ [Zeros k]))
     else (check_done c, ops))"

fun chunk_loop :: "iq \<Rightarrow> int \<Rightarrow> int \<Rightarrow> int \<Rightarrow> gap list \<Rightarrow> cut_state \<Rightarrow> cut_state" where
  "chunk_loop chunk chunk_start start pos [] s = cut_iq (drop (nat pos) chunk) s"
| "chunk_loop chunk chunk_start start pos ((off, lost) # gaps) s =
     (if off \<le> start then chunk_loop chunk chunk_start start pos gaps s
      else chunk_loop chunk chunk_start start off gaps
             (cut_zeros lost (chunk_start + off) True (cut_iq (slice pos off chunk) s)))"

definition cut_chunk :: "iq \<Rightarrow> int \<Rightarrow> int \<Rightarrow> gap list \<Rightarrow> cut_state \<Rightarrow> cut_state" where
  "cut_chunk chunk chunk_start start gaps s = chunk_loop chunk chunk_start start start gaps s"

definition cutter_end :: "string \<Rightarrow> cutter \<Rightarrow> cutter" where
  "cutter_end reason c = (if rc_done c then c else c\<lparr>rc_done := True, rc_reason := Some reason\<rparr>)"

definition cutter_begin ::
  "iq \<Rightarrow> int \<Rightarrow> rat \<Rightarrow> gap list \<Rightarrow> int ring_reader option \<Rightarrow> cutter \<Rightarrow> cut_state" where
  "cutter_begin chunk chunk_start capture_time gaps ring c =
     (let rate = rs_rate_hz (rc_spec c); n = int (length chunk);
          delta = of_int (rs_start_ms (rc_spec c)) / 1000 - capture_time;
          target = py_round (delta * rate);
          (before, inner) = split_gaps gaps;
          span = n + (\<Sum>(_, lost) \<leftarrow> inner. lost)
      in if span \<le> target then (c, [])
         else
           let c = c\<lparr>rc_started := True, rc_first_time := Some (capture_time + of_int target / rate),
                 rc_error_ns := Some (py_round ((of_int target / rate - delta) * 1000000000))\<rparr>;
               s = (if 0 \<le> target then
                      (let (off, head) = place target inner n;
                           c = c\<lparr>rc_stream_start := Some (chunk_start + off)\<rparr>
                       in cut_chunk chunk chunk_start off inner
                            (cut_zeros head (chunk_start + off) True (c, [])))
                    else if 0 \<le> target + before then
                      (let c = c\<lparr>rc_stream_start := Some chunk_start\<rparr>
                       in cut_chunk chunk chunk_start 0 inner
                            (cut_zeros (- target) chunk_start True (c, [])))
                    else
                      (let p0 = chunk_start + target + before;
                           oldest = (case ring of None \<Rightarrow> chunk_start | Some r \<Rightarrow> fst (rr_bounds r));
                           begin' = max p0 (min oldest chunk_start);
                           data = (case ring of None \<Rightarrow> None
                             | Some r \<Rightarrow> if begin' < chunk_start then rr_read_range r begin' chunk_start
                                          else None);
                           begin' = (if data = None then chunk_start else begin');
                           late = begin' - p0;
                           c = c\<lparr>rc_stream_start := Some begin'\<rparr>;
                           s = (if late \<noteq> 0
                                then cut_zeros late begin' True
                                       (c\<lparr>rc_late := min late (rs_n_samples (rc_spec c))\<rparr>, [])
                                else (c, []));
                           s = (case data of None \<Rightarrow> s | Some d \<Rightarrow> cut_iq d s)
                       in cut_chunk chunk chunk_start 0 inner (cut_zeros before chunk_start True s)))
           in ((fst s)\<lparr>rc_next_pos := chunk_start + n\<rparr>, snd s))"

definition cutter_feed ::
  "iq \<Rightarrow> int \<Rightarrow> rat \<Rightarrow> gap list \<Rightarrow> rat \<Rightarrow> int ring_reader option \<Rightarrow> cutter \<Rightarrow> cut_state" where
  "cutter_feed chunk chunk_start capture_time gaps center_freq_hz ring c =
     (if rc_done c then (c, [])
      else if rc_started c then
        (if center_freq_hz \<noteq> rs_center_freq_hz (rc_spec c) then (cutter_end ''retuned'' c, [])
         else
           let (before, inner) = split_gaps gaps;
               s = (if rc_next_pos c < chunk_start
                    then cut_zeros (chunk_start - rc_next_pos c) chunk_start False (c, [])
                    else (c, []));
               s = cut_chunk chunk chunk_start 0 inner (cut_zeros before chunk_start True s)
           in ((fst s)\<lparr>rc_next_pos := chunk_start + int (length chunk)\<rparr>, snd s))
      else cutter_begin chunk chunk_start capture_time gaps ring c)"

section \<open>The time line\<close>

text \<open>
  The time line of a chunk: before the sample at offset \<open>k\<close> stand the samples
  lost there, as zeros; samples lost at or after the end of the chunk follow it.
\<close>

definition zeros :: "int \<Rightarrow> iq" where
  "zeros k = replicate (nat k) 0"

definition lost_at :: "gap list \<Rightarrow> int \<Rightarrow> int" where
  "lost_at gaps k = (\<Sum>(off, lost) \<leftarrow> filter (\<lambda>(off, _). off = k) gaps. lost)"

definition lost_from :: "gap list \<Rightarrow> int \<Rightarrow> int" where
  "lost_from gaps k = (\<Sum>(off, lost) \<leftarrow> filter (\<lambda>(off, _). k \<le> off) gaps. lost)"

fun time_line :: "int \<Rightarrow> iq \<Rightarrow> gap list \<Rightarrow> iq" where
  "time_line k [] gaps = zeros (lost_from gaps k)"
| "time_line k (x # xs) gaps = zeros (lost_at gaps k) @ x # time_line (k + 1) xs gaps"

text \<open>What a list of write operations puts in the file.\<close>

fun op_samples :: "cut_op \<Rightarrow> iq" where
  "op_samples (IQ d) = d"
| "op_samples (Zeros k) = zeros k"

definition file_of :: "cut_op list \<Rightarrow> iq" where
  "file_of ops = concat (map op_samples ops)"

lemma zeros_simps [simp]:
  "zeros 0 = []" "length (zeros k) = nat k" "k \<le> 0 \<Longrightarrow> zeros k = []"
  by (simp_all add: zeros_def)

lemma zeros_add: "0 \<le> a \<Longrightarrow> 0 \<le> b \<Longrightarrow> zeros (a + b) = zeros a @ zeros b"
  by (simp add: zeros_def nat_add_distrib replicate_add)

lemma take_zeros [simp]: "take m (zeros k) = zeros (min (int m) k)"
  by (cases "0 \<le> k") (auto simp: zeros_def min_def intro: arg_cong [where f = "\<lambda>n. replicate n 0"])

lemma drop_zeros [simp]: "drop m (zeros k) = zeros (k - int m)"
  by (auto simp: zeros_def intro: arg_cong [where f = "\<lambda>n. replicate n 0"])

lemma set_zeros: "x \<in> set (zeros k) \<Longrightarrow> x = 0"
  by (simp add: zeros_def)

lemma file_of_simps [simp]:
  "file_of [] = []" "file_of (xs @ ys) = file_of xs @ file_of ys"
  "file_of (p # ys) = op_samples p @ file_of ys"
  by (simp_all add: file_of_def)

section \<open>Appending to the file\<close>

text \<open>
  \<open>writes content s s'\<close>: the step from \<open>s\<close> to \<open>s'\<close> appended \<open>content\<close> to the
  file, cut at the run's length, and did nothing else to the run.
\<close>

definition writes :: "iq \<Rightarrow> cut_state \<Rightarrow> cut_state \<Rightarrow> bool" where
  "writes content s s' \<longleftrightarrow>
     rc_spec (fst s') = rc_spec (fst s) \<and> rc_started (fst s') = rc_started (fst s) \<and>
     rc_reason (fst s') = rc_reason (fst s) \<and> rc_stream_start (fst s') = rc_stream_start (fst s) \<and>
     rc_first_time (fst s') = rc_first_time (fst s) \<and> rc_error_ns (fst s') = rc_error_ns (fst s) \<and>
     rc_late (fst s') = rc_late (fst s) \<and>
     rc_written (fst s') = rc_written (fst s) + min (int (length content)) (room (fst s)) \<and>
     rc_done (fst s') = (rc_done (fst s) \<or> room (fst s) \<le> int (length content)) \<and>
     file_of (snd s') = file_of (snd s) @ take (nat (room (fst s))) content"

lemma writes_room: "writes d s s' \<Longrightarrow> room (fst s') = max 0 (room (fst s) - int (length d))
    \<or> room (fst s) < 0"
  by (auto simp: writes_def room_def)

lemma writes_trans:
  assumes "writes d s s'" "writes e s' s''" "0 \<le> room (fst s)"
  shows "writes (d @ e) s s''"
proof -
  have r: "room (fst s') = max 0 (room (fst s) - int (length d))"
    using writes_room [OF assms(1)] assms(3) by simp
  have len: "min (int (length d)) R + min (int (length e)) (max 0 (R - int (length d)))
      = min (int (length (d @ e))) R" if "0 \<le> R" for R
    using that by (simp add: min_def max_def)
  have fin: "(R \<le> int (length d) \<or> max 0 (R - int (length d)) \<le> int (length e))
      = (R \<le> int (length (d @ e)))" for R
    by (simp add: max_def) linarith
  have tk: "take (nat R) d @ take (nat (max 0 (R - int (length d)))) e = take (nat R) (d @ e)"
    if "0 \<le> R" for R
  proof -
    have "nat (max 0 (R - int (length d))) = nat R - length d"
      by (simp add: max_def nat_diff_distrib')
    then show ?thesis by simp
  qed
  note 1 = assms(1) [unfolded writes_def] and 2 = assms(2) [unfolded writes_def r]
  have "rc_written (fst s'') = rc_written (fst s) + min (int (length (d @ e))) (room (fst s))"
  proof -
    have "rc_written (fst s') = rc_written (fst s) + min (int (length d)) (room (fst s))"
      "rc_written (fst s'') = rc_written (fst s') +
         min (int (length e)) (max 0 (room (fst s) - int (length d)))"
      using 1 2 by blast+
    with len [OF assms(3)] show ?thesis by linarith
  qed
  moreover have "rc_done (fst s'') = (rc_done (fst s) \<or> room (fst s) \<le> int (length (d @ e)))"
    using 1 2 fin by metis
  moreover have "file_of (snd s'') = file_of (snd s) @ take (nat (room (fst s))) (d @ e)"
    using 1 2 tk [OF assms(3)] by (metis append.assoc)
  ultimately show ?thesis using 1 2 by (simp only: writes_def)
qed

lemma writes_nil:
  "0 \<le> room (fst s) \<Longrightarrow> (room (fst s) \<le> 0 \<Longrightarrow> rc_done (fst s)) \<Longrightarrow> writes [] s s"
  by (cases "room (fst s) \<le> 0") (auto simp: writes_def)

lemma writes_done_room:
  assumes "writes d s s'" "0 < room (fst s)" "room (fst s') \<le> 0"
  shows "rc_done (fst s')"
  using assms by (auto simp: writes_def room_def min_def split: if_splits)

lemma writes_room_nonneg: "writes d s s' \<Longrightarrow> 0 \<le> room (fst s) \<Longrightarrow> 0 \<le> room (fst s')"
  using writes_room by fastforce

lemma check_done_simps [simp]:
  "rc_spec (check_done c) = rc_spec c" "rc_started (check_done c) = rc_started c"
  "rc_written (check_done c) = rc_written c" "rc_reason (check_done c) = rc_reason c"
  "rc_next_pos (check_done c) = rc_next_pos c" "rc_gaps (check_done c) = rc_gaps c"
  "rc_lost (check_done c) = rc_lost c" "rc_late (check_done c) = rc_late c"
  "rc_first_time (check_done c) = rc_first_time c" "rc_error_ns (check_done c) = rc_error_ns c"
  "rc_stream_start (check_done c) = rc_stream_start c" "rc_breaks (check_done c) = rc_breaks c"
  "rc_zeros_total (check_done c) = rc_zeros_total c"
  "rc_done (check_done c) = (rc_done c \<or> rs_n_samples (rc_spec c) \<le> rc_written c)"
  by (simp_all add: check_done_def)

lemma min_room_done: "(n \<le> w + min k (n - w)) = (n - w \<le> (k::int))"
  unfolding min_def by auto

lemma cut_iq_writes:
  assumes "0 \<le> room (fst s)" shows "writes data s (cut_iq data s)"
proof -
  obtain c ops where s: "s = (c, ops)" by (cases s)
  define k where "k = min (int (length data)) (room c)"
  have k: "take (nat k) data = take (nat (room c)) data" "0 \<le> k"
    using assms by (auto simp: k_def s min_def)
  have dn: "(rs_n_samples (rc_spec c) \<le> rc_written c + k) = (room c \<le> int (length data))"
    by (simp add: k_def room_def min_room_done)
  show ?thesis
  proof (cases "0 < k")
    case True
    then have "cut_iq data s = (check_done (c\<lparr>rc_written := rc_written c + k\<rparr>),
        ops @ [IQ (take (nat k) data)])"
      by (simp add: s cut_iq_def Let_def k_def)
    then show ?thesis using k dn by (simp add: writes_def s k_def [symmetric])
  next
    case False
    then have res: "cut_iq data s = (check_done c, ops)"
      unfolding s cut_iq_def Let_def k_def by simp
    have "data = [] \<or> room c = 0" using False assms by (auto simp: k_def s)
    then show ?thesis
      unfolding res using assms by (elim disjE) (auto simp: writes_def s room_def)
  qed
qed

lemma cut_zeros_writes:
  assumes "0 \<le> room (fst s)" "0 \<le> cnt" shows "writes (zeros cnt) s (cut_zeros cnt pos sh s)"
proof -
  obtain c ops where s: "s = (c, ops)" by (cases s)
  define k where "k = min cnt (room c)"
  have k: "zeros k = take (nat (room c)) (zeros cnt)" "0 \<le> k" "int (nat cnt) = cnt"
    using assms by (auto simp: k_def s min.commute)
  have dn: "(rs_n_samples (rc_spec c) \<le> rc_written c + k) = (room c \<le> cnt)"
    by (simp add: k_def room_def min_room_done)
  show ?thesis
  proof (cases "0 < k")
    case True
    then have "cut_zeros cnt pos sh s =
        (let c' = (if sh then c\<lparr>rc_zeros_total := rc_zeros_total c + k,
              rc_breaks := rc_breaks c @ [(pos, rc_zeros_total c + k)]\<rparr> else c)
         in (check_done (c'\<lparr>rc_gaps := extend_gaps (rc_gaps c') (rc_written c') k,
              rc_lost := rc_lost c' + k, rc_written := rc_written c' + k\<rparr>), ops @ [Zeros k]))"
      unfolding k_def s cut_zeros_def Let_def by simp
    then show ?thesis
      using k dn by (cases sh) (simp_all add: writes_def s k_def [symmetric] Let_def)
  next
    case False
    then have res: "cut_zeros cnt pos sh s = (check_done c, ops)"
      unfolding s cut_zeros_def Let_def k_def by simp
    have "cnt = 0 \<or> room c = 0" using False assms by (auto simp: k_def s)
    then show ?thesis
      unfolding res using assms by (elim disjE) (auto simp: writes_def s room_def)
  qed
qed

section \<open>A chunk against its time line\<close>

text \<open>
  What the receiver promises of a chunk's gaps: they lie in the chunk, at
  distinct offsets, and none is negative.
\<close>

definition gaps_ok :: "int \<Rightarrow> gap list \<Rightarrow> bool" where
  "gaps_ok n gaps \<longleftrightarrow> distinct (map fst gaps) \<and> (\<forall>(off, lost) \<in> set gaps. off \<le> n \<and> 0 \<le> lost)"

abbreviation increasing :: "gap list \<Rightarrow> bool" where
  "increasing gs \<equiv> sorted_wrt (\<lambda>x y. fst x < fst y) gs"

abbreviation gaps_from :: "int \<Rightarrow> gap list \<Rightarrow> bool" where
  "gaps_from k gs \<equiv> \<forall>(off, lost) \<in> set gs. k \<le> off \<and> 0 \<le> lost"

lemma lost_simps [simp]:
  "lost_at [] k = 0" "lost_from [] k = 0"
  "lost_at ((off, lost) # gs) k = (if off = k then lost else 0) + lost_at gs k"
  "lost_from ((off, lost) # gs) k = (if k \<le> off then lost else 0) + lost_from gs k"
  by (simp_all add: lost_at_def lost_from_def)

lemma lost_at_none: "\<forall>(off, lost) \<in> set gs. k < off \<Longrightarrow> lost_at gs k = 0"
  by (induction gs) auto

lemma lost_at_nonneg: "\<forall>(off, lost) \<in> set gs. 0 \<le> lost \<Longrightarrow> 0 \<le> lost_at gs k"
  by (induction gs) auto

lemma lost_from_nonneg: "\<forall>(off, lost) \<in> set gs. 0 \<le> lost \<Longrightarrow> 0 \<le> lost_from gs k"
  by (induction gs) auto

lemma lost_from_Suc: "\<forall>(off, lost) \<in> set gs. k < off \<Longrightarrow> lost_from gs (k + 1) = lost_from gs k"
  by (induction gs) auto

lemma lost_from_sum: "lost_from gs k = lost_at gs k + lost_from gs (k + 1)"
  by (induction gs) (auto)

lemma length_time_line:
  "\<forall>(off, lost) \<in> set gs. 0 \<le> lost \<Longrightarrow>
    int (length (time_line k xs gs)) = int (length xs) + lost_from gs k"
proof (induction k xs gs rule: time_line.induct)
  case (1 k gaps)
  then show ?case using lost_from_nonneg [of gaps k] by simp
next
  case (2 k x xs gaps)
  then show ?case
    using lost_at_nonneg [of gaps k] lost_from_sum [of gaps k] by simp
qed

lemma time_line_no_gaps [simp]: "time_line k xs [] = xs"
  by (induction k xs "[] :: gap list" rule: time_line.induct) simp_all

text \<open>No gap before \<open>o\<close>: the chunk's samples stand there alone.\<close>

lemma time_line_advance:
  assumes "gaps_from o' gs" "k \<le> o'" "o' - k \<le> int (length xs)"
  shows "time_line k xs gs = take (nat (o' - k)) xs @ time_line o' (drop (nat (o' - k)) xs) gs"
  using assms
proof (induction k xs gs rule: time_line.induct)
  case (1 k gaps)
  then show ?case by simp
next
  case (2 k x xs gaps)
  show ?case
  proof (cases "k = o'")
    case True
    then show ?thesis by simp
  next
    case False
    with "2.prems" have "k < o'" by simp
    with "2.prems"(1) have "lost_at gaps k = 0" by (intro lost_at_none) auto
    moreover have "nat (o' - k) = Suc (nat (o' - (k + 1)))" using \<open>k < o'\<close> by simp
    ultimately show ?thesis
      using "2.IH" "2.prems" \<open>k < o'\<close> by simp
  qed
qed

lemma time_line_skip: "off < k \<Longrightarrow> time_line k xs ((off, lost) # gs) = time_line k xs gs"
  by (induction k xs gs rule: time_line.induct) auto

lemma time_line_at_gap:
  assumes "0 \<le> lost" "\<forall>(off, lost) \<in> set gs. 0 \<le> lost"
  shows "time_line off xs ((off, lost) # gs) = zeros lost @ time_line off xs gs"
  using assms lost_at_nonneg [of gs off] lost_from_nonneg [of gs off]
  by (cases xs) (simp_all add: zeros_add time_line_skip)

text \<open>The time line of \<open>chunk[k:]\<close> splits at the next gap.\<close>

lemma time_line_to_gap:
  assumes "0 \<le> k" "k \<le> off" "off \<le> int (length chunk)" "0 \<le> lost" "gaps_from off gs"
  shows "time_line k (drop (nat k) chunk) ((off, lost) # gs) =
    slice k off chunk @ zeros lost @ time_line off (drop (nat off) chunk) gs"
proof -
  have "nat (off - k) + nat k = nat off" using assms by simp
  then have "drop (nat (off - k)) (drop (nat k) chunk) = drop (nat off) chunk" by simp
  moreover have "time_line k (drop (nat k) chunk) ((off, lost) # gs) =
      take (nat (off - k)) (drop (nat k) chunk) @
      time_line off (drop (nat (off - k)) (drop (nat k) chunk)) ((off, lost) # gs)"
    using assms by (intro time_line_advance) auto
  moreover have "\<forall>(off, lost) \<in> set gs. 0 \<le> lost" using assms(5) by auto
  ultimately show ?thesis using time_line_at_gap [OF assms(4)] by (simp add: slice_def)
qed

lemma chunk_loop_writes:
  assumes "0 \<le> room (fst s)" "0 \<le> start" "start \<le> pos" "pos \<le> int (length chunk)"
    and "increasing gs"
    and "\<forall>(off, lost) \<in> set gs. off \<le> int (length chunk) \<and> 0 \<le> lost \<and> (start < off \<longrightarrow> pos \<le> off)"
  shows "writes (time_line pos (drop (nat pos) chunk) (filter (\<lambda>(off, _). start < off) gs)) s
    (chunk_loop chunk cs start pos gs s)"
  using assms
proof (induction gs arbitrary: pos s)
  case Nil
  then show ?case by (simp add: cut_iq_writes)
next
  case (Cons g gs)
  obtain off lost where g: "g = (off, lost)" by (cases g)
  show ?case
  proof (cases "off \<le> start")
    case True
    with Cons show ?thesis by (simp add: g)
  next
    case False
    let ?s1 = "cut_iq (slice pos off chunk) s" and ?gs = "filter (\<lambda>(off, _). start < off) gs"
    let ?s2 = "cut_zeros lost (cs + off) True ?s1"
    have off: "pos \<le> off" "off \<le> int (length chunk)" "0 \<le> lost"
      using Cons.prems False by (auto simp: g)
    have gs: "gaps_from off ?gs" using Cons.prems by (auto simp: g)
    have w1: "writes (slice pos off chunk) s ?s1"
      using Cons.prems by (intro cut_iq_writes) auto
    have r1: "0 \<le> room (fst ?s1)" using w1 Cons.prems(1) by (rule writes_room_nonneg)
    have w2: "writes (zeros lost) ?s1 ?s2" using r1 off(3) by (rule cut_zeros_writes)
    have r2: "0 \<le> room (fst ?s2)" using w2 r1 by (rule writes_room_nonneg)
    have "writes (time_line off (drop (nat off) chunk) ?gs) ?s2
        (chunk_loop chunk cs start off gs ?s2)"
      using Cons.prems False off r2 by (intro Cons.IH) (auto simp: g)
    from writes_trans [OF writes_trans [OF w1 w2 Cons.prems(1)] this Cons.prems(1)]
    moreover have "0 \<le> pos" using Cons.prems(2,3) by simp
    ultimately show ?thesis
      using False time_line_to_gap [OF _ off gs] by (simp add: g)
  qed
qed

text \<open>Placing a start inside a chunk: the rest of its time line is what gets written.\<close>

lemma filter_increasing: "increasing gs \<Longrightarrow> (\<forall>(off, lost) \<in> set gs. k < off) \<Longrightarrow>
    filter (\<lambda>(off, _). k < off) gs = gs"
  by (induction gs) auto

lemma place_loop_time_line:
  assumes "place_loop t n lb gs = (o', h)" "increasing gs"
    and "\<forall>(off, lost) \<in> set gs. k \<le> off \<and> off \<le> n \<and> 0 \<le> lost"
    and "0 \<le> k" "k \<le> n" "n = int (length chunk)" "k + lb \<le> t"
    and "t - lb - k < int (length (time_line k (drop (nat k) chunk) gs))"
  shows "drop (nat (t - lb - k)) (time_line k (drop (nat k) chunk) gs) =
      zeros h @ time_line o' (drop (nat o') chunk) (filter (\<lambda>(off, _). o' < off) gs) \<and>
    k \<le> o' \<and> o' \<le> n \<and> 0 \<le> h"
  using assms
proof (induction gs arbitrary: k lb)
  case Nil
  then have "nat (t - lb - k) + nat k = nat o'" "o' = t - lb" "h = 0" by auto
  with Nil show ?case by simp
next
  case (Cons g gs)
  obtain off lost where g: "g = (off, lost)" by (cases g)
  have b: "k \<le> off" "off \<le> n" "0 \<le> lost" "gaps_from off gs" "\<forall>(o2, l2) \<in> set gs. off < o2"
    using Cons.prems(2,3) by (auto simp: g)
  have tl: "time_line k (drop (nat k) chunk) (g # gs) =
      slice k off chunk @ zeros lost @ time_line off (drop (nat off) chunk) gs"
    unfolding g using b Cons.prems by (intro time_line_to_gap) auto
  have sl: "length (slice k off chunk) = nat (off - k)" using b Cons.prems by simp
  consider "t < off + lb" | "off + lb \<le> t" "t < off + lb + lost" | "off + lb + lost \<le> t" by linarith
  then show ?case
  proof cases
    case 1
    then have o': "o' = t - lb" "h = 0" using Cons.prems(1) b by (auto simp: g)
    have "time_line k (drop (nat k) chunk) (g # gs) =
        take (nat (o' - k)) (drop (nat k) chunk) @
        time_line o' (drop (nat (o' - k)) (drop (nat k) chunk)) (g # gs)"
      using b Cons.prems 1 o' by (intro time_line_advance) (auto simp: g)
    moreover have "nat (o' - k) + nat k = nat o'" using o' Cons.prems by simp
    moreover have "length (take (nat (o' - k)) (drop (nat k) chunk)) = nat (t - lb - k)"
      using o' Cons.prems 1 b by simp
    moreover have "filter (\<lambda>(off, _). o' < off) (g # gs) = g # gs"
      using Cons.prems(2) b 1 o' by (intro filter_increasing) (auto simp: g)
    ultimately show ?thesis using o' Cons.prems 1 b by simp
  next
    case 2
    then have o': "o' = off" "h = off + lb + lost - t" using Cons.prems(1) by (auto simp: g)
    have "filter (\<lambda>(off, _). o' < off) (g # gs) = gs"
      using Cons.prems(2) b o' by (simp add: g filter_increasing)
    moreover have "drop (nat (t - lb - k)) (slice k off chunk @ zeros lost @ r) = zeros h @ r" for r
    proof -
      have "int (nat (t - lb - k) - nat (off - k)) = t - lb - off"
        "nat (off - k) \<le> nat (t - lb - k)" "nat (t - lb - off) \<le> nat lost" using 2 b by simp_all
      moreover from this have "nat (t - lb - k) - (nat (off - k) + nat lost) = 0" by simp
      moreover have "h = lost - (t - lb - off)" using o'(2) by simp
      ultimately show ?thesis using sl by simp
    qed
    ultimately show ?thesis unfolding tl using o' b 2 Cons.prems by simp
  next
    case 3
    have "nat (t - lb - k) = length (slice k off chunk @ zeros lost) + nat (t - (lb + lost) - off)"
      using 3 sl b Cons.prems by simp
    then have dr: "drop (nat (t - lb - k)) (time_line k (drop (nat k) chunk) (g # gs)) =
        drop (nat (t - (lb + lost) - off)) (time_line off (drop (nat off) chunk) gs)"
      unfolding tl by simp
    have "place_loop t n (lb + lost) gs = (o', h)" using Cons.prems(1) 3 b by (simp add: g)
    moreover have "t - (lb + lost) - off < int (length (time_line off (drop (nat off) chunk) gs))"
      using Cons.prems(8) sl b 3 unfolding tl by simp
    ultimately have IH: "drop (nat (t - (lb + lost) - off)) (time_line off (drop (nat off) chunk) gs) =
        zeros h @ time_line o' (drop (nat o') chunk) (filter (\<lambda>(off, _). o' < off) gs) \<and>
        off \<le> o' \<and> o' \<le> n \<and> 0 \<le> h"
      using Cons.prems b 3 by (intro Cons.IH) auto
    moreover from IH have "filter (\<lambda>(off, _). o' < off) (g # gs) = filter (\<lambda>(off, _). o' < off) gs"
      by (simp add: g)
    ultimately show ?thesis unfolding dr using b by simp
  qed
qed

text \<open>The order in which a chunk's gaps are listed does not matter.\<close>

lemma lost_at_mset:
  assumes "mset gs = mset gs'" shows "lost_at gs k = lost_at gs' k"
proof -
  have "lost_at xs k = (\<Sum>(off, lost) \<in># filter_mset (\<lambda>(off, _). off = k) (mset xs). lost)" for xs
    by (simp add: lost_at_def sum_mset_sum_list [symmetric])
  then show ?thesis using assms by simp
qed

lemma lost_from_mset:
  assumes "mset gs = mset gs'" shows "lost_from gs k = lost_from gs' k"
proof -
  have "lost_from xs k = (\<Sum>(off, lost) \<in># filter_mset (\<lambda>(off, _). k \<le> off) (mset xs). lost)" for xs
    by (simp add: lost_from_def sum_mset_sum_list [symmetric])
  then show ?thesis using assms by simp
qed

lemma time_line_mset: "mset gs = mset gs' \<Longrightarrow> time_line k xs gs = time_line k xs gs'"
proof (induction k xs gs rule: time_line.induct)
  case (1 k gaps)
  then show ?case by (simp only: time_line.simps lost_from_mset [of gaps gs'])
next
  case (2 k x xs gaps)
  then show ?case by (simp only: time_line.simps lost_at_mset [of gaps gs'])
qed

text \<open>Samples lost before the chunk's first sample, and the whole time line of a chunk.\<close>

definition lost_before :: "gap list \<Rightarrow> int" where
  "lost_before gaps = (\<Sum>(off, lost) \<leftarrow> filter (\<lambda>(off, _). off \<le> 0) gaps. lost)"

definition inner_line :: "iq \<Rightarrow> gap list \<Rightarrow> iq" where
  "inner_line chunk gaps = time_line 0 chunk (filter (\<lambda>(off, _). 0 < off) gaps)"

definition chunk_line :: "iq \<Rightarrow> gap list \<Rightarrow> iq" where
  "chunk_line chunk gaps = zeros (lost_before gaps) @ inner_line chunk gaps"

lemma sorted_distinct_increasing:
  "sorted gs \<Longrightarrow> distinct (map fst gs) \<Longrightarrow> increasing (gs :: gap list)"
proof (induction gs)
  case (Cons g gs)
  have "fst g < fst g'" if "g' \<in> set gs" for g'
  proof -
    have "g \<le> g'" using Cons.prems that by simp
    moreover have "fst g \<noteq> fst g'" using Cons.prems that by (auto simp: rev_image_eqI)
    ultimately show ?thesis by (auto simp: less_eq_prod_def)
  qed
  with Cons show ?case by simp
qed simp

lemma split_gaps_ok:
  assumes "gaps_ok n gaps" "split_gaps gaps = (before, inner)"
  shows "before = lost_before gaps" "0 \<le> before" "increasing inner" "sort inner = inner"
    "\<forall>(off, lost) \<in> set inner. 0 < off \<and> off \<le> n \<and> 0 \<le> lost"
    "time_line 0 chunk inner = inner_line chunk gaps"
    "(\<Sum>(_, lost) \<leftarrow> inner. lost) = lost_from inner 0"
proof -
  have inner: "inner = sort (filter (\<lambda>(off, _). 0 < off) gaps)" and
    b: "before = lost_before gaps"
    using assms(2) by (auto simp: split_gaps_def lost_before_def)
  show "before = lost_before gaps" by (rule b)
  show "0 \<le> before" using assms(1) unfolding b lost_before_def gaps_ok_def
    by (intro sum_list_nonneg) auto
  have "distinct (map fst (filter (\<lambda>(off, _). 0 < off) gaps))"
    using assms(1) by (simp add: gaps_ok_def distinct_map_filter)
  then have "distinct (map fst inner)"
    unfolding inner by (simp add: distinct_map) 
  then show "increasing inner" by (intro sorted_distinct_increasing) (simp_all add: inner)
  show "sort inner = inner" by (simp add: inner sorted_sort_id)
  show all: "\<forall>(off, lost) \<in> set inner. 0 < off \<and> off \<le> n \<and> 0 \<le> lost"
    using assms(1) by (auto simp: inner gaps_ok_def)
  show "time_line 0 chunk inner = inner_line chunk gaps"
    unfolding inner_line_def by (rule time_line_mset) (simp add: inner)
  have "filter (\<lambda>(off, _). 0 \<le> off) inner = inner"
    using all by (intro filter_True) auto
  then show "(\<Sum>(_, lost) \<leftarrow> inner. lost) = lost_from inner 0"
    by (simp add: lost_from_def)
qed

lemma cut_chunk_writes:
  assumes "0 \<le> room (fst s)" "0 \<le> start" "start \<le> int (length chunk)" "increasing inner"
    and "\<forall>(off, lost) \<in> set inner. 0 < off \<and> off \<le> int (length chunk) \<and> 0 \<le> lost"
  shows "writes (time_line start (drop (nat start) chunk) (filter (\<lambda>(off, _). start < off) inner)) s
    (cut_chunk chunk cs start inner s)"
  unfolding cut_chunk_def using assms by (intro chunk_loop_writes) auto

lemma filter_inner:
  "\<forall>(off, lost) \<in> set inner. 0 < off \<and> P off lost \<Longrightarrow> filter (\<lambda>(off, _). (0::int) < off) inner = inner"
  by (intro filter_True) auto

text \<open>Lost samples before the chunk, then the chunk: what a running cutter appends.\<close>

lemma cut_whole_chunk:
  assumes "0 \<le> room (fst s)" "gaps_ok (int (length chunk)) gaps" "split_gaps gaps = (before, inner)"
  shows "writes (chunk_line chunk gaps) s
    (cut_chunk chunk cs 0 inner (cut_zeros before cs sh s))"
proof -
  note i = split_gaps_ok [OF assms(2,3)]
  have w1: "writes (zeros before) s (cut_zeros before cs sh s)"
    using assms(1) i(2) by (rule cut_zeros_writes)
  have "writes (time_line 0 chunk inner) (cut_zeros before cs sh s)
      (cut_chunk chunk cs 0 inner (cut_zeros before cs sh s))"
    using cut_chunk_writes [OF writes_room_nonneg [OF w1 assms(1)] order_refl _ i(3,5)]
      filter_inner [OF i(5)] by simp
  from writes_trans [OF w1 this assms(1)] show ?thesis
    by (simp add: chunk_line_def i(1) i(6))
qed

section \<open>Feeding a running cutter\<close>

text \<open>A run that is recording: it is done exactly when nothing is left to write.\<close>

definition recording :: "cutter \<Rightarrow> bool" where
  "recording c \<longleftrightarrow> rc_started c \<and> rc_reason c = None \<and> 0 \<le> room c \<and> (rc_done c \<longleftrightarrow> room c = 0)"

lemma writes_recording: "writes d s s' \<Longrightarrow> recording (fst s) \<Longrightarrow> recording (fst s')"
  using writes_room [of d s s'] by (auto simp: recording_def writes_def)

lemma writes_next_pos [simp]: "writes d s (c\<lparr>rc_next_pos := p\<rparr>, ops) = writes d s (c, ops)"
  by (simp add: writes_def)

lemma writes_done:
  "rc_done c \<Longrightarrow> room c = 0 \<Longrightarrow> writes d (c, []) (c, [])"
  by (simp add: writes_def)

text \<open>Chunks that follow on each other, at the tuning of the run.\<close>

lemma feed_writes:
  assumes "recording c" "rc_done c \<or> rc_next_pos c = cs" "gaps_ok (int (length chunk)) gaps"
    and "freq = rs_center_freq_hz (rc_spec c)"
  shows "writes (chunk_line chunk gaps) (c, []) (cutter_feed chunk cs t gaps freq ring c) \<and>
    (let c' = fst (cutter_feed chunk cs t gaps freq ring c)
     in rc_done c' \<or> rc_next_pos c' = cs + int (length chunk))"
proof (cases "rc_done c")
  case True
  with assms(1) show ?thesis
    by (simp add: cutter_feed_def writes_done recording_def Let_def)
next
  case False
  obtain before inner where sp: "split_gaps gaps = (before, inner)" by (cases "split_gaps gaps")
  define s where "s = cut_chunk chunk cs 0 inner (cut_zeros before cs True (c, []))"
  have f: "cutter_feed chunk cs t gaps freq ring c =
      ((fst s)\<lparr>rc_next_pos := cs + int (length chunk)\<rparr>, snd s)"
    using assms False sp by (simp add: cutter_feed_def recording_def s_def Let_def)
  have "writes (chunk_line chunk gaps) (c, []) s"
    unfolding s_def using assms sp by (intro cut_whole_chunk) (auto simp: recording_def)
  then show ?thesis unfolding f by (simp add: Let_def)
qed

section \<open>Placing the start\<close>

text \<open>
  The stretch of a line from index \<open>i\<close>; a start before the line is filled with
  zeros. What is left of the past of the stream once the ring has overwritten
  the samples before \<open>oldest\<close>.
\<close>

definition from_index :: "int \<Rightarrow> iq \<Rightarrow> iq" where
  "from_index i line = zeros (- i) @ drop (nat i) line"

definition past_line :: "int \<Rightarrow> iq \<Rightarrow> iq" where
  "past_line oldest prior = zeros (min oldest (int (length prior))) @ drop (nat oldest) prior"

lemma length_past_line [simp]: "0 \<le> oldest \<Longrightarrow> length (past_line oldest prior) = length prior"
  by (simp add: past_line_def min_def nat_int_comparison(2))

definition start_target :: "run_spec \<Rightarrow> rat \<Rightarrow> int" where
  "start_target spec capture_time =
     py_round ((of_int (rs_start_ms spec) / 1000 - capture_time) * rs_rate_hz spec)"

lemma from_index_past:
  assumes "p0 < int (length prior)" "0 \<le> oldest"
  defines "b \<equiv> max p0 (min oldest (int (length prior)))"
  shows "from_index p0 (past_line oldest prior @ r) =
    zeros (b - p0) @ slice b (int (length prior)) prior @ r"
proof -
  let ?n = "int (length prior)" and ?o = "min oldest (int (length prior))"
  have dr: "drop (nat oldest) prior = drop (nat ?o) prior" using assms(2) by (auto simp: min_def)
  have sl: "slice i ?n prior = drop (nat i) prior" if "0 \<le> i" for i
    using that by (simp add: slice_def)
  consider "p0 < 0" | "0 \<le> p0" "p0 \<le> ?o" | "?o < p0" by linarith
  then show ?thesis
  proof cases
    case 1
    then have "b = ?o" using assms by (auto simp: b_def)
    then have "zeros (b - p0) = zeros (- p0) @ zeros ?o"
      using zeros_add [of "- p0" ?o] 1 assms(2) by simp
    then show ?thesis using 1 assms(2) sl [of ?o] \<open>b = ?o\<close>
      by (simp add: from_index_def past_line_def dr)
  next
    case 2
    then have b: "b = ?o" by (simp add: b_def)
    have "drop (nat p0) (zeros ?o @ drop (nat ?o) prior @ r) = zeros (?o - p0) @ drop (nat ?o) prior @ r"
    proof -
      define a q where "a = nat ?o" and "q = nat p0"
      have aq: "q \<le> a" "int a = ?o" "int q = p0"
        using 2 assms by (auto simp: a_def q_def)
      have "drop q (zeros (int a) @ drop a prior @ r) = zeros (int a - int q) @ drop a prior @ r"
        using aq(1) by simp
      then show ?thesis by (simp only: aq(2,3) a_def [symmetric] q_def [symmetric])
    qed
    then show ?thesis
      using 2 assms(2) sl [of ?o] b
      by (simp only: from_index_def past_line_def dr append_assoc) simp
  next
    case 3
    then have b: "b = p0" "0 \<le> p0" using assms by (auto simp: b_def)
    have "drop (nat p0) (zeros ?o @ drop (nat ?o) prior @ r) = drop (nat p0) prior @ r"
    proof -
      define a q where "a = nat ?o" and "q = nat p0"
      have aq: "a \<le> q" "q \<le> length prior" "int a = ?o" "int q = p0"
        using 3 assms b by (auto simp: a_def q_def)
      have "drop q (zeros (int a) @ drop a prior @ r) = drop q prior @ r"
        using aq(1,2) by simp
      then show ?thesis by (simp only: aq(3) a_def [symmetric] q_def [symmetric])
    qed
    then show ?thesis
      using 3 b sl [of p0] by (simp only: from_index_def past_line_def dr append_assoc) simp
  qed
qed

lemma from_index_past_end:
  assumes "0 \<le> j" "0 \<le> oldest"
  shows "from_index (int (length prior) + j) (past_line oldest prior @ r) = drop (nat j) r"
proof -
  have "nat (int (length prior) + j) = length (past_line oldest prior) + nat j"
    using assms by (simp add: nat_add_distrib)
  then show ?thesis using assms by (simp add: from_index_def)
qed

text \<open>
  The cutter over any provider of the ring's interface: the reader's ring holds
  everything up to and including the chunk.
\<close>

locale iq_ring = ring_provider view holds put
  for view :: "'r \<Rightarrow> int ring_reader" and holds :: "'r \<Rightarrow> int list \<Rightarrow> bool"
    and put :: "'r \<Rightarrow> int list \<Rightarrow> 'r"
begin

lemma read_back:
  assumes "holds r (prior @ chunk)" "fst (rr_bounds (view r)) \<le> b" "b < int (length prior)"
  shows "rr_read_range (view r) b (int (length prior)) = Some (slice b (int (length prior)) prior)"
proof -
  have "0 \<le> fst (rr_bounds (view r))" using oldest_range [OF assms(1)] by simp
  then have "slice b (int (length prior)) (prior @ chunk) = slice b (int (length prior)) prior"
    using assms by (simp add: slice_def)
  then show ?thesis using read_range_held [OF assms(1,2,3)] by simp
qed

lemma begin_writes:
  fixes c :: cutter and freq :: rat
  assumes fresh: "\<not> rc_started c" "\<not> rc_done c" "rc_written c = 0"
    and n: "0 < rs_n_samples (rc_spec c)" and ok: "gaps_ok (int (length chunk)) gaps"
    and ring: "case ring of None \<Rightarrow> oldest = int (length prior)
      | Some v \<Rightarrow> oldest = fst (rr_bounds v) \<and> (\<exists>r. v = view r \<and> holds r (prior @ chunk))"
    and due: "start_target (rc_spec c) t < int (length (inner_line chunk gaps))"
    and target: "target = start_target (rc_spec c) t"
    and c0: "c0 = c\<lparr>rc_started := True,
      rc_first_time := Some (t + of_int target / rs_rate_hz (rc_spec c)),
      rc_error_ns := Some (py_round ((of_int target / rs_rate_hz (rc_spec c) -
        (of_int (rs_start_ms (rc_spec c)) / 1000 - t)) * 1000000000))\<rparr>"
  shows "\<exists>st l s. cutter_feed chunk (int (length prior)) t gaps freq ring c =
      ((fst s)\<lparr>rc_next_pos := int (length prior) + int (length chunk)\<rparr>, snd s) \<and>
    writes (from_index (int (length prior) + lost_before gaps + target)
      (past_line oldest prior @ chunk_line chunk gaps))
      (c0\<lparr>rc_stream_start := Some st, rc_late := l\<rparr>, []) s"
proof -
  let ?cs = "int (length prior)" and ?n = "int (length chunk)"
  obtain before inner where sp: "split_gaps gaps = (before, inner)" by (cases "split_gaps gaps")
  note i = split_gaps_ok [OF ok sp]
  have inner_pos: "\<forall>(off, lost)\<in>set inner. 0 \<le> lost" using i(5) by fastforce
  have span: "\<not> ?n + (\<Sum>(_, lost) \<leftarrow> inner. lost) \<le> target"
    using length_time_line [of inner 0 chunk] inner_pos i(6,7) due unfolding target by auto
  have room0: "0 \<le> room (c0\<lparr>rc_stream_start := st, rc_late := l\<rparr>)"
      "0 \<le> room (c0\<lparr>rc_stream_start := st\<rparr>)" for st l
    using fresh n by (simp_all add: room_def c0)
  have o0: "0 \<le> oldest" using ring oldest_range by (auto split: option.splits)
  have feed: "cutter_feed chunk ?cs t gaps freq ring c = cutter_begin chunk ?cs t gaps ring c"
    using fresh by (simp add: cutter_feed_def)
  note bdef = cutter_begin_def [of chunk ?cs t gaps ring c, folded start_target_def target, unfolded sp prod.case]
  consider "0 \<le> target" | "target < 0" "0 \<le> target + before" | "target + before < 0" by linarith
  then show ?thesis
  proof cases
    case 1
    obtain off head where pl: "place target inner ?n = (off, head)" by (cases "place target inner ?n")
    have inner0: "\<forall>(off, lost)\<in>set inner. 0 \<le> off \<and> off \<le> ?n \<and> 0 \<le> lost"
      using i(5) by fastforce
    have "drop (nat target) (time_line 0 chunk inner) =
        zeros head @ time_line off (drop (nat off) chunk) (filter (\<lambda>(o', _). off < o') inner) \<and>
        0 \<le> off \<and> off \<le> ?n \<and> 0 \<le> head"
      using place_loop_time_line [of target ?n 0 inner off head 0 chunk] pl i(3,4,6) inner0 1 due
      by (simp add: place_def target)
    then have dr: "drop (nat target) (inner_line chunk gaps) =
        zeros head @ time_line off (drop (nat off) chunk) (filter (\<lambda>(o', _). off < o') inner)"
      and off: "0 \<le> off" "off \<le> ?n" "0 \<le> head" by (simp_all add: i(6))
    let ?c = "c0\<lparr>rc_stream_start := Some (?cs + off), rc_late := rc_late c0\<rparr>"
    let ?s = "cut_chunk chunk ?cs off inner (cut_zeros head (?cs + off) True (?c, []))"
    have w1: "writes (zeros head) (?c, []) (cut_zeros head (?cs + off) True (?c, []))"
      using room0 off(3) by (intro cut_zeros_writes) auto
    have w2: "writes (drop (nat target) (inner_line chunk gaps)) (?c, []) ?s"
      unfolding dr using room0
      by (intro writes_trans [OF w1] cut_chunk_writes writes_room_nonneg [OF w1] off i(3,5)) auto
    have "from_index (?cs + lost_before gaps + target) (past_line oldest prior @ chunk_line chunk gaps)
        = drop (nat target) (inner_line chunk gaps)"
    proof -
      have "nat (before + target) = nat before + nat target" using 1 i(2) by (simp add: nat_add_distrib)
      then show ?thesis
        using from_index_past_end [of "before + target" oldest prior "chunk_line chunk gaps"] 1 i(2) o0
        by (simp add: chunk_line_def i(1) [symmetric] add.assoc)
    qed
    moreover have "cutter_begin chunk ?cs t gaps ring c =
        ((fst ?s)\<lparr>rc_next_pos := ?cs + ?n\<rparr>, snd ?s)"
      using 1 span pl unfolding bdef Let_def by (simp add: c0 target start_target_def)
    ultimately show ?thesis unfolding feed using w2 by metis
  next
    case 2
    let ?c = "c0\<lparr>rc_stream_start := Some ?cs, rc_late := rc_late c0\<rparr>"
    let ?s = "cut_chunk chunk ?cs 0 inner (cut_zeros (- target) ?cs True (?c, []))"
    have w1: "writes (zeros (- target)) (?c, []) (cut_zeros (- target) ?cs True (?c, []))"
      using room0 2 by (intro cut_zeros_writes) auto
    have "writes (time_line 0 chunk inner) (cut_zeros (- target) ?cs True (?c, [])) ?s"
      using cut_chunk_writes [OF writes_room_nonneg [OF w1] order_refl _ i(3,5)] room0
        filter_inner [OF i(5)] by simp
    with w1 have w2: "writes (zeros (- target) @ inner_line chunk gaps) (?c, []) ?s"
      unfolding i(6) [symmetric] using room0 by (intro writes_trans) auto
    have "from_index (?cs + lost_before gaps + target) (past_line oldest prior @ chunk_line chunk gaps)
        = zeros (- target) @ inner_line chunk gaps"
    proof -
      have "drop (nat (before + target)) (zeros before @ inner_line chunk gaps) =
          zeros (- target) @ inner_line chunk gaps"
      proof -
        have "nat (before + target) - nat before = 0" using 2 by simp
        then show ?thesis using 2 by simp
      qed
      then show ?thesis
        using from_index_past_end [of "before + target" oldest prior "chunk_line chunk gaps"] 2 o0
        by (simp add: chunk_line_def i(1) [symmetric] add.assoc add.commute add.left_commute)
    qed
    moreover have "cutter_begin chunk ?cs t gaps ring c =
        ((fst ?s)\<lparr>rc_next_pos := ?cs + ?n\<rparr>, snd ?s)"
      using 2 span unfolding bdef Let_def by (simp add: c0 target start_target_def add.commute)
    ultimately show ?thesis unfolding feed using w2 by metis
  next
    case 3
    define p0 where "p0 = ?cs + target + before"
    define b where "b = max p0 (min oldest ?cs)"
    have p0: "p0 < ?cs" using 3 by (simp add: p0_def)
    define data where "data = (case ring of None \<Rightarrow> None
      | Some v \<Rightarrow> if b < ?cs then rr_read_range v b ?cs else None)"
    have data: "data = (if b < ?cs then Some (slice b ?cs prior) else None)"
      using ring p0 read_back
      by (auto simp: data_def b_def split: option.splits)
    define b' where "b' = (if data = None then ?cs else b)"
    have b': "b' = b" using p0 data by (auto simp: b'_def b_def split: if_splits)
    let ?d = "slice b ?cs prior" and ?late = "b - p0"
    let ?l = "if ?late \<noteq> 0 then min ?late (rs_n_samples (rc_spec c0)) else rc_late c0"
    let ?c = "c0\<lparr>rc_stream_start := Some b, rc_late := ?l\<rparr>"
    define c1 where "c1 = c0\<lparr>rc_stream_start := Some b\<rparr>"
    define sa where "sa = (if ?late \<noteq> 0
      then cut_zeros ?late b True (c1\<lparr>rc_late := min ?late (rs_n_samples (rc_spec c1))\<rparr>, [])
      else (c1, []))"
    have sa: "sa = (if ?late \<noteq> 0 then cut_zeros ?late b True (?c, []) else (?c, []))"
      by (simp add: sa_def c1_def)
    let ?sb = "case data of None \<Rightarrow> sa | Some d \<Rightarrow> cut_iq d sa"
    let ?s = "cut_chunk chunk ?cs 0 inner (cut_zeros before ?cs True ?sb)"
    have late: "0 \<le> ?late" by (simp add: b_def)
    have w0: "writes (zeros ?late) (?c, []) sa"
    proof (cases "?late = 0")
      case True
      moreover have "writes [] (?c, []) (?c, [])"
        using fresh n by (intro writes_nil) (simp_all add: room_def c0)
      ultimately show ?thesis by (simp add: sa)
    next
      case False
      then show ?thesis using room0 late by (simp add: sa cut_zeros_writes)
    qed
    have pos: "0 < room (fst (?c, [] :: cut_op list))" using fresh n by (simp add: room_def c0)
    have r: "0 \<le> room (fst (?c, [] :: cut_op list))" unfolding fst_conv by (rule room0(1))
    have r0: "0 \<le> room (fst sa)" using w0 r by (rule writes_room_nonneg)
    have w1: "writes ?d sa ?sb"
    proof (cases "b < ?cs")
      case True
      then have "data = Some ?d" using data by (simp only: if_True)
      then show ?thesis using r0 by (simp only: option.case cut_iq_writes)
    next
      case False
      then have "?d = []" by (simp add: slice_def)
      moreover have "writes [] sa sa"
        using r0 writes_done_room [OF w0 pos] by (rule writes_nil)
      moreover have "data = None" using False data by (simp only: if_False)
      ultimately show ?thesis by (simp only: option.case)
    qed
    have r1: "0 \<le> room (fst ?sb)" using w1 r0 by (rule writes_room_nonneg)
    have w2: "writes (chunk_line chunk gaps) ?sb ?s" using r1 ok sp by (rule cut_whole_chunk)
    have w: "writes (zeros ?late @ ?d @ chunk_line chunk gaps) (?c, []) ?s"
      using writes_trans [OF writes_trans [OF w0 w1 r] w2 r] by (simp only: append_assoc)
    have "from_index (?cs + lost_before gaps + target) (past_line oldest prior @ chunk_line chunk gaps)
        = zeros ?late @ ?d @ chunk_line chunk gaps"
    proof -
      have "?cs + lost_before gaps + target = p0" by (simp add: p0_def i(1))
      then show ?thesis
        using from_index_past [OF p0 o0, of "chunk_line chunk gaps", folded b_def] by (simp only:)
    qed
    moreover have "cutter_begin chunk ?cs t gaps ring c =
        ((fst ?s)\<lparr>rc_next_pos := ?cs + ?n\<rparr>, snd ?s)"
    proof -
      have olds: "(case ring of None \<Rightarrow> ?cs | Some v \<Rightarrow> fst (rr_bounds v)) = oldest"
        using ring by (auto split: option.splits)
      have neg: "\<not> 0 \<le> target" "\<not> 0 \<le> target + before" using 3 i(2) by auto
      show ?thesis
        unfolding cutter_begin_def Let_def sp prod.case start_target_def [symmetric]
          target [symmetric] c0 [symmetric] olds p0_def [symmetric] b_def [symmetric]
          data_def [symmetric] b'_def [symmetric] b' c1_def [symmetric] sa_def [symmetric]
        by (simp only: span neg if_False)
    qed
    ultimately show ?thesis unfolding feed using w by (intro exI conjI) (simp_all only:)
  qed
qed

end

interpretation circular_iq: iq_ring ring_view ring_holds ring_write
  by unfold_locales

section \<open>A whole run\<close>

text \<open>
  The chunks the receiver hands a cutter, each with its capture time, its gaps
  and the ring, at consecutive stream positions; and the time line they make.
\<close>

type_synonym fed = "iq \<times> rat \<times> gap list \<times> int ring_reader option"

fun feed_all :: "rat \<Rightarrow> int \<Rightarrow> fed list \<Rightarrow> cutter \<Rightarrow> cut_state" where
  "feed_all freq pos [] c = (c, [])"
| "feed_all freq pos ((chunk, t, gaps, ring) # rest) c =
     (let (c', ops) = cutter_feed chunk pos t gaps freq ring c;
          (c'', ops') = feed_all freq (pos + int (length chunk)) rest c'
      in (c'', ops @ ops'))"

definition fed_line :: "fed list \<Rightarrow> iq" where
  "fed_line fs = concat (map (\<lambda>(chunk, _, gaps, _). chunk_line chunk gaps) fs)"

definition fed_ok :: "fed list \<Rightarrow> bool" where
  "fed_ok fs \<longleftrightarrow> (\<forall>(chunk, _, gaps, _) \<in> set fs. gaps_ok (int (length chunk)) gaps)"

lemma fed_simps [simp]:
  "fed_line [] = []" "fed_ok []"
  "fed_line ((chunk, t, gaps, ring) # fs) = chunk_line chunk gaps @ fed_line fs"
  "fed_ok ((chunk, t, gaps, ring) # fs) \<longleftrightarrow> gaps_ok (int (length chunk)) gaps \<and> fed_ok fs"
  by (simp_all add: fed_line_def fed_ok_def)

lemma writes_after: "writes d (c, []) (c', ops') \<Longrightarrow> writes d (c, ops) (c', ops @ ops')"
  by (simp add: writes_def)

lemma feed_all_writes:
  assumes "recording c" "rc_done c \<or> rc_next_pos c = pos" "fed_ok fs"
    and "freq = rs_center_freq_hz (rc_spec c)"
  shows "writes (fed_line fs) (c, []) (feed_all freq pos fs c)"
  using assms
proof (induction fs arbitrary: c pos)
  case Nil
  then show ?case by (auto intro!: writes_nil simp: recording_def)
next
  case (Cons f fs)
  obtain chunk t gaps ring where f: "f = (chunk, t, gaps, ring)" by (cases f) auto
  obtain c' ops where feed: "cutter_feed chunk pos t gaps freq ring c = (c', ops)"
    by (cases "cutter_feed chunk pos t gaps freq ring c")
  obtain c'' ops' where rest: "feed_all freq (pos + int (length chunk)) fs c' = (c'', ops')"
    by (cases "feed_all freq (pos + int (length chunk)) fs c'")
  have w: "writes (chunk_line chunk gaps) (c, []) (c', ops)"
    and nx: "rc_done c' \<or> rc_next_pos c' = pos + int (length chunk)"
    using feed_writes [OF Cons.prems(1,2) _ Cons.prems(4), of chunk gaps t ring] Cons.prems(3)
    by (simp_all add: f feed Let_def)
  have rec: "recording c'" using writes_recording [OF w] Cons.prems(1) by simp
  have spec: "rc_spec c' = rc_spec c" using w by (simp add: writes_def)
  have "writes (fed_line fs) (c', []) (c'', ops')"
    using Cons.IH [OF rec nx] Cons.prems(3,4) spec rest by (simp add: f)
  then have "writes (fed_line fs) (c', ops) (c'', ops @ ops')" by (rule writes_after)
  with w have "writes (chunk_line chunk gaps @ fed_line fs) (c, []) (c'', ops @ ops')"
    using Cons.prems(1) by (intro writes_trans) (auto simp: recording_def)
  then show ?case by (simp add: f feed rest)
qed

lemma from_index_append:
  "i \<le> int (length line) \<Longrightarrow> from_index i (line @ rest) = from_index i line @ rest"
  by (simp add: from_index_def)

lemma length_chunk_line:
  assumes "gaps_ok n gaps"
  shows "int (length (chunk_line chunk gaps)) = lost_before gaps + int (length (inner_line chunk gaps))"
proof -
  obtain before inner where "split_gaps gaps = (before, inner)" by (cases "split_gaps gaps")
  from split_gaps_ok(1,2) [OF assms this] show ?thesis by (simp add: chunk_line_def)
qed

lemma begin_run:
  fixes spec :: run_spec
  assumes n: "0 < rs_n_samples spec" and ok: "gaps_ok (int (length chunk)) gaps"
    and h: "ring_holds r (prior @ chunk)"
    and due: "start_target spec t < int (length (inner_line chunk gaps))"
  obtains c ops c0 where
    "cutter_feed chunk (int (length prior)) t gaps freq (Some (ring_view r)) (cutter_new spec) = (c, ops)"
    "writes (from_index (int (length prior) + lost_before gaps + start_target spec t)
      (past_line (fst (ring_bounds r)) prior @ chunk_line chunk gaps)) (c0, []) (c, ops)"
    "rc_spec c0 = spec" "rc_written c0 = 0" "rc_started c0" "\<not> rc_done c0" "rc_reason c0 = None"
    "rc_next_pos c = int (length prior) + int (length chunk)"
    "rc_stream_start c0 \<noteq> None"
    "rc_first_time c0 = Some (t + of_int (start_target spec t) / rs_rate_hz spec)"
    "rc_error_ns c0 = Some (py_round ((of_int (start_target spec t) / rs_rate_hz spec -
      (of_int (rs_start_ms spec) / 1000 - t)) * 1000000000))"
proof -
  have ring: "case Some (ring_view r) of None \<Rightarrow> fst (ring_bounds r) = int (length prior)
      | Some v \<Rightarrow> fst (ring_bounds r) = fst (rr_bounds v) \<and> (\<exists>r. v = ring_view r \<and> ring_holds r (prior @ chunk))"
    using h by (auto simp: ring_view_def)
  have fresh: "\<not> rc_started (cutter_new spec)" "\<not> rc_done (cutter_new spec)"
      "rc_written (cutter_new spec) = 0" "rc_spec (cutter_new spec) = spec"
      "rc_reason (cutter_new spec) = None"
    by (simp_all add: cutter_new_def)
  define c1 where "c1 = (cutter_new spec)\<lparr>rc_started := True,
    rc_first_time := Some (t + of_int (start_target spec t) / rs_rate_hz spec),
    rc_error_ns := Some (py_round ((of_int (start_target spec t) / rs_rate_hz spec -
      (of_int (rs_start_ms spec) / 1000 - t)) * 1000000000))\<rparr>"
  obtain st l s where feed:
    "cutter_feed chunk (int (length prior)) t gaps freq (Some (ring_view r)) (cutter_new spec) =
      ((fst s)\<lparr>rc_next_pos := int (length prior) + int (length chunk)\<rparr>, snd s)"
    and w: "writes (from_index (int (length prior) + lost_before gaps + start_target spec t)
      (past_line (fst (ring_bounds r)) prior @ chunk_line chunk gaps))
      (c1\<lparr>rc_stream_start := Some st, rc_late := l\<rparr>, []) s"
    using circular_iq.begin_writes [OF fresh(1,2,3) _ ok ring, unfolded fresh, OF n due refl c1_def]
    by blast
  show ?thesis
    by (rule that [OF feed, of "c1\<lparr>rc_stream_start := Some st, rc_late := l\<rparr>"])
      (use w in \<open>simp_all add: c1_def fresh\<close>)
qed

end
