(* ===== verification/Run_File.thy ===== *)
theory Run_File
  imports Run_Cutter
begin

text \<open>
  What \<open>schedules/cutter.py\<close> promises of a finished run: which stretch of the
  time line its file holds, where each stream sample went
  (\<open>RunCutter.file_index\<close>), which file samples are zero fill (\<open>gaps\<close>,
  \<open>lost_samples\<close>), and what its status says of it.
\<close>

section \<open>Waiting\<close>

lemma cutter_begin_waits:
  assumes "gaps_ok (int (length chunk)) gaps"
    and "int (length (inner_line chunk gaps)) \<le> start_target (rc_spec c) t"
  shows "cutter_begin chunk pos t gaps ring c = (c, [])"
proof -
  obtain before inner where sp: "split_gaps gaps = (before, inner)" by (cases "split_gaps gaps")
  note i = split_gaps_ok [OF assms(1) sp]
  have "\<forall>(off, lost) \<in> set inner. 0 \<le> lost" using i(5) by fastforce
  then have "int (length chunk) + (\<Sum>(_, lost) \<leftarrow> inner. lost) \<le> start_target (rc_spec c) t"
    using length_time_line [of inner 0 chunk] i(6,7) assms(2) by simp
  then show ?thesis
    unfolding cutter_begin_def Let_def sp prod.case start_target_def [symmetric] by (simp only: if_True)
qed

lemma feed_all_waits:
  assumes "\<not> rc_started c" "\<not> rc_done c"
    and "\<forall>(chunk, t, gaps, ring) \<in> set fs. gaps_ok (int (length chunk)) gaps \<and>
      int (length (inner_line chunk gaps)) \<le> start_target (rc_spec c) t"
  shows "feed_all freq pos fs c = (c, [])"
  using assms(3)
proof (induction fs arbitrary: pos)
  case (Cons f fs)
  then show ?case
    using assms(1,2) by (cases f) (simp add: cutter_feed_def cutter_begin_waits)
qed simp

lemma feed_all_append:
  "feed_all freq pos (fs @ gs) c =
    (let (c', ops) = feed_all freq pos fs c;
         (c'', ops') = feed_all freq (pos + (\<Sum>(chunk, _) \<leftarrow> fs. int (length chunk))) gs c'
     in (c'', ops @ ops'))"
  by (induction fs arbitrary: pos c) (auto simp: Let_def add.assoc split: prod.splits)

section \<open>The file of a run\<close>

lemma feed_run_writes:
  assumes n: "0 < rs_n_samples spec" and ok: "gaps_ok (int (length chunk)) gaps" "fed_ok fs"
    and h: "ring_holds r (prior @ chunk)"
    and due: "start_target spec t < int (length (inner_line chunk gaps))"
  shows "\<exists>c0. writes (from_index (int (length prior) + lost_before gaps + start_target spec t)
      (past_line (ring_oldest_position r) prior @ chunk_line chunk gaps @ fed_line fs)) (c0, [])
      (feed_all (rs_center_freq_hz spec) (int (length prior))
        ((chunk, t, gaps, Some (ring_view r)) # fs) (cutter_new spec)) \<and>
    rc_spec c0 = spec \<and> rc_written c0 = 0 \<and> rc_started c0 \<and> \<not> rc_done c0 \<and> rc_reason c0 = None \<and>
    rc_stream_start c0 \<noteq> None \<and>
    rc_first_time c0 = Some (t + of_int (start_target spec t) / rs_rate_hz spec) \<and>
    rc_error_ns c0 = Some (py_round ((of_int (start_target spec t) / rs_rate_hz spec -
      (of_int (rs_start_ms spec) / 1000 - t)) * 1000000000))"
proof -
  let ?i = "int (length prior) + lost_before gaps + start_target spec t"
  let ?line = "past_line (ring_oldest_position r) prior @ chunk_line chunk gaps"
  have old: "fst (ring_bounds r) = ring_oldest_position r" "0 \<le> ring_oldest_position r"
    by (simp_all add: ring_bounds_def ring_oldest_position_def)
  obtain c ops c0 where feed: "cutter_feed chunk (int (length prior)) t gaps (rs_center_freq_hz spec)
      (Some (ring_view r)) (cutter_new spec) = (c, ops)"
    and w: "writes (from_index ?i ?line) (c0, []) (c, ops)"
    and c0: "rc_spec c0 = spec" "rc_written c0 = 0" "rc_started c0" "\<not> rc_done c0" "rc_reason c0 = None"
    "rc_stream_start c0 \<noteq> None" "rc_first_time c0 = Some (t + of_int (start_target spec t) / rs_rate_hz spec)"
    "rc_error_ns c0 = Some (py_round ((of_int (start_target spec t) / rs_rate_hz spec -
      (of_int (rs_start_ms spec) / 1000 - t)) * 1000000000))"
    and nx: "rc_next_pos c = int (length prior) + int (length chunk)"
    using begin_run [OF n ok(1) h due] unfolding old by metis
  obtain c' ops' where rest:
    "feed_all (rs_center_freq_hz spec) (int (length prior) + int (length chunk)) fs c = (c', ops')"
    by (cases "feed_all (rs_center_freq_hz spec) (int (length prior) + int (length chunk)) fs c")
  have rec: "recording c" using writes_recording [OF w] c0 n by (simp add: recording_def room_def)
  have spec: "rc_spec c = spec" using w c0 by (simp add: writes_def)
  have "writes (fed_line fs) (c, []) (c', ops')"
    using feed_all_writes [OF rec disjI2 [OF nx] ok(2), of "rs_center_freq_hz spec"] spec rest by simp
  then have "writes (fed_line fs) (c, ops) (c', ops @ ops')" by (rule writes_after)
  with w have "writes (from_index ?i ?line @ fed_line fs) (c0, []) (c', ops @ ops')"
    using c0 n by (intro writes_trans) (simp_all add: room_def)
  moreover have "?i \<le> int (length ?line)" using length_chunk_line [OF ok(1)] due old(2) by simp
  ultimately show ?thesis
    using from_index_append [of ?i ?line "fed_line fs"] feed rest c0 by auto
qed


section \<open>Where each stream sample went\<close>

text \<open>A step that continues a file already begun.\<close>

definition after :: "cut_op list \<Rightarrow> cut_state \<Rightarrow> cut_state" where
  "after ops s = (fst s, ops @ snd s)"

lemma after_pair [simp]: "after ops (c, ops') = (c, ops @ ops')" "after [] s = s"
  by (simp_all add: after_def)

lemma after_parts [simp]: "fst (after ops s) = fst s" "snd (after ops s) = ops @ snd s"
  by (simp_all add: after_def)

lemma after_cut_iq: "cut_iq data (after ops s) = after ops (cut_iq data s)"
  by (cases s) (simp add: cut_iq_def Let_def)

lemma after_cut_zeros: "cut_zeros k p sh (after ops s) = after ops (cut_zeros k p sh s)"
  by (cases s) (simp add: cut_zeros_def Let_def)

lemma after_chunk_loop:
  "chunk_loop chunk cs start pos gs (after ops s) = after ops (chunk_loop chunk cs start pos gs s)"
proof (induction gs arbitrary: pos s)
  case (Cons g gs)
  then show ?case by (cases g) (simp add: after_cut_iq after_cut_zeros)
qed (simp add: after_cut_iq)

lemma after_cut_chunk: "cut_chunk chunk cs start gs (after ops s) = after ops (cut_chunk chunk cs start gs s)"
  by (simp add: cut_chunk_def after_chunk_loop)

text \<open>The binary search finds the zeros written before a position.\<close>

definition zeros_before :: "(int \<times> int) list \<Rightarrow> int \<Rightarrow> int" where
  "zeros_before bs p = (let l = filter (\<lambda>b. fst b \<le> p) bs in if l = [] then 0 else snd (last l))"

lemma sorted_prefix_filter:
  "sorted (map fst bs) \<Longrightarrow> filter (\<lambda>b. fst b \<le> p) bs = takeWhile (\<lambda>b. fst b \<le> (p :: int)) bs"
proof (induction bs)
  case (Cons b bs)
  then show ?case
    by (cases "fst b \<le> p"; cases bs) (auto simp: filter_empty_conv dest: order_trans)
qed simp

lemma bisect_breaks_length:
  fixes p :: int
  assumes "sorted (map fst bs)" "lo \<le> length (takeWhile (\<lambda>b. fst b \<le> p) bs)"
    "length (takeWhile (\<lambda>b. fst b \<le> p) bs) \<le> hi" "hi \<le> length bs"
  shows "bisect_breaks bs p lo hi = length (takeWhile (\<lambda>b. fst b \<le> p) bs)"
  using assms
proof (induction bs p lo hi rule: bisect_breaks.induct)
  case (1 bs p lo hi)
  let ?m = "length (takeWhile (\<lambda>b. fst b \<le> p) bs)" and ?mid = "(lo + hi) div 2"
  show ?case
  proof (cases "lo < hi")
    case True
    then have mid: "lo \<le> ?mid" "?mid < hi" "?mid < length bs" using "1.prems" by auto
    show ?thesis
    proof (cases "p < fst (bs ! ?mid)")
      case less: True
      have "?m \<le> ?mid"
      proof (rule ccontr)
        assume "\<not> ?m \<le> ?mid"
        then have "?mid < ?m" by simp
        then have "fst (bs ! ?mid) \<le> p"
          using takeWhile_nth [of ?mid "\<lambda>b. fst b \<le> p" bs]
            set_takeWhileD [OF nth_mem [of ?mid "takeWhile (\<lambda>b. fst b \<le> p) bs"]] by simp
        with less show False by simp
      qed
      then show ?thesis using "1.IH"(1) [OF True refl less] "1.prems" True less mid by simp
    next
      case False
      have "Suc ?mid \<le> ?m"
      proof (rule ccontr)
        assume "\<not> Suc ?mid \<le> ?m"
        then have le: "?m \<le> ?mid" by simp
        then have "?m < length bs" using mid by simp
        then have "\<not> fst (bs ! ?m) \<le> p" using nth_length_takeWhile by blast
        moreover have "map fst bs ! ?m \<le> map fst bs ! ?mid"
          using "1.prems"(1) le mid by (intro sorted_nth_mono) simp_all
        ultimately show False using False \<open>?m < length bs\<close> mid by simp
      qed
      then show ?thesis using "1.IH"(2) [OF True refl False] "1.prems" True False mid by simp
    qed
  next
    case False
    then show ?thesis using "1.prems" by simp
  qed
qed

lemma file_index_zeros_before:
  assumes "sorted (map fst (rc_breaks c))" "rc_stream_start c = Some s"
  shows "file_index c p = Some (p - s + zeros_before (rc_breaks c) p)"
proof -
  let ?bs = "rc_breaks c" and ?l = "takeWhile (\<lambda>b. fst b \<le> p) (rc_breaks c)"
  have i: "bisect_breaks ?bs p 0 (length ?bs) = length ?l"
    using assms(1) by (intro bisect_breaks_length) (simp_all add: length_takeWhile_le)
  have "?bs ! (length ?l - 1) = last ?l" if "?l \<noteq> []"
    using that takeWhile_nth [of "length ?l - 1" "\<lambda>b. fst b \<le> p" ?bs] by (simp add: last_conv_nth)
  then show ?thesis
    using assms(2) sorted_prefix_filter [OF assms(1), of p] i
    by (auto simp: file_index_def zeros_before_def Let_def)
qed

text \<open>
  \<open>placed xs s\<close>: every stream sample between the run's start and its stream end
  stands in the file at its file index. \<open>next_at p s\<close>: the next stream sample to
  write is \<open>p\<close>, unless the file is full.
\<close>

abbreviation stream_next :: "cutter \<Rightarrow> int" where
  "stream_next c \<equiv> the (rc_stream_start c) + rc_written c - rc_zeros_total c"

definition placed :: "iq \<Rightarrow> cut_state \<Rightarrow> bool" where
  "placed xs s \<longleftrightarrow> (let c = fst s; st = the (rc_stream_start c); bs = rc_breaks c in
     int (length (file_of (snd s))) = rc_written c \<and> 0 \<le> st \<and>
     sorted (map fst bs) \<and> (\<forall>b \<in> set bs. st \<le> fst b \<and> fst b \<le> stream_next c) \<and>
     st \<le> stream_next c \<and> stream_next c \<le> int (length xs) \<and>
     rc_zeros_total c = (if bs = [] then 0 else snd (last bs)) \<and>
     (\<forall>p. st \<le> p \<and> p < stream_next c \<longrightarrow>
       (let i = p - st + zeros_before bs p in
        0 \<le> i \<and> i < rc_written c \<and> file_of (snd s) ! nat i = xs ! nat p)))"

definition next_at :: "int \<Rightarrow> cut_state \<Rightarrow> bool" where
  "next_at p s \<longleftrightarrow> 0 < room (fst s) \<longrightarrow> stream_next (fst s) = p"

lemmas placed_parts = placed_def [unfolded Let_def]

lemma zeros_before_all:
  assumes "\<forall>b \<in> set bs. fst b \<le> (p :: int)"
  shows "zeros_before bs p = (if bs = [] then 0 else snd (last bs))"
proof -
  have "filter (\<lambda>b. fst b \<le> p) bs = bs" using assms by (simp add: filter_True)
  then show ?thesis by (simp add: zeros_before_def)
qed

lemma zeros_before_snoc: "p < fst b \<Longrightarrow> zeros_before (bs @ [b]) p = zeros_before bs p"
  by (simp add: zeros_before_def)

lemma placed_cut_iq:
  assumes pl: "placed xs s" and nx: "next_at p s"
    and data: "data = slice p (p + int (length data)) xs" "0 \<le> p"
      "p + int (length data) \<le> int (length xs)"
  shows "placed xs (cut_iq data s) \<and> next_at (p + int (length data)) (cut_iq data s)"
proof -
  obtain c ops where s: "s = (c, ops)" by (cases s)
  define k where "k = min (int (length data)) (room c)"
  show ?thesis
  proof (cases "0 < k")
    case False
    then have "cut_iq data s = (check_done c, ops)"
      unfolding s cut_iq_def Let_def k_def by simp
    moreover have "data = [] \<or> \<not> 0 < room c" using False by (auto simp: k_def min_def split: if_splits)
    ultimately show ?thesis using pl nx by (auto simp: s placed_parts next_at_def room_def)
  next
    case True
    let ?c = "check_done (c\<lparr>rc_written := rc_written c + k\<rparr>)"
    have res: "cut_iq data s = (?c, ops @ [IQ (take (nat k) data)])"
      using True by (simp add: s cut_iq_def Let_def k_def)
    have p: "stream_next c = p" using nx True by (auto simp: next_at_def s k_def)
    have kl: "k \<le> int (length data)" "k \<le> room c" "k = int (length data) \<or> k = room c"
      by (auto simp: k_def)
    have pl': "int (length (file_of ops)) = rc_written c" using pl by (simp add: placed_parts s)
    have "0 \<le> i \<and> i < rc_written c + k \<and> (file_of ops @ take (nat k) data) ! nat i = xs ! nat q"
      if q: "the (rc_stream_start c) \<le> q" "q < p + k"
        and i: "i = q - the (rc_stream_start c) + zeros_before (rc_breaks c) q" for q i
    proof (cases "q < p")
      case True
      then have "0 \<le> i" "i < rc_written c" "file_of ops ! nat i = xs ! nat q"
        using pl q i p by (auto simp: placed_parts s)
      then show ?thesis using \<open>0 < k\<close> pl' by (simp add: nth_append nat_less_iff)
    next
      case False
      have "zeros_before (rc_breaks c) q = rc_zeros_total c"
      proof -
        have "\<forall>b \<in> set (rc_breaks c). fst b \<le> q"
          using pl False p by (fastforce simp: placed_parts s)
        then show ?thesis using pl by (simp add: zeros_before_all placed_parts s)
      qed
      then have i': "i = rc_written c + (q - p)" using i p by simp
      have "take (nat k) data ! nat (q - p) = xs ! nat q"
      proof -
        have "nat (q - p) < nat k" "nat (q - p) < length data" using False q(2) kl by auto
        moreover have "data ! nat (q - p) = xs ! (nat p + nat (q - p))"
        proof -
          have "slice p (p + int (length data)) xs ! nat (q - p) = xs ! (nat p + nat (q - p))"
            using calculation(2) data(2,3) by (simp add: slice_def)
          then show ?thesis using data(1) by simp
        qed
        moreover have "nat p + nat (q - p) = nat q" using False data(2) by simp
        ultimately show ?thesis by simp
      qed
      moreover have "nat i = length (file_of ops) + nat (q - p)" using i' pl' False by simp
      ultimately show ?thesis using i' False q(2) pl' by (simp add: nth_append)
    qed
    then have "placed xs (?c, ops @ [IQ (take (nat k) data)])"
      using pl p kl True data(3) by (fastforce simp: placed_parts s)
    moreover have "next_at (p + int (length data)) (?c, ops @ [IQ (take (nat k) data)])"
      using p kl by (auto simp: next_at_def room_def)
    ultimately show ?thesis by (simp add: res)
  qed
qed

lemma placed_cut_zeros:
  assumes pl: "placed xs s" and nx: "next_at p s"
  shows "placed xs (cut_zeros n p True s) \<and> next_at p (cut_zeros n p True s)"
proof -
  obtain c ops where s: "s = (c, ops)" by (cases s)
  define k where "k = min n (room c)"
  show ?thesis
  proof (cases "0 < k")
    case False
    then have "cut_zeros n p True s = (check_done c, ops)"
      unfolding s cut_zeros_def Let_def k_def by simp
    then show ?thesis using pl nx by (auto simp: s placed_parts next_at_def room_def)
  next
    case True
    let ?c = "check_done (c\<lparr>rc_zeros_total := rc_zeros_total c + k,
      rc_breaks := rc_breaks c @ [(p, rc_zeros_total c + k)],
      rc_gaps := extend_gaps (rc_gaps c) (rc_written c) k,
      rc_lost := rc_lost c + k, rc_written := rc_written c + k\<rparr>)"
    have res: "cut_zeros n p True s = (?c, ops @ [Zeros k])"
      using True by (simp add: s cut_zeros_def Let_def k_def)
    have p: "stream_next c = p" using nx True by (auto simp: next_at_def s k_def)
    have "sorted (map fst (rc_breaks c) @ [p])"
      using pl p by (auto simp: placed_parts s sorted_append)
    moreover have "0 \<le> i \<and> i < rc_written c + k \<and> (file_of ops @ zeros k) ! nat i = xs ! nat q"
      if "the (rc_stream_start c) \<le> q" "q < p"
        "i = q - the (rc_stream_start c) + zeros_before (rc_breaks c @ [(p, rc_zeros_total c + k)]) q" for q i
    proof -
      have "0 \<le> i" "i < rc_written c" "file_of ops ! nat i = xs ! nat q"
        using pl that p zeros_before_snoc [of q "(p, rc_zeros_total c + k)" "rc_breaks c"]
        by (auto simp: placed_parts s)
      then show ?thesis using pl True by (simp add: nth_append nat_less_iff placed_parts s)
    qed
    ultimately have "placed xs (?c, ops @ [Zeros k])"
      using pl p True by (fastforce simp: placed_parts s)
    moreover have "next_at p (?c, ops @ [Zeros k])"
      using p by (auto simp: next_at_def)
    ultimately show ?thesis by (simp add: res)
  qed
qed

lemma slice_of_slice:
  fixes xs :: "'a list"
  assumes "slice cs (cs + int (length chunk)) xs = chunk" "0 \<le> cs" "0 \<le> pos" "pos \<le> off"
    "off \<le> int (length chunk)"
  shows "slice pos off chunk = slice (cs + pos) (cs + off) xs"
proof -
  have "slice pos off (slice cs (cs + int (length chunk)) xs) = slice (cs + pos) (cs + off) xs"
    using assms(2-5) by (simp add: slice_def drop_take nat_add_distrib add.commute)
  then show ?thesis using assms(1) by simp
qed

lemma placed_chunk_loop:
  assumes "placed xs s" "next_at (cs + pos) s" "slice cs (cs + int (length chunk)) xs = chunk"
    and "0 \<le> cs" "cs + int (length chunk) \<le> int (length xs)"
    and "0 \<le> pos" "pos \<le> int (length chunk)" "increasing gs"
    and "\<forall>(off, lost) \<in> set gs. off \<le> int (length chunk) \<and> (start < off \<longrightarrow> pos \<le> off)"
  shows "placed xs (chunk_loop chunk cs start pos gs s) \<and>
    next_at (cs + int (length chunk)) (chunk_loop chunk cs start pos gs s)"
  using assms
proof (induction gs arbitrary: pos s)
  case Nil
  have "drop (nat pos) chunk = slice (cs + pos) (cs + pos + int (length (drop (nat pos) chunk))) xs"
    using Nil slice_of_slice [OF Nil.prems(3,4,6), of "int (length chunk)"]
    by (simp add: of_nat_diff slice_def)
  then show ?case
    using placed_cut_iq [OF Nil.prems(1,2), of "drop (nat pos) chunk"] Nil.prems(4-7)
    by (simp add: of_nat_diff)
next
  case (Cons g gs)
  obtain off lost where g: "g = (off, lost)" by (cases g)
  show ?case
  proof (cases "off \<le> start")
    case True
    with Cons show ?thesis by (simp add: g)
  next
    case False
    let ?d = "slice pos off chunk"
    have off: "pos \<le> off" "off \<le> int (length chunk)" using Cons.prems False by (auto simp: g)
    have len: "int (length ?d) = off - pos" using off Cons.prems(6) by (simp add: slice_def)
    have "?d = slice (cs + pos) (cs + pos + int (length ?d)) xs"
      using slice_of_slice [OF Cons.prems(3,4,6) off(1)] len off by simp
    then have 1: "placed xs (cut_iq ?d s) \<and> next_at (cs + off) (cut_iq ?d s)"
      using placed_cut_iq [OF Cons.prems(1,2), of ?d] Cons.prems(4-7) off len by simp
    then have 2: "placed xs (cut_zeros lost (cs + off) True (cut_iq ?d s)) \<and>
        next_at (cs + off) (cut_zeros lost (cs + off) True (cut_iq ?d s))"
      by (intro placed_cut_zeros) auto
    have "placed xs (chunk_loop chunk cs start off gs (cut_zeros lost (cs + off) True (cut_iq ?d s))) \<and>
      next_at (cs + int (length chunk)) (chunk_loop chunk cs start off gs
        (cut_zeros lost (cs + off) True (cut_iq ?d s)))"
      using 2 Cons.prems False off by (intro Cons.IH) (auto simp: g)
    then show ?thesis using False by (simp add: g)
  qed
qed

text \<open>Feeding keeps every stream sample at its file index.\<close>

lemma placed_next_pos [simp]:
  "placed xs (c\<lparr>rc_next_pos := q\<rparr>, ops) = placed xs (c, ops)"
  "next_at p (c\<lparr>rc_next_pos := q\<rparr>, ops) = next_at p (c, ops)"
  by (simp_all add: placed_parts next_at_def room_def)

lemma placed_whole_chunk:
  assumes "placed xs s" "next_at cs s" "gaps_ok (int (length chunk)) gaps"
    and "split_gaps gaps = (before, inner)" "slice cs (cs + int (length chunk)) xs = chunk"
    and "0 \<le> cs" "cs + int (length chunk) \<le> int (length xs)"
  shows "placed xs (cut_chunk chunk cs 0 inner (cut_zeros before cs True s)) \<and>
    next_at (cs + int (length chunk)) (cut_chunk chunk cs 0 inner (cut_zeros before cs True s))"
proof -
  note i = split_gaps_ok [OF assms(3,4)]
  have "\<forall>(off, lost) \<in> set inner. off \<le> int (length chunk) \<and> (0 < off \<longrightarrow> 0 \<le> off)"
    using i(5) by auto
  then show ?thesis
    unfolding cut_chunk_def using placed_cut_zeros [OF assms(1,2), of before] assms(5-7) i(3)
    by (intro placed_chunk_loop) auto
qed

lemma placed_start:
  assumes "rc_written c = 0" "rc_breaks c = []" "rc_zeros_total c = 0" "rc_stream_start c = Some b"
    and "0 \<le> b" "b \<le> int (length xs)"
  shows "placed xs (c, []) \<and> next_at b (c, [])"
  using assms by (simp add: placed_parts next_at_def)

lemma place_loop_range:
  assumes "place_loop target n lb gs = (off, head)" "lb \<le> target" "0 \<le> n"
    and "\<forall>(off, lost) \<in> set gs. 0 < off \<and> off \<le> n \<and> 0 \<le> lost"
  shows "0 \<le> off \<and> off \<le> n"
  using assms by (induction target n lb gs rule: place_loop.induct) (auto split: if_splits)

lemma placed_begin:
  assumes fresh: "\<not> rc_started c" "\<not> rc_done c" "rc_written c = 0" "rc_breaks c = []" "rc_zeros_total c = 0"
    and h: "ring_holds r (prior @ chunk)" and ok: "gaps_ok (int (length chunk)) gaps"
    and due: "start_target (rc_spec c) t < int (length (inner_line chunk gaps))"
    and xs: "xs = prior @ chunk @ later"
    and s: "s = cutter_feed chunk (int (length prior)) t gaps freq (Some (ring_view r)) c"
  shows "placed xs s \<and> next_at (int (length prior) + int (length chunk)) s"
proof -
  define target where "target = start_target (rc_spec c) t"
  define c0 where "c0 = c\<lparr>rc_started := True,
      rc_first_time := Some (t + of_int target / rs_rate_hz (rc_spec c)),
      rc_error_ns := Some (py_round ((of_int target / rs_rate_hz (rc_spec c) -
        (of_int (rs_start_ms (rc_spec c)) / 1000 - t)) * 1000000000))\<rparr>"
  let ?cs = "int (length prior)" and ?n = "int (length chunk)"
  obtain before inner where sp: "split_gaps gaps = (before, inner)" by (cases "split_gaps gaps")
  note i = split_gaps_ok [OF ok sp]
  have inner_pos: "\<forall>(off, lost)\<in>set inner. 0 \<le> lost" using i(5) by fastforce
  have span: "\<not> ?n + (\<Sum>(_, lost) \<leftarrow> inner. lost) \<le> target"
    using length_time_line [of inner 0 chunk] inner_pos i(6,7) due unfolding target_def by auto
  have chunk: "slice ?cs (?cs + ?n) xs = chunk" "?cs + ?n \<le> int (length xs)"
    by (simp_all add: xs slice_def)
  have start: "placed xs (c0\<lparr>rc_stream_start := Some b\<rparr>, []) \<and> next_at b (c0\<lparr>rc_stream_start := Some b\<rparr>, [])"
    "placed xs (c0\<lparr>rc_stream_start := Some b, rc_late := l\<rparr>, []) \<and>
      next_at b (c0\<lparr>rc_stream_start := Some b, rc_late := l\<rparr>, [])"
    if "0 \<le> b" "b \<le> ?cs + ?n" for b l
    using that fresh chunk(2) by (intro placed_start; simp add: c0_def)+
  have feed: "s = cutter_begin chunk ?cs t gaps (Some (ring_view r)) c"
    using fresh by (simp add: s cutter_feed_def)
  show ?thesis
  proof (cases "0 \<le> target")
    case True
    obtain off head where pl: "place target inner ?n = (off, head)" by (cases "place target inner ?n")
    have off: "0 \<le> off" "off \<le> ?n"
      using place_loop_range [OF pl [unfolded place_def i(4)] True _ i(5)] by simp_all
    let ?s = "cut_chunk chunk ?cs off inner
      (cut_zeros head (?cs + off) True (c0\<lparr>rc_stream_start := Some (?cs + off)\<rparr>, []))"
    have "placed xs ?s \<and> next_at (?cs + ?n) ?s"
      unfolding cut_chunk_def using placed_cut_zeros [of xs _ "?cs + off" head] start(1) [of "?cs + off"]
        off i(3,5) chunk by (intro placed_chunk_loop) auto
    moreover have "s = ((fst ?s)\<lparr>rc_next_pos := ?cs + ?n\<rparr>, snd ?s)"
      unfolding feed cutter_begin_def Let_def sp prod.case start_target_def [symmetric]
          target_def [symmetric] c0_def [symmetric] pl
      by (simp only: span True if_False if_True)
    ultimately show ?thesis by simp
  next
    case neg: False
    show ?thesis
    proof (cases "0 \<le> target + before")
      case True
      let ?s = "cut_chunk chunk ?cs 0 inner (cut_zeros (- target) ?cs True (c0\<lparr>rc_stream_start := Some ?cs\<rparr>, []))"
      have "placed xs ?s \<and> next_at (?cs + ?n) ?s"
        unfolding cut_chunk_def using placed_cut_zeros [of xs _ ?cs "- target"] start(1) [of ?cs]
          i(3,5) chunk by (intro placed_chunk_loop) auto
      moreover have "s = ((fst ?s)\<lparr>rc_next_pos := ?cs + ?n\<rparr>, snd ?s)"
        unfolding feed cutter_begin_def Let_def sp prod.case start_target_def [symmetric]
            target_def [symmetric] c0_def [symmetric]
        by (simp only: span True neg if_False if_True)
      ultimately show ?thesis by simp
    next
      case False
      define p0 where "p0 = ?cs + target + before"
      define b where "b = max p0 (min (fst (rr_bounds (ring_view r))) ?cs)"
      have p0: "p0 < ?cs" using False by (simp add: p0_def)
      define data where "data = (if b < ?cs then rr_read_range (ring_view r) b ?cs else None)"
      have data: "data = (if b < ?cs then Some (slice b ?cs prior) else None)"
        using circular_iq.read_back [OF h] p0 by (auto simp: data_def b_def)
      define b' where "b' = (if data = None then ?cs else b)"
      have b': "b' = b" using p0 data by (auto simp: b'_def b_def split: if_splits)
      have b: "0 \<le> b" "b \<le> ?cs"
        using circular.oldest_range [OF h] p0 by (auto simp: b_def)
      define c1 where "c1 = c0\<lparr>rc_stream_start := Some b\<rparr>"
      define sa where "sa = (if b - p0 \<noteq> 0
        then cut_zeros (b - p0) b True (c1\<lparr>rc_late := min (b - p0) (rs_n_samples (rc_spec c1))\<rparr>, [])
        else (c1, []))"
      define sb where "sb = (case data of None \<Rightarrow> sa | Some d \<Rightarrow> cut_iq d sa)"
      have sa: "placed xs sa \<and> next_at b sa"
      proof -
        have st: "placed xs (c1, []) \<and> next_at b (c1, [])"
          "placed xs (c1\<lparr>rc_late := l\<rparr>, []) \<and> next_at b (c1\<lparr>rc_late := l\<rparr>, [])" for l
          using start [of b] b by (simp_all add: c1_def)
        show ?thesis unfolding sa_def using st(1) placed_cut_zeros [OF st(2) [THEN conjunct1] st(2) [THEN conjunct2]]
          by (simp only: if_split simp_thms)
      qed
      have sb: "placed xs sb \<and> next_at ?cs sb"
      proof (cases "b < ?cs")
        case True
        have "slice b ?cs prior = slice b ?cs xs" using b by (simp add: slice_def xs)
        moreover have "int (length (slice b ?cs prior)) = ?cs - b" using b by (simp add: slice_def)
        ultimately show ?thesis
          using placed_cut_iq [of xs sa b "slice b ?cs prior"] sa b True data chunk(2)
          by (simp add: sb_def)
      next
        case False
        then show ?thesis using sa b data by (simp add: sb_def)
      qed
      let ?s = "cut_chunk chunk ?cs 0 inner (cut_zeros before ?cs True sb)"
      have "placed xs ?s \<and> next_at (?cs + ?n) ?s"
        using placed_whole_chunk [of xs sb ?cs chunk gaps] sb ok sp chunk by simp
      moreover have "s = ((fst ?s)\<lparr>rc_next_pos := ?cs + ?n\<rparr>, snd ?s)"
        unfolding feed cutter_begin_def Let_def sp prod.case start_target_def [symmetric]
            target_def [symmetric] c0_def [symmetric] option.case p0_def [symmetric] b_def [symmetric]
            data_def [symmetric] b'_def [symmetric] b' c1_def [symmetric] sa_def [symmetric]
            sb_def [symmetric]
        by (simp only: span neg False if_False)
      ultimately show ?thesis by simp
    qed
  qed
qed

lemma placed_feed:
  assumes "placed xs (c, ops)" "next_at cs (c, ops)" "rc_started c" "rc_done c \<or> rc_next_pos c = cs"
    and "gaps_ok (int (length chunk)) gaps" "slice cs (cs + int (length chunk)) xs = chunk"
    and "0 \<le> cs" "cs + int (length chunk) \<le> int (length xs)" "rc_done c \<longrightarrow> room c \<le> 0"
    and "freq = rs_center_freq_hz (rc_spec c)"
    and "cutter_feed chunk cs t gaps freq ring c = (c', ops')"
  shows "placed xs (c', ops @ ops') \<and> next_at (cs + int (length chunk)) (c', ops @ ops')"
proof (cases "rc_done c")
  case True
  with assms show ?thesis by (auto simp: cutter_feed_def next_at_def)
next
  case False
  obtain before inner where sp: "split_gaps gaps = (before, inner)" by (cases "split_gaps gaps")
  define s where "s = cut_chunk chunk cs 0 inner (cut_zeros before cs True (c, []))"
  have "after ops s = cut_chunk chunk cs 0 inner (cut_zeros before cs True (c, ops))"
    by (simp add: s_def after_cut_zeros [symmetric] after_cut_chunk [symmetric])
  then have "placed xs (after ops s) \<and> next_at (cs + int (length chunk)) (after ops s)"
    using placed_whole_chunk [OF assms(1,2,5) sp assms(6-8)] by simp
  moreover have "c' = (fst s)\<lparr>rc_next_pos := cs + int (length chunk)\<rparr>" "ops' = snd s"
    using assms False sp by (auto simp: cutter_feed_def s_def Let_def)
  ultimately show ?thesis by (simp add: after_def)
qed

lemma placed_feed_all:
  assumes "placed xs (c, ops)" "next_at pos (c, ops)" "recording c" "rc_done c \<or> rc_next_pos c = pos"
    and "fed_ok fs" "drop (nat pos) xs = concat (map fst fs)" "0 \<le> pos" "pos \<le> int (length xs)"
    and "freq = rs_center_freq_hz (rc_spec c)" "feed_all freq pos fs c = (c', ops')"
  shows "placed xs (c', ops @ ops')"
  using assms
proof (induction fs arbitrary: c ops pos ops')
  case (Cons f fs)
  obtain chunk t gaps ring where f: "f = (chunk, t, gaps, ring)" by (cases f) auto
  obtain c1 ops1 where feed: "cutter_feed chunk pos t gaps freq ring c = (c1, ops1)"
    by (cases "cutter_feed chunk pos t gaps freq ring c")
  obtain ops2 where rest: "feed_all freq (pos + int (length chunk)) fs c1 = (c', ops2)" "ops' = ops1 @ ops2"
    using Cons.prems(10) by (auto simp: f feed split: prod.splits)
  have dr: "drop (nat pos) xs = chunk @ concat (map fst fs)" using Cons.prems(6) by (simp add: f)
  then have len: "length xs - nat pos = length chunk + length (concat (map fst fs))"
    by (metis length_append length_drop)
  have sl: "slice pos (pos + int (length chunk)) xs = chunk"
    using dr Cons.prems(7) by (simp add: slice_def)
  have le: "pos + int (length chunk) \<le> int (length xs)" using len Cons.prems(7,8) by linarith
  have ok: "gaps_ok (int (length chunk)) gaps" "fed_ok fs" using Cons.prems(5) by (simp_all add: f)
  have started: "rc_started c" "rc_done c \<longrightarrow> room c \<le> 0"
    using Cons.prems(3) by (simp_all add: recording_def)
  have w: "writes (chunk_line chunk gaps) (c, []) (c1, ops1)"
    and nx: "rc_done c1 \<or> rc_next_pos c1 = pos + int (length chunk)"
    using feed_writes [OF Cons.prems(3,4) ok(1) Cons.prems(9), of t ring] by (simp_all add: feed Let_def)
  have "placed xs (c1, ops @ ops1) \<and> next_at (pos + int (length chunk)) (c1, ops @ ops1)"
    using placed_feed [OF Cons.prems(1,2) started(1) Cons.prems(4) ok(1) sl Cons.prems(7) le started(2)
        Cons.prems(9) feed] .
  moreover have "recording c1" using writes_recording [OF w] Cons.prems(3) by simp
  moreover have "rc_spec c1 = rc_spec c" using w by (simp add: writes_def)
  moreover have "drop (nat (pos + int (length chunk))) xs = concat (map fst fs)"
  proof -
    have "drop (length chunk) (drop (nat pos) xs) = concat (map fst fs)" using dr by simp
    then show ?thesis using Cons.prems(7) by (simp add: nat_add_distrib add.commute)
  qed
  ultimately have "placed xs (c', (ops @ ops1) @ ops2)"
    using ok(2) nx le Cons.prems(7,9) rest(1) by (intro Cons.IH) auto
  then show ?case using rest(2) by simp
qed simp

text \<open>
  \<open>file_index\<close> is exact. Every stream sample from the run's stream start up
  to its stream end stands in the file at the index \<open>file_index\<close> gives, whatever
  was lost in between, so detections located in the stream point at their own
  samples in the file.
\<close>

theorem file_index_exact:
  assumes "0 < rs_n_samples spec" "gaps_ok (int (length chunk)) gaps" "fed_ok fs"
    and "ring_holds r (prior @ chunk)"
    and "start_target spec t < int (length (inner_line chunk gaps))"
    and "(c, ops) = feed_all (rs_center_freq_hz spec) (int (length prior))
      ((chunk, t, gaps, Some (ring_view r)) # fs) (cutter_new spec)"
    and "rc_stream_start c = Some st" "stream_end c = Some e" "st \<le> p" "p < e"
  shows "\<exists>i. file_index c p = Some i \<and> 0 \<le> i \<and> i < int (length (file_of ops)) \<and>
    file_of ops ! nat i = (prior @ chunk @ concat (map fst fs)) ! nat p"
proof -
  let ?xs = "prior @ chunk @ concat (map fst fs)" and ?freq = "rs_center_freq_hz spec"
  obtain c1 ops1 c0 where feed: "cutter_feed chunk (int (length prior)) t gaps ?freq
      (Some (ring_view r)) (cutter_new spec) = (c1, ops1)"
    and c0: "writes (from_index (int (length prior) + lost_before gaps + start_target spec t)
      (past_line (fst (ring_bounds r)) prior @ chunk_line chunk gaps)) (c0, []) (c1, ops1)"
    "rc_spec c0 = spec" "rc_written c0 = 0" "rc_started c0" "\<not> rc_done c0" "rc_reason c0 = None"
    and nx: "rc_next_pos c1 = int (length prior) + int (length chunk)"
    using begin_run [OF assms(1,2,4,5)] by metis
  obtain ops2 where rest: "feed_all ?freq (int (length prior) + int (length chunk)) fs c1 = (c, ops2)"
    "ops = ops1 @ ops2"
    using assms(6) by (auto simp: feed split: prod.splits)
  have pl: "placed ?xs (c1, ops1) \<and> next_at (int (length prior) + int (length chunk)) (c1, ops1)"
    using placed_begin [OF _ _ _ _ _ assms(4,2) _ refl feed [symmetric]] assms(5)
    by (simp add: cutter_new_def)
  have "recording c1" using writes_recording [OF c0(1)] c0 assms(1) by (simp add: recording_def room_def)
  moreover have "rc_spec c1 = spec" using c0 by (simp add: writes_def)
  moreover have "drop (nat (int (length prior) + int (length chunk))) ?xs = concat (map fst fs)"
    by (simp add: nat_add_distrib)
  ultimately have "placed ?xs (c, ops1 @ ops2)"
    using pl assms(3) nx rest(1) by (intro placed_feed_all) auto
  then have pl: "placed ?xs (c, ops)" using rest(2) by simp
  have "file_index c p = Some (p - st + zeros_before (rc_breaks c) p)"
    using assms(7) pl by (intro file_index_zeros_before) (simp_all add: placed_parts)
  moreover have "e = st + rc_written c - rc_zeros_total c" using assms(7,8) by (simp add: stream_end_def)
  moreover have "int (length (file_of ops)) = rc_written c" using pl by (simp add: placed_parts)
  ultimately show ?thesis
    using pl [unfolded placed_parts fst_conv snd_conv assms(7) option.sel] assms(9,10) by simp
qed

section \<open>What is zero fill\<close>

text \<open>Which file samples were written as zeros, and what the cutter's gap list says of them.\<close>

definition zero_fill :: "cut_op list \<Rightarrow> bool list" where
  "zero_fill ops = concat (map (\<lambda>p. case p of IQ d \<Rightarrow> replicate (length d) False
     | Zeros k \<Rightarrow> replicate (nat k) True) ops)"

definition in_gaps :: "gap list \<Rightarrow> int \<Rightarrow> bool" where
  "in_gaps gs i \<longleftrightarrow> (\<exists>(a, k) \<in> set gs. a \<le> i \<and> i < a + k)"

definition marked :: "cut_state \<Rightarrow> bool" where
  "marked s \<longleftrightarrow> int (length (zero_fill (snd s))) = rc_written (fst s) \<and>
     rc_lost (fst s) = (\<Sum>(a, k) \<leftarrow> rc_gaps (fst s). k) \<and>
     sorted_wrt (\<lambda>x y. fst x + snd x < fst y) (rc_gaps (fst s)) \<and>
     (\<forall>(a, k) \<in> set (rc_gaps (fst s)). 0 \<le> a \<and> 0 < k \<and> a + k \<le> rc_written (fst s)) \<and>
     (\<forall>i. 0 \<le> i \<and> i < rc_written (fst s) \<longrightarrow>
        zero_fill (snd s) ! nat i = in_gaps (rc_gaps (fst s)) i)"

lemma zero_fill_simps [simp]:
  "zero_fill [] = []" "zero_fill (xs @ ys) = zero_fill xs @ zero_fill ys"
  "zero_fill [IQ d] = replicate (length d) False" "zero_fill [Zeros k] = replicate (nat k) True"
  by (simp_all add: zero_fill_def)

lemma zero_fill_file: "length (zero_fill ops) = length (file_of ops) \<and>
    (\<forall>i < length (zero_fill ops). zero_fill ops ! i \<longrightarrow> file_of ops ! i = 0)"
proof (induction ops)
  case (Cons p ops)
  have "zero_fill (p # ops) = zero_fill [p] @ zero_fill ops" by (simp add: zero_fill_def)
  then show ?case using Cons by (cases p) (auto simp: nth_append zeros_def)
qed simp

lemma in_gaps_outside: "\<forall>(a, k) \<in> set gs. a + k \<le> w \<Longrightarrow> w \<le> i \<Longrightarrow> \<not> in_gaps gs i"
  by (fastforce simp: in_gaps_def)

lemma extend_gaps_marked:
  assumes "sorted_wrt (\<lambda>x y. fst x + snd x < fst y) gs" "0 < k" "0 \<le> w"
    and "\<forall>(a, k) \<in> set gs. 0 \<le> a \<and> 0 < k \<and> a + k \<le> w"
  shows "(\<Sum>(a, k) \<leftarrow> extend_gaps gs w k. k) = (\<Sum>(a, k) \<leftarrow> gs. k) + k"
    "sorted_wrt (\<lambda>x y. fst x + snd x < fst y) (extend_gaps gs w k)"
    "\<forall>(a, k') \<in> set (extend_gaps gs w k). 0 \<le> a \<and> 0 < k' \<and> a + k' \<le> w + k"
    "in_gaps (extend_gaps gs w k) i \<longleftrightarrow> in_gaps gs i \<or> w \<le> i \<and> i < w + k"
proof -
  consider (ext) gs' a k' where "gs = gs' @ [(a, k')]" "a + k' = w"
    | (new) "extend_gaps gs w k = gs @ [(w, k)]" "\<forall>(a, k) \<in> set gs. a + k \<noteq> w"
  proof (cases "gs \<noteq> [] \<and> fst (last gs) + snd (last gs) = w")
    case True
    then show thesis using ext [of "butlast gs" "fst (last gs)" "snd (last gs)"] by simp
  next
    case False
    moreover have "\<forall>(a, k) \<in> set gs. a + k \<noteq> w"
    proof (cases gs rule: rev_cases)
      case (snoc gs' g)
      then show ?thesis using False assms(1,4) by (fastforce simp: sorted_wrt_append)
    qed simp
    ultimately show thesis by (intro new) (auto simp: extend_gaps_def)
  qed
  note c = this
  show "(\<Sum>(a, k) \<leftarrow> extend_gaps gs w k. k) = (\<Sum>(a, k) \<leftarrow> gs. k) + k"
    using c by cases (simp_all add: extend_gaps_def)
  show "sorted_wrt (\<lambda>x y. fst x + snd x < fst y) (extend_gaps gs w k)"
    using c
  proof cases
    case new
    then show ?thesis using assms(1,4) by (fastforce simp: sorted_wrt_append)
  qed (use assms(1) in \<open>simp add: extend_gaps_def sorted_wrt_append\<close>)
  show "\<forall>(a, k') \<in> set (extend_gaps gs w k). 0 \<le> a \<and> 0 < k' \<and> a + k' \<le> w + k"
    using c
  proof cases
    case ext
    then show ?thesis using assms(2-4) by (fastforce simp: extend_gaps_def)
  next
    case new
    then show ?thesis using assms(2-4) by fastforce
  qed
  show "in_gaps (extend_gaps gs w k) i \<longleftrightarrow> in_gaps gs i \<or> w \<le> i \<and> i < w + k"
    using c
  proof cases
    case ext
    moreover from this have "0 < k'" using assms(4) by simp
    ultimately show ?thesis using assms(2) by (auto simp: extend_gaps_def in_gaps_def)
  qed (auto simp: in_gaps_def)
qed

lemma marked_cut_iq: "marked s \<Longrightarrow> marked (cut_iq data s)"
  using in_gaps_outside [of "rc_gaps (fst s)" "rc_written (fst s)"]
  by (cases s) (fastforce simp: cut_iq_def Let_def marked_def nth_append nat_less_iff min_def)

lemma marked_cut_zeros:
  assumes "marked s"
  shows "marked (cut_zeros n p sh s)"
proof -
  obtain c ops where s: "s = (c, ops)" by (cases s)
  define k where "k = min n (room c)"
  show ?thesis
  proof (cases "0 < k")
    case False
    then have "cut_zeros n p sh s = (check_done c, ops)"
      unfolding s cut_zeros_def Let_def k_def by simp
    then show ?thesis using assms by (simp add: s marked_def)
  next
    case True
    obtain c' where res: "cut_zeros n p sh s = (c', ops @ [Zeros k])"
      and c': "rc_gaps c' = extend_gaps (rc_gaps c) (rc_written c) k" "rc_lost c' = rc_lost c + k"
        "rc_written c' = rc_written c + k"
      using True by (cases sh) (auto simp: s cut_zeros_def Let_def k_def)
    have m: "sorted_wrt (\<lambda>x y. fst x + snd x < fst y) (rc_gaps c)" "0 \<le> rc_written c"
      "\<forall>(a, k) \<in> set (rc_gaps c). 0 \<le> a \<and> 0 < k \<and> a + k \<le> rc_written c"
      "int (length (zero_fill ops)) = rc_written c"
      using assms by (auto simp: marked_def s)
    note ex = extend_gaps_marked [OF m(1) True m(2,3)]
    have "(zero_fill ops @ replicate (nat k) True) ! nat i =
        in_gaps (extend_gaps (rc_gaps c) (rc_written c) k) i"
      if "0 \<le> i" "i < rc_written c + k" for i
    proof (cases "i < rc_written c")
      case True
      then show ?thesis
        using assms that m(4) ex(4) by (simp add: nth_append nat_less_iff marked_def s)
    next
      case False
      then show ?thesis using that m(4) ex(4) by (simp add: nth_append nat_less_iff nat_le_iff)
    qed
    then show ?thesis
      using ex(1-3) assms True m(4) unfolding res marked_def by (simp add: c' s)
  qed
qed

lemma marked_update [simp]:
  "marked (c\<lparr>rc_started := b\<rparr>, ops) = marked (c, ops)"
  "marked (c\<lparr>rc_first_time := x\<rparr>, ops) = marked (c, ops)"
  "marked (c\<lparr>rc_error_ns := y\<rparr>, ops) = marked (c, ops)"
  "marked (c\<lparr>rc_stream_start := z\<rparr>, ops) = marked (c, ops)"
  "marked (c\<lparr>rc_late := l\<rparr>, ops) = marked (c, ops)"
  "marked (c\<lparr>rc_next_pos := q\<rparr>, ops) = marked (c, ops)"
  "marked (c\<lparr>rc_done := b\<rparr>, ops) = marked (c, ops)"
  "marked (c\<lparr>rc_reason := r\<rparr>, ops) = marked (c, ops)"
  by (simp_all add: marked_def)

lemma marked_new: "marked (cutter_new spec, [])"
  by (auto simp: marked_def cutter_new_def)

abbreviation marked_after :: "cut_op list \<Rightarrow> cut_state \<Rightarrow> bool" where
  "marked_after ops s \<equiv> marked (after ops s)"

lemma marked_after_iq: "marked_after ops s \<Longrightarrow> marked_after ops (cut_iq data s)"
  by (simp only: after_cut_iq [symmetric] marked_cut_iq)

lemma marked_after_zeros: "marked_after ops s \<Longrightarrow> marked_after ops (cut_zeros n p sh s)"
  by (simp only: after_cut_zeros [symmetric] marked_cut_zeros)

lemma marked_chunk_loop: "marked s \<Longrightarrow> marked (chunk_loop chunk cs start pos gs s)"
  by (induction chunk cs start pos gs s rule: chunk_loop.induct)
    (simp_all add: marked_cut_iq marked_cut_zeros)

lemma marked_after_chunk: "marked_after ops s \<Longrightarrow> marked_after ops (cut_chunk chunk cs start gs s)"
  by (simp only: after_cut_chunk [symmetric]) (simp add: cut_chunk_def marked_chunk_loop)

lemmas marked_after_intros = marked_after_iq marked_after_zeros marked_after_chunk

lemma marked_after_next_pos:
  "marked_after ops s \<Longrightarrow> marked_after ops ((fst s)\<lparr>rc_next_pos := q\<rparr>, snd s)"
  by (simp add: after_def)

lemma marked_after_branches:
  "marked_after ops a \<Longrightarrow> marked_after ops b \<Longrightarrow> marked_after ops (if P then a else b)"
  "(\<And>x y. marked_after ops (f x y)) \<Longrightarrow> marked_after ops (case p of (x, y) \<Rightarrow> f x y)"
  "marked_after ops a \<Longrightarrow> (\<And>x. marked_after ops (g x)) \<Longrightarrow>
    marked_after ops (case z of None \<Rightarrow> a | Some x \<Rightarrow> g x)"
  by (auto split: prod.splits option.splits)

lemma marked_feed:
  assumes "marked (c, ops)"
  shows "marked_after ops (cutter_feed chunk cs t gaps freq ring c)"
proof -
  have starts: "marked_after ops (cutter_begin chunk cs t gaps ring c)"
    unfolding cutter_begin_def Let_def
    by (intro marked_after_branches marked_after_intros marked_after_next_pos)
      (simp_all only: after_pair append_Nil2 marked_update assms)
  show ?thesis
    unfolding cutter_feed_def Let_def cutter_end_def
    by (intro marked_after_branches marked_after_intros marked_after_next_pos starts)
      (simp_all add: assms)
qed

lemma marked_feed_all:
  "marked (c, ops) \<Longrightarrow> marked_after ops (feed_all freq pos fs c)"
proof (induction fs arbitrary: c ops pos)
  case (Cons f fs)
  obtain chunk t gaps ring where f: "f = (chunk, t, gaps, ring)" by (cases f) auto
  obtain c1 ops1 where feed: "cutter_feed chunk pos t gaps freq ring c = (c1, ops1)"
    by (cases "cutter_feed chunk pos t gaps freq ring c")
  obtain c2 ops2 where rest: "feed_all freq (pos + int (length chunk)) fs c1 = (c2, ops2)"
    by (cases "feed_all freq (pos + int (length chunk)) fs c1")
  have "marked (c1, ops @ ops1)"
    using marked_feed [OF Cons.prems, of chunk pos t gaps freq ring] by (simp add: feed)
  from Cons.IH [OF this, of "pos + int (length chunk)"] show ?case by (simp add: f feed rest)
qed simp

text \<open>
  The gap list is exact. Whatever a cutter is fed (even chunks that skip
  stream positions), \<open>gaps\<close> lists disjoint, separated ranges of file samples in
  order; a file sample lies in one of them exactly when it was written as zero
  fill, and it is zero; \<open>lost_samples\<close> is their total length and \<open>samples\<close> the
  length of the file.
\<close>

theorem gaps_are_zero_fill:
  assumes "(c, ops) = feed_all freq pos fs (cutter_new spec)" "info = cutter_info_of c"
  shows "ci_samples info = int (length (file_of ops)) \<and>
    ci_lost_samples info = (\<Sum>(a, k) \<leftarrow> ci_gaps info. k) \<and>
    sorted_wrt (\<lambda>x y. fst x + snd x < fst y) (ci_gaps info) \<and>
    (\<forall>i. (\<exists>(a, k) \<in> set (ci_gaps info). a \<le> int i \<and> int i < a + k) \<longleftrightarrow>
      i < length (zero_fill ops) \<and> zero_fill ops ! i) \<and>
    (\<forall>i < length (zero_fill ops). zero_fill ops ! i \<longrightarrow> file_of ops ! i = 0)"
proof -
  from marked_feed_all [OF marked_new, of freq pos fs] have m: "marked (c, ops)" by (simp only: assms(1) after_pair)
  note zf = zero_fill_file [of ops]
  have "in_gaps (rc_gaps c) (int i) \<longleftrightarrow> i < length (zero_fill ops) \<and> zero_fill ops ! i" for i
  proof (cases "int i < rc_written c")
    case True
    have "\<forall>i. 0 \<le> i \<and> i < rc_written c \<longrightarrow> zero_fill ops ! nat i = in_gaps (rc_gaps c) i"
      using m by (simp add: marked_def)
    from this [rule_format, of "int i"] True
    have "zero_fill ops ! i = in_gaps (rc_gaps c) (int i)" by simp
    then show ?thesis using True m by (simp add: marked_def)
  next
    case False
    then show ?thesis
      using m in_gaps_outside [of "rc_gaps c" "rc_written c" "int i"] by (auto simp: marked_def)
  qed
  then show ?thesis
    using m zf by (simp add: assms(2) cutter_info_of_def marked_def in_gaps_def)
qed

section \<open>Status\<close>

lemma writes_recorded:
  assumes "writes line (c0, []) (c, ops)" "rc_written c0 = 0" "0 < rs_n_samples (rc_spec c0)"
    "rc_started c0" "\<not> rc_done c0" "rc_reason c0 = None"
  shows "rc_started c \<and> (rc_done c \<longleftrightarrow> rs_n_samples (rc_spec c0) \<le> int (length line)) \<and>
    rc_reason c = None \<and> rc_written c = min (int (length line)) (rs_n_samples (rc_spec c0)) \<and>
    rc_spec c = rc_spec c0"
  using assms by (auto simp: writes_def room_def)

text \<open>
  What the status of a run says. A run fed chunks that follow on each other
  is \<open>recording\<close> until its \<open>n_samples\<close> are there; then it is \<open>recorded\<close> exactly
  when no sample of the file is zero fill, and \<open>partial\<close> otherwise.
\<close>

theorem status_recorded_iff_no_zero_fill:
  assumes "0 < rs_n_samples spec" "gaps_ok (int (length chunk)) gaps" "fed_ok fs"
    and "ring_holds r (prior @ chunk)"
    and "start_target spec t < int (length (inner_line chunk gaps))"
    and "(c, ops) = feed_all (rs_center_freq_hz spec) (int (length prior))
      ((chunk, t, gaps, Some (ring_view r)) # fs) (cutter_new spec)"
  shows "cutter_status c =
    (if int (length (file_of ops)) < rs_n_samples spec then ''recording''
     else if True \<in> set (zero_fill ops) then ''partial'' else ''recorded'')"
proof -
  from marked_feed_all [OF marked_new] have m: "marked (c, ops)" by (metis assms(6) after_pair(2))
  obtain c0 where c0: "writes (from_index (int (length prior) + lost_before gaps + start_target spec t)
      (past_line (ring_oldest_position r) prior @ chunk_line chunk gaps @ fed_line fs)) (c0, []) (c, ops)"
    "rc_spec c0 = spec" "rc_written c0 = 0" "rc_started c0" "\<not> rc_done c0" "rc_reason c0 = None"
    using feed_run_writes [OF assms(1-5)] assms(6) by auto
  note w = writes_recorded [OF c0(1,3) _ c0(4-6), unfolded c0(2), OF assms(1)]
  have len: "int (length (file_of ops)) = rc_written c" "length (zero_fill ops) = length (file_of ops)"
    using m zero_fill_file [of ops] by (simp_all add: marked_def)
  have pos: "\<forall>(a, k) \<in> set (rc_gaps c). 0 < k" using m by (auto simp: marked_def)
  have "rc_lost c = 0 \<longleftrightarrow> rc_gaps c = []"
  proof (cases "rc_gaps c")
    case (Cons g gs)
    then have "0 \<le> (\<Sum>(a, k) \<leftarrow> gs. k)" using pos by (intro sum_list_nonneg) fastforce
    then show ?thesis using Cons pos m by (auto simp: marked_def)
  qed (use m in \<open>simp add: marked_def\<close>)
  moreover have "rc_gaps c = [] \<longleftrightarrow> True \<notin> set (zero_fill ops)"
  proof
    assume "rc_gaps c = []"
    then show "True \<notin> set (zero_fill ops)"
    proof -
      have "\<not> zero_fill ops ! i" if "i < length (zero_fill ops)" for i
        using m len that \<open>rc_gaps c = []\<close> by (auto simp: marked_def in_gaps_def dest: spec [of _ "int i"])
      then show ?thesis by (auto simp: in_set_conv_nth)
    qed
  next
    assume no: "True \<notin> set (zero_fill ops)"
    show "rc_gaps c = []"
    proof (rule ccontr)
      assume "rc_gaps c \<noteq> []"
      then obtain a k where g: "(a, k) \<in> set (rc_gaps c)" by (cases "rc_gaps c") auto
      then have a: "0 \<le> a" "0 < k" "a + k \<le> rc_written c" using m by (auto simp: marked_def)
      then have "in_gaps (rc_gaps c) a" using g by (auto simp: in_gaps_def)
      then have "zero_fill ops ! nat a" using m a by (simp add: marked_def)
      moreover have "nat a < length (zero_fill ops)" using len a by simp
      ultimately show False using no by (metis nth_mem)
    qed
  qed
  ultimately show ?thesis using w len by (auto simp: cutter_status_def)
qed

section \<open>A run\<close>

text \<open>
  A ring of four samples; the run starts four samples before the second chunk,
  with two samples lost before that chunk and one lost inside it.
\<close>

definition example_spec :: run_spec where
  "example_spec = \<lparr>rs_schedule_id = ''s'', rs_run = 0, rs_start_ms = -3000, rs_n_samples = 8,
     rs_rate_hz = 1, rs_center_freq_hz = 0, rs_label = []\<rparr>"

definition example_ring :: "int ring" where
  "example_ring = ring_write (ring_write (ring_new 4 0) [10, 20]) [30, 40, 50]"

definition example_run :: cut_state where
  "example_run = feed_all 0 2 [([30, 40, 50], 1, [(0, 2), (2, 1)], Some (ring_view example_ring)),
     ([60, 70], 4, [], None)] (cutter_new example_spec)"

lemma example_ring_holds: "ring_holds example_ring ([10, 20] @ [30, 40, 50])"
  using ring_holds_write [OF ring_holds_write [OF ring_holds_new [of 4 "0 :: int"]],
      of "[10, 20]" "[30, 40, 50]"] by (simp add: example_ring_def)

lemma example_run_eq:
  "(fst example_run, snd example_run) = feed_all (rs_center_freq_hz example_spec)
    (int (length [10 :: int, 20])) (([30, 40, 50], 1, [(0, 2), (2, 1)], Some (ring_view example_ring)) #
    [([60, 70], 4, [], None)]) (cutter_new example_spec)"
  by (simp add: example_run_def example_spec_def del: feed_all.simps)


lemma example_run_facts:
  "0 < rs_n_samples example_spec" "gaps_ok (int (length [30 :: int, 40, 50])) [(0, 2), (2, 1)]"
  "fed_ok [([60, 70], 4, [], None)]"
  "start_target example_spec 1 < int (length (inner_line [30, 40, 50] [(0, 2), (2, 1)]))"
  "rc_stream_start (fst example_run) = Some 1" "stream_end (fst example_run) = Some 5"
  by code_simp+

theorem file_index_exact_witness:
  "\<exists>i. file_index (fst example_run) 4 = Some i \<and> file_of (snd example_run) ! nat i = 50"
  using file_index_exact [OF example_run_facts(1-3) example_ring_holds example_run_facts(4)
      example_run_eq example_run_facts(5,6), of 4]
  by auto

theorem gaps_are_zero_fill_witness: "ci_lost_samples (cutter_info_of (fst example_run)) = 4"
proof -
  have "ci_gaps (cutter_info_of (fst example_run)) = [(0, 1), (2, 2), (6, 1)]"
  proof -
    have "rc_gaps (fst example_run) = [(0, 1), (2, 2), (6, 1)]" by code_simp
    then show ?thesis by (simp add: cutter_info_of_def)
  qed
  then show ?thesis using gaps_are_zero_fill [OF example_run_eq refl] by simp
qed

theorem status_recorded_iff_no_zero_fill_witness: "cutter_status (fst example_run) = ''partial''"
  using status_recorded_iff_no_zero_fill [OF _ _ _ example_ring_holds _ example_run_eq] by code_simp

end
