(* ===== verification/Governor.thy ===== *)
theory Governor
  imports Iso_Time
begin

text \<open>
  \<open>storage/governor.py\<close>: the ladder that keeps the storage volume above a
  free-space floor. A sample of the volumes is a record; each method runs under
  the governor's lock, so it is one step. Times are microseconds since the epoch,
  byte counts integers, the float factors exact rationals. A text read back from
  the configuration table is represented by what Python decodes from it.
\<close>

section \<open>Constants and samples\<close>

definition GB :: int where "GB = 1024 ^ 3"
definition AUTO_FLOOR_FRACTION :: rat where "AUTO_FLOOR_FRACTION = 5 / 100"
definition AUTO_FLOOR_MIN_BYTES :: int where "AUTO_FLOOR_MIN_BYTES = 2 * GB"
definition RECOVERY_MARGIN :: rat where "RECOVERY_MARGIN = 115 / 100"
definition RECOVERY_TICKS :: nat where "RECOVERY_TICKS = 3"
definition HARD_FLOOR_FRACTION :: rat where "HARD_FLOOR_FRACTION = 1 / 2"
definition YOUNG_EVICTION_WINDOW_SEC :: int where "YOUNG_EVICTION_WINDOW_SEC = 1800"
definition YOUNG_WINDOW_MAX_ENTRIES :: nat where "YOUNG_WINDOW_MAX_ENTRIES = 4096"

definition STEP_TEXT :: "nat \<Rightarrow> string" where
  "STEP_TEXT step = (if step = 0 then ''healthy''
     else if step = 1 then ''evicting the oldest automatic captures''
     else if step = 2 then ''pruning PSD history and detections''
     else if step = 3 then ''recordings refused'' else ''PSD history writes stopped'')"

definition EVICTING_YOUNG_STEP_TEXT :: string where
  "EVICTING_YOUNG_STEP_TEXT = ''deleting automatic captures minutes after they are recorded''"

definition resolve_floor :: "rat \<Rightarrow> int \<Rightarrow> int" where
  "resolve_floor min_free_gb total_bytes =
     (if 0 < min_free_gb then py_int (min_free_gb * of_int GB)
      else max (py_int (of_int total_bytes * AUTO_FLOOR_FRACTION)) AUTO_FLOOR_MIN_BYTES)"

record volume_sample =
  vs_free_bytes :: int
  vs_total_bytes :: int

record storage_sample =
  sa_data :: volume_sample
  sa_db_volume :: "volume_sample option"
  sa_db_file_bytes :: int
  sa_db_reusable_bytes :: int
  sa_auto_bytes :: int
  sa_manual_bytes :: int
  sa_evictable_auto :: bool
  sa_bursts_bytes :: int
  sa_old_bursts_bytes :: int
  sa_priority_bytes :: int

record storage_actions =
  ac_evict_to_free_bytes :: "int option"
  ac_start_pressure_prune :: bool

section \<open>The published state\<close>

record storage_state =
  ss_step :: nat
  ss_step_since :: int
  ss_floor_bytes :: int
  ss_db_floor_bytes :: "int option"
  ss_sample :: "storage_sample option"
  ss_last_write_error :: "(string \<times> string) option"
  ss_degraded_since :: "int option"
  ss_evicting_young :: bool
  ss_last_young_eviction :: "int option"
  ss_young_evictions :: int
  ss_youngest_evicted_age_sec :: "rat option"

definition ss_pressure :: "storage_state \<Rightarrow> bool" where "ss_pressure st = (2 \<le> ss_step st)"
definition ss_refuse_recording :: "storage_state \<Rightarrow> bool" where "ss_refuse_recording st = (3 \<le> ss_step st)"
definition ss_skip_psd_blobs :: "storage_state \<Rightarrow> bool" where "ss_skip_psd_blobs st = (4 \<le> ss_step st)"
definition ss_degraded :: "storage_state \<Rightarrow> bool" where
  "ss_degraded st = (3 \<le> ss_step st \<or> ss_degraded_since st \<noteq> None)"

text \<open>\<open>round(n / GB, 1)\<close>\<close>

definition to_gb :: "int \<Rightarrow> rat" where
  "to_gb n = of_int (py_round (of_int n / of_int GB * 10)) / 10"

record health =
  he_free_gb :: "rat option"
  he_floor_gb :: "rat option"
  he_volume_gb :: "rat option"
  he_db_gb :: "rat option"
  he_db_reusable_gb :: "rat option"
  he_auto_gb :: "rat option"
  he_manual_gb :: "rat option"
  he_priority_gb :: "rat option"
  he_bursts_gb :: "rat option"
  he_step :: nat
  he_step_text :: string
  he_step_since :: string
  he_last_write_error :: "(string \<times> string) option"
  he_degraded_since :: "string option"
  he_db_volume :: "(rat \<times> rat option) option"
  he_evicting_young :: bool
  he_young_evictions :: int
  he_last_young_eviction :: "string option"

definition to_health :: "storage_state \<Rightarrow> health" where
  "to_health st = (let of_sample = (\<lambda>f. map_option (\<lambda>s. to_gb (f s)) (ss_sample st)) in
     \<lparr>he_free_gb = of_sample (\<lambda>s. vs_free_bytes (sa_data s)),
      he_floor_gb = of_sample (\<lambda>_. ss_floor_bytes st),
      he_volume_gb = of_sample (\<lambda>s. vs_total_bytes (sa_data s)),
      he_db_gb = of_sample sa_db_file_bytes,
      he_db_reusable_gb = of_sample sa_db_reusable_bytes,
      he_auto_gb = of_sample sa_auto_bytes,
      he_manual_gb = of_sample sa_manual_bytes,
      he_priority_gb = of_sample sa_priority_bytes,
      he_bursts_gb = of_sample sa_bursts_bytes,
      he_step = ss_step st,
      he_step_text = (if ss_evicting_young st \<and> ss_step st = 1 then EVICTING_YOUNG_STEP_TEXT
                      else STEP_TEXT (ss_step st)),
      he_step_since = isoformat_utc (ss_step_since st),
      he_last_write_error = ss_last_write_error st,
      he_degraded_since = map_option isoformat_utc (ss_degraded_since st),
      he_db_volume = Option.bind (ss_sample st) (\<lambda>s. map_option (\<lambda>v.
        (to_gb (vs_free_bytes v), map_option to_gb (ss_db_floor_bytes st))) (sa_db_volume s)),
      he_evicting_young = ss_evicting_young st,
      he_young_evictions = ss_young_evictions st,
      he_last_young_eviction = map_option isoformat_utc (ss_last_young_eviction st)\<rparr>)"

section \<open>The ladder\<close>

definition evictable :: "storage_sample \<Rightarrow> int \<Rightarrow> bool" where
  "evictable sample flr = (if sa_evictable_auto sample then True
     else let old = sa_old_bursts_bytes sample
          in 0 < old \<and> flr \<le> vs_free_bytes (sa_data sample) + old)"

definition volume_step :: "int \<Rightarrow> int \<Rightarrow> bool \<Rightarrow> nat \<Rightarrow> nat" where
  "volume_step free flr can_evict current =
     (if of_int free < of_int flr * HARD_FLOOR_FRACTION then 4
      else if flr \<le> free then 0
      else if can_evict then 1
      else if 2 \<le> current then 3 else 2)"

record governor =
  gov_state :: storage_state
  gov_good_ticks :: nat
  gov_degraded_dirty :: bool
  gov_ticks :: nat
  gov_young :: "(int \<times> int) list"

definition governor_new :: "int \<Rightarrow> governor" where
  "governor_new now = \<lparr>
     gov_state = \<lparr>ss_step = 0, ss_step_since = now, ss_floor_bytes = 0, ss_db_floor_bytes = None,
       ss_sample = None, ss_last_write_error = None, ss_degraded_since = None,
       ss_evicting_young = False, ss_last_young_eviction = None, ss_young_evictions = 0,
       ss_youngest_evicted_age_sec = None\<rparr>,
     gov_good_ticks = 0, gov_degraded_dirty = False, gov_ticks = 0, gov_young = []\<rparr>"

definition prune_young :: "int \<Rightarrow> (int \<times> int) list \<Rightarrow> (int \<times> int) list \<times> int" where
  "prune_young now young = (let young = dropWhile (\<lambda>(w, _).
       YOUNG_EVICTION_WINDOW_SEC * 1000000 \<le> now - w) young
     in (young, (\<Sum>(_, c) \<leftarrow> young. c)))"

definition raw_step :: "storage_sample \<Rightarrow> rat \<Rightarrow> nat \<Rightarrow> nat" where
  "raw_step sample min_free_gb step =
     (let data = sa_data sample; flr = resolve_floor min_free_gb (vs_total_bytes data);
          raw = volume_step (vs_free_bytes data) flr (evictable sample flr) step
      in case sa_db_volume sample of None \<Rightarrow> raw
         | Some v \<Rightarrow> max raw (volume_step (vs_free_bytes v)
             (resolve_floor min_free_gb (vs_total_bytes v)) False step))"

definition recovered :: "storage_sample \<Rightarrow> rat \<Rightarrow> bool" where
  "recovered sample min_free_gb =
     (let ok = (\<lambda>v. of_int (resolve_floor min_free_gb (vs_total_bytes v)) * RECOVERY_MARGIN
            \<le> of_int (vs_free_bytes v))
      in ok (sa_data sample) \<and> (case sa_db_volume sample of None \<Rightarrow> True | Some v \<Rightarrow> ok v))"

definition gov_tick :: "storage_sample \<Rightarrow> rat \<Rightarrow> int \<Rightarrow> governor \<Rightarrow> governor \<times> storage_actions" where
  "gov_tick sample min_free_gb now g =
     (let st = gov_state g; data = sa_data sample;
          flr = resolve_floor min_free_gb (vs_total_bytes data);
          can_evict = evictable sample flr;
          raw = raw_step sample min_free_gb (ss_step st);
          db_floor = map_option (\<lambda>v. resolve_floor min_free_gb (vs_total_bytes v)) (sa_db_volume sample);
          (step, good) =
            (if ss_step st < raw then (raw, 0)
             else if raw < ss_step st \<and> recovered sample min_free_gb then
               (let good = gov_good_ticks g + 1
                in if RECOVERY_TICKS \<le> good then (raw, 0) else (ss_step st, good))
             else (ss_step st, 0));
          entering = (3 \<le> step \<and> ss_step st < 3 \<and> ss_degraded_since st = None);
          degraded_since = (if entering then Some now else ss_degraded_since st);
          (young, young_evictions) = prune_young now (gov_young g);
          g' = g\<lparr>gov_state := st\<lparr>ss_step := step,
                 ss_step_since := (if step \<noteq> ss_step st then now else ss_step_since st),
                 ss_floor_bytes := flr, ss_db_floor_bytes := db_floor, ss_sample := Some sample,
                 ss_degraded_since := degraded_since, ss_evicting_young := young \<noteq> [],
                 ss_young_evictions := young_evictions\<rparr>,
               gov_good_ticks := good,
               gov_degraded_dirty := (entering \<or> gov_degraded_dirty g),
               gov_ticks := gov_ticks g + 1, gov_young := young\<rparr>;
          target = py_int (of_int flr * RECOVERY_MARGIN);
          has_victims = (can_evict \<or> 0 < sa_old_bursts_bytes sample);
          evict = (1 \<le> step \<and> has_victims \<and> vs_free_bytes data < target)
      in (g', \<lparr>ac_evict_to_free_bytes = (if evict then Some target else None),
               ac_start_pressure_prune = (ss_step st < 2 \<and> 2 \<le> step)\<rparr>))"

section \<open>Write errors, young evictions, the sticky flag\<close>

definition report_write_error :: "string \<Rightarrow> int \<Rightarrow> governor \<Rightarrow> governor" where
  "report_write_error message now g =
     (let since = (case ss_degraded_since (gov_state g) of None \<Rightarrow> now | Some s \<Rightarrow> s)
      in g\<lparr>gov_degraded_dirty := True,
           gov_state := (gov_state g)\<lparr>ss_last_write_error := Some (isoformat_utc now, message),
             ss_degraded_since := Some since\<rparr>\<rparr>)"

definition note_young_evictions :: "int \<Rightarrow> rat \<Rightarrow> int \<Rightarrow> governor \<Rightarrow> governor" where
  "note_young_evictions cnt youngest_age_sec now g =
     (let (young, total) = prune_young now (gov_young g);
          young = (if YOUNG_WINDOW_MAX_ENTRIES \<le> length young
                   then butlast young @ [(now, snd (last young) + cnt)] else young @ [(now, cnt)])
      in g\<lparr>gov_young := young,
           gov_state := (gov_state g)\<lparr>ss_evicting_young := True,
             ss_last_young_eviction := Some now, ss_young_evictions := total + cnt,
             ss_youngest_evicted_age_sec := Some youngest_age_sec\<rparr>\<rparr>)"

definition clear_degraded :: "governor \<Rightarrow> governor" where
  "clear_degraded g = g\<lparr>gov_state := (gov_state g)\<lparr>ss_last_write_error := None,
     ss_degraded_since := None\<rparr>, gov_degraded_dirty := True\<rparr>"

text \<open>A configuration text: empty, refused by its decoder, or what it decodes to.\<close>

datatype 'v encoded = Empty | Garbled | Encoded 'v

definition decode :: "'v encoded option \<Rightarrow> 'v option" where
  "decode raw = (case raw of Some (Encoded v) \<Rightarrow> Some v | _ \<Rightarrow> None)"

definition write_error_of :: "json \<Rightarrow> (string \<times> string) option" where
  "write_error_of v = (case v of
     JObj kvs \<Rightarrow> (case (jget kvs ''at'', jget kvs ''error'') of
         (JStr a, JStr e) \<Rightarrow> Some (a, e) | _ \<Rightarrow> None)
   | _ \<Rightarrow> None)"

definition restore_degraded ::
  "int encoded option \<Rightarrow> json encoded option \<Rightarrow> governor \<Rightarrow> governor" where
  "restore_degraded raw raw_error g =
     (let since = decode raw; err = Option.bind (decode raw_error) write_error_of
      in if since = None \<and> err = None then g
         else g\<lparr>gov_state := (gov_state g)\<lparr>
           ss_degraded_since := (if since \<noteq> None then since else ss_degraded_since (gov_state g)),
           ss_last_write_error := (if err \<noteq> None then err else ss_last_write_error (gov_state g))\<rparr>\<rparr>)"

definition mark_degraded_dirty :: "governor \<Rightarrow> governor" where
  "mark_degraded_dirty g = g\<lparr>gov_degraded_dirty := True\<rparr>"

datatype config_value = Since "int encoded" | WriteError "json encoded"

definition since_value :: "int option \<Rightarrow> int encoded" where
  "since_value s = (case s of None \<Rightarrow> Empty | Some t \<Rightarrow> Encoded t)"

definition error_value :: "(string \<times> string) option \<Rightarrow> json encoded" where
  "error_value e = (case e of None \<Rightarrow> Empty
     | Some (a, m) \<Rightarrow> Encoded (JObj [(''at'', JStr a), (''error'', JStr m)]))"

definition take_degraded_change :: "governor \<Rightarrow> governor \<times> bool \<times> config_value list" where
  "take_degraded_change g =
     (if \<not> gov_degraded_dirty g then (g, False, [])
      else (g\<lparr>gov_degraded_dirty := False\<rparr>, True,
        [Since (since_value (ss_degraded_since (gov_state g))),
         WriteError (error_value (ss_last_write_error (gov_state g)))]))"

text \<open>
  \<open>persist_degraded_change\<close>: the pass takes the pending values, then writes them
  one by one; other threads may step in between. A pass that fails (whether or
  not the failing write reached the table) marks the change dirty again. The
  lock allows one pass at a time.
\<close>

record persist_sys =
  ps_gov :: governor
  ps_since :: "int encoded option"
  ps_error :: "json encoded option"
  ps_writing :: "config_value list"

fun set_config :: "config_value \<Rightarrow> persist_sys \<Rightarrow> persist_sys" where
  "set_config (Since v) s = s\<lparr>ps_since := Some v\<rparr>"
| "set_config (WriteError v) s = s\<lparr>ps_error := Some v\<rparr>"

definition persist_take :: "persist_sys \<Rightarrow> persist_sys" where
  "persist_take s = (let (g, changed, values) = take_degraded_change (ps_gov s)
     in if changed then s\<lparr>ps_gov := g, ps_writing := values\<rparr> else s\<lparr>ps_gov := g\<rparr>)"

definition persist_write :: "config_value \<Rightarrow> config_value list \<Rightarrow> persist_sys \<Rightarrow> persist_sys" where
  "persist_write v rest s = (set_config v s)\<lparr>ps_writing := rest\<rparr>"

definition persist_fail :: "bool \<Rightarrow> config_value \<Rightarrow> persist_sys \<Rightarrow> persist_sys" where
  "persist_fail reached v s = (let s' = (if reached then set_config v s else s)
     in s'\<lparr>ps_gov := mark_degraded_dirty (ps_gov s'), ps_writing := []\<rparr>)"

section \<open>Sequences of operations\<close>

datatype gov_op =
  Tick storage_sample rat int
| Report string int
| Note_Young int rat int
| Clear_Degraded

fun gov_apply :: "gov_op \<Rightarrow> governor \<Rightarrow> governor" where
  "gov_apply (Tick sample gb now) g = fst (gov_tick sample gb now g)"
| "gov_apply (Report msg now) g = report_write_error msg now g"
| "gov_apply (Note_Young n age now) g = note_young_evictions n age now g"
| "gov_apply Clear_Degraded g = clear_degraded g"

definition gov_run :: "gov_op list \<Rightarrow> governor \<Rightarrow> governor" where
  "gov_run ops g = fold gov_apply ops g"

lemma gov_run_simps [simp]:
  "gov_run [] g = g" "gov_run (ops @ [p]) g = gov_apply p (gov_run ops g)"
  by (simp_all add: gov_run_def)

abbreviation gov_ladder :: "governor \<Rightarrow> nat" where
  "gov_ladder g \<equiv> ss_step (gov_state g)"

lemma other_ops_keep_ladder [simp]:
  "gov_ladder (report_write_error m t g) = gov_ladder g"
  "gov_ladder (note_young_evictions n a t g) = gov_ladder g"
  "gov_ladder (clear_degraded g) = gov_ladder g"
  "gov_good_ticks (report_write_error m t g) = gov_good_ticks g"
  "gov_good_ticks (note_young_evictions n a t g) = gov_good_ticks g"
  "gov_good_ticks (clear_degraded g) = gov_good_ticks g"
  by (simp_all add: report_write_error_def note_young_evictions_def clear_degraded_def Let_def
      split: prod.splits)

text \<open>What a tick does to the ladder.\<close>

lemma tick_ladder:
  "gov_ladder (fst (gov_tick s gb now g)) =
    (if gov_ladder g < raw_step s gb (gov_ladder g) then raw_step s gb (gov_ladder g)
     else if raw_step s gb (gov_ladder g) < gov_ladder g \<and> recovered s gb \<and>
             RECOVERY_TICKS \<le> gov_good_ticks g + 1
     then raw_step s gb (gov_ladder g) else gov_ladder g)"
  by (simp add: gov_tick_def Let_def split: prod.splits if_splits)

lemma tick_good_ticks:
  "gov_good_ticks (fst (gov_tick s gb now g)) =
    (if gov_ladder g < raw_step s gb (gov_ladder g) then 0
     else if raw_step s gb (gov_ladder g) < gov_ladder g \<and> recovered s gb \<and>
             \<not> RECOVERY_TICKS \<le> gov_good_ticks g + 1
     then gov_good_ticks g + 1 else 0)"
  by (simp add: gov_tick_def Let_def split: prod.splits if_splits)

lemma raw_step_ge: "volume_step (vs_free_bytes (sa_data s))
    (resolve_floor gb (vs_total_bytes (sa_data s)))
    (evictable s (resolve_floor gb (vs_total_bytes (sa_data s)))) n \<le> raw_step s gb n"
  by (simp add: raw_step_def Let_def split: option.splits)

lemma tick_ge_raw: "raw_step s gb (gov_ladder g) \<le> gov_ladder (fst (gov_tick s gb now g))"
  by (simp add: tick_ladder)

lemma raw_step_le_4: "raw_step s gb n \<le> 4"
  by (simp add: raw_step_def volume_step_def Let_def split: option.splits)

lemma ladder_le_4: "gov_ladder (gov_run ops (governor_new t0)) \<le> 4"
proof (induction ops rule: rev_induct)
  case (snoc p ops)
  then show ?case by (cases p) (auto simp: tick_ladder intro: order_trans [OF _ raw_step_le_4])
qed (simp add: governor_new_def)

section \<open>Properties\<close>

text \<open>The samples of the ticks among the operations, newest last; the recovered ticks at the end.\<close>

fun ticks_of :: "gov_op list \<Rightarrow> (storage_sample \<times> rat) list" where
  "ticks_of [] = []"
| "ticks_of (Tick s gb now # ops) = (s, gb) # ticks_of ops"
| "ticks_of (p # ops) = ticks_of ops"

definition recovered_streak :: "gov_op list \<Rightarrow> nat" where
  "recovered_streak ops = length (takeWhile (\<lambda>(s, gb). recovered s gb) (rev (ticks_of ops)))"

lemma ticks_of_append [simp]: "ticks_of (xs @ ys) = ticks_of xs @ ticks_of ys"
  by (induction xs rule: ticks_of.induct) simp_all

lemma good_ticks_streak: "gov_good_ticks (gov_run ops (governor_new t0)) \<le> recovered_streak ops"
proof (induction ops rule: rev_induct)
  case Nil
  then show ?case by (simp add: governor_new_def)
next
  case (snoc p ops)
  then show ?case by (cases p) (auto simp: tick_good_ticks recovered_streak_def)
qed

text \<open>
  Hysteresis. The ladder never leaves a step early: whenever a tick lowers the
  step, this tick and the ones before it, at least RECOVERY_TICKS of them in a
  row, all found every volume at or above its floor times the recovery margin.
\<close>

theorem step_drops_after_recovery:
  assumes "g = gov_run ops (governor_new t0)"
    and "ss_step (gov_state (fst (gov_tick s gb now g))) < ss_step (gov_state g)"
  shows "RECOVERY_TICKS \<le> recovered_streak (ops @ [Tick s gb now])"
proof -
  have "recovered s gb \<and> RECOVERY_TICKS \<le> gov_good_ticks g + 1"
    using assms(2) by (auto simp: tick_ladder split: if_splits)
  then show ?thesis using good_ticks_streak [of ops t0] by (simp add: recovered_streak_def assms(1))
qed

text \<open>
  Every shortage is answered at once. After a tick in any state of the governor,
  a volume below half its floor means step 4, a data volume below its floor means
  at least step 1, at least step 2 when there is nothing worth evicting, and a DB
  volume below its floor at least step 2; with every volume at or above its floor
  the step does not rise; and the step never exceeds 4.
\<close>

theorem tick_answers_shortage:
  fixes s gb
  defines "below \<equiv> \<lambda>v. vs_free_bytes v < resolve_floor gb (vs_total_bytes v)"
    and "half \<equiv> \<lambda>v. (2 :: rat) * of_int (vs_free_bytes v) < of_int (resolve_floor gb (vs_total_bytes v))"
  assumes "g = gov_run ops (governor_new t0)" "g' = fst (gov_tick s gb now g)"
  shows "ss_step (gov_state g') \<le> 4 \<and>
    (below (sa_data s) \<longrightarrow> 1 \<le> ss_step (gov_state g')) \<and>
    (below (sa_data s) \<and> \<not> evictable s (resolve_floor gb (vs_total_bytes (sa_data s))) \<longrightarrow>
      2 \<le> ss_step (gov_state g')) \<and>
    (\<forall>v. sa_db_volume s = Some v \<and> below v \<longrightarrow> 2 \<le> ss_step (gov_state g')) \<and>
    (half (sa_data s) \<or> (\<exists>v. sa_db_volume s = Some v \<and> half v) \<longrightarrow> ss_step (gov_state g') = 4) \<and>
    (\<not> half (sa_data s) \<and> \<not> below (sa_data s) \<and> (\<forall>v. sa_db_volume s = Some v \<longrightarrow> \<not> half v \<and> \<not> below v) \<longrightarrow>
      ss_step (gov_state g') \<le> ss_step (gov_state g))"
proof -
  let ?raw = "raw_step s gb (gov_ladder g)" and ?st = "gov_ladder g'"
  have le: "?st \<le> 4"
    using ladder_le_4 [of "ops @ [Tick s gb now]" t0] by (simp add: assms(3,4))
  have ge: "?raw \<le> ?st" by (simp add: assms(4) tick_ge_raw)
  have vol: "volume_step (vs_free_bytes v) (resolve_floor gb (vs_total_bytes v)) e n =
      (if half v then 4 else if \<not> below v then 0 else if e then 1 else if 2 \<le> n then 3 else 2)" for v e n
    by (auto simp: volume_step_def below_def half_def HARD_FLOOR_FRACTION_def)
  have raw: "?raw = (let r = volume_step (vs_free_bytes (sa_data s))
          (resolve_floor gb (vs_total_bytes (sa_data s)))
          (evictable s (resolve_floor gb (vs_total_bytes (sa_data s)))) (gov_ladder g)
      in case sa_db_volume s of None \<Rightarrow> r | Some v \<Rightarrow> max r (volume_step (vs_free_bytes v)
         (resolve_floor gb (vs_total_bytes v)) False (gov_ladder g)))"
    by (simp add: raw_step_def Let_def)
  have rise: "?raw = 0 \<Longrightarrow> ?st \<le> gov_ladder g" by (auto simp: assms(4) tick_ladder)
  show ?thesis
    using le ge rise unfolding raw Let_def vol
    by (cases "sa_db_volume s") (auto split: if_splits)
qed

text \<open>
  C39: pruning is tried once. Two ticks in a row that find the data volume short with
  nothing worth evicting refuse new recordings, from whatever step.
\<close>

theorem two_short_ticks_refuse_recording:
  assumes "\<forall>(s, gb) \<in> {(s1, gb1), (s2, gb2)}. let flr = resolve_floor gb (vs_total_bytes (sa_data s))
      in vs_free_bytes (sa_data s) < flr \<and> \<not> evictable s flr"
  shows "ss_refuse_recording (gov_state (fst (gov_tick s2 gb2 t2 (fst (gov_tick s1 gb1 t1 g)))))"
proof -
  let ?g = "fst (gov_tick s1 gb1 t1 g)"
  have short: "2 \<le> volume_step (vs_free_bytes (sa_data s)) (resolve_floor gb (vs_total_bytes (sa_data s)))
      (evictable s (resolve_floor gb (vs_total_bytes (sa_data s)))) n \<and>
    (2 \<le> n \<longrightarrow> 3 \<le> volume_step (vs_free_bytes (sa_data s)) (resolve_floor gb (vs_total_bytes (sa_data s)))
      (evictable s (resolve_floor gb (vs_total_bytes (sa_data s)))) n)"
    if "(s, gb) \<in> {(s1, gb1), (s2, gb2)}" for s gb n
    using assms that by (auto simp: volume_step_def Let_def)
  have "2 \<le> gov_ladder ?g"
    using short [of s1 gb1 "gov_ladder g"] raw_step_ge [of s1 gb1 "gov_ladder g"]
      tick_ge_raw [of s1 gb1 g t1] by simp
  then show ?thesis
    using short [of s2 gb2 "gov_ladder ?g"] raw_step_ge [of s2 gb2 "gov_ladder ?g"]
      tick_ge_raw [of s2 gb2 ?g t2] by (simp add: ss_refuse_recording_def)
qed

text \<open>
  What a tick asks for. Captures are evicted exactly when a step is in force, there
  is something to delete and the data volume is below the floor times the recovery
  margin, and then up to that target, so space that is freed lets the ladder recover;
  a pressure prune starts exactly on entering step 2 or above; and recordings are
  never refused without the degraded flag.
\<close>

theorem tick_actions:
  assumes "(g', actions) = gov_tick s gb now g"
    and "flr = resolve_floor gb (vs_total_bytes (sa_data s))" "0 \<le> flr"
  shows "(ac_evict_to_free_bytes actions \<noteq> None \<longleftrightarrow>
      1 \<le> ss_step (gov_state g') \<and> (evictable s flr \<or> 0 < sa_old_bursts_bytes s) \<and>
      vs_free_bytes (sa_data s) < \<lfloor>of_int flr * (115 / 100 :: rat)\<rfloor>) \<and>
    (\<forall>target. ac_evict_to_free_bytes actions = Some target \<longrightarrow>
      target = \<lfloor>of_int flr * (115 / 100 :: rat)\<rfloor> \<and> flr \<le> target) \<and>
    (ac_start_pressure_prune actions \<longleftrightarrow> \<not> ss_pressure (gov_state g) \<and> ss_pressure (gov_state g')) \<and>
    (ss_refuse_recording (gov_state g') \<longrightarrow> ss_degraded (gov_state g')) \<and>
    (\<not> ss_refuse_recording (gov_state g) \<and> ss_refuse_recording (gov_state g') \<longrightarrow>
      ss_degraded_since (gov_state g') \<noteq> None)"
proof -
  let ?t = "py_int (of_int flr * RECOVERY_MARGIN)"
  have t: "?t = \<lfloor>of_int flr * (115 / 100 :: rat)\<rfloor>"
    using assms(3) by (simp add: py_int_def RECOVERY_MARGIN_def)
  have le: "flr \<le> ?t"
  proof -
    have "(of_int flr :: rat) \<le> of_int flr * (115 / 100)" using assms(3) by simp
    then show ?thesis unfolding t by (simp add: le_floor_iff)
  qed
  have g': "g' = fst (gov_tick s gb now g)" and ac: "actions = snd (gov_tick s gb now g)"
    using assms(1) by (metis fst_conv, metis snd_conv)
  have "ac_evict_to_free_bytes actions = (if 1 \<le> gov_ladder g' \<and>
      (evictable s flr \<or> 0 < sa_old_bursts_bytes s) \<and> vs_free_bytes (sa_data s) < ?t then Some ?t else None)"
    "ac_start_pressure_prune actions = (gov_ladder g < 2 \<and> 2 \<le> gov_ladder g')"
    "3 \<le> gov_ladder g' \<and> gov_ladder g < 3 \<Longrightarrow> ss_degraded_since (gov_state g') \<noteq> None"
    unfolding g' ac gov_tick_def Let_def assms(2) case_prod_beta by auto
  then show ?thesis
    using le by (auto simp: t ss_pressure_def ss_refuse_recording_def ss_degraded_def)
qed

section \<open>Young evictions\<close>

fun op_time :: "gov_op \<Rightarrow> int option" where
  "op_time (Tick s gb now) = Some now"
| "op_time (Note_Young n age now) = Some now"
| "op_time _ = None"

fun young_notes :: "gov_op list \<Rightarrow> (int \<times> int) list" where
  "young_notes [] = []"
| "young_notes (Note_Young n age now # ops) = (now, n) # young_notes ops"
| "young_notes (p # ops) = young_notes ops"

abbreviation window_us :: int where
  "window_us \<equiv> YOUNG_EVICTION_WINDOW_SEC * 1000000"

definition lapsed :: "int \<Rightarrow> (int \<times> int) \<Rightarrow> bool" where
  "lapsed now = (\<lambda>(w, _). window_us \<le> now - w)"

lemma young_notes_append [simp]: "young_notes (xs @ ys) = young_notes xs @ young_notes ys"
  by (induction xs rule: young_notes.induct) simp_all

lemma prune_young_lapsed: "prune_young now xs = (dropWhile (lapsed now) xs, (\<Sum>(_, c) \<leftarrow> dropWhile (lapsed now) xs. c))"
  by (simp add: prune_young_def lapsed_def Let_def)

lemma lapsed_mono: "m \<le> now \<Longrightarrow> lapsed m x \<Longrightarrow> lapsed now x"
  by (cases x) (simp add: lapsed_def)

lemma dropWhile_lapsed: "m \<le> now \<Longrightarrow> dropWhile (lapsed now) (dropWhile (lapsed m) xs) = dropWhile (lapsed now) xs"
  using lapsed_mono [of m now] by (induction xs) auto

lemma dropWhile_lapsed_sorted:
  "sorted (map fst xs) \<Longrightarrow> dropWhile (lapsed now) xs = filter (\<lambda>x. \<not> lapsed now x) xs"
proof (induction xs)
  case (Cons x xs)
  have "\<forall>y \<in> set xs. \<not> lapsed now y" if "\<not> lapsed now x"
    using Cons.prems that by (auto simp: lapsed_def split: prod.splits)
  with Cons show ?case by (auto simp: filter_True)
qed simp

lemma tick_young:
  "gov_young (fst (gov_tick s gb now g)) = dropWhile (lapsed now) (gov_young g)"
  "ss_young_evictions (gov_state (fst (gov_tick s gb now g))) =
    (\<Sum>(_, c) \<leftarrow> dropWhile (lapsed now) (gov_young g). c)"
  "ss_evicting_young (gov_state (fst (gov_tick s gb now g))) \<longleftrightarrow> dropWhile (lapsed now) (gov_young g) \<noteq> []"
  by (simp_all add: gov_tick_def Let_def case_prod_beta prune_young_lapsed)

lemma note_young:
  "gov_young (note_young_evictions n age now g) = (let young = dropWhile (lapsed now) (gov_young g) in
    if YOUNG_WINDOW_MAX_ENTRIES \<le> length young then butlast young @ [(now, snd (last young) + n)]
    else young @ [(now, n)])"
  by (simp add: note_young_evictions_def Let_def prune_young_lapsed)

lemma other_young [simp]:
  "gov_young (report_write_error msg t g) = gov_young g" "gov_young (clear_degraded g) = gov_young g"
  by (simp_all add: report_write_error_def clear_degraded_def Let_def)

lemma dropWhile_append_if:
  "dropWhile P (xs @ ys) = (if dropWhile P xs = [] then dropWhile P ys else dropWhile P xs @ ys)"
  by (induction xs) auto

lemma young_length: "length (gov_young (gov_run ops (governor_new t0))) \<le> length (young_notes ops)"
proof (induction ops rule: rev_induct)
  case Nil
  then show ?case by (simp add: governor_new_def)
next
  case (snoc p ops)
  have len: "length (dropWhile (lapsed t) (gov_young g)) \<le> length (gov_young g)" for t g
    by (rule length_dropWhile_le)
  show ?case
  proof (cases p)
    case (Note_Young n age now)
    then show ?thesis
      using snoc len [of now "gov_run ops (governor_new t0)"]
      by (auto simp: note_young Let_def)
  qed (use snoc len in \<open>auto simp: tick_young intro: order_trans\<close>)
qed

lemma young_agrees:
  assumes "length (young_notes ops) \<le> YOUNG_WINDOW_MAX_ENTRIES"
    and "\<forall>p \<in> set ops. \<forall>t. op_time p = Some t \<longrightarrow> t \<le> T"
  shows "dropWhile (lapsed T) (gov_young (gov_run ops (governor_new t0))) =
    dropWhile (lapsed T) (young_notes ops)"
  using assms
proof (induction ops rule: rev_induct)
  case Nil
  then show ?case by (simp add: governor_new_def)
next
  case (snoc p ops)
  let ?g = "gov_run ops (governor_new t0)"
  have IH: "dropWhile (lapsed T) (gov_young ?g) = dropWhile (lapsed T) (young_notes ops)"
    using snoc by simp
  show ?case
  proof (cases p)
    case (Tick s gb now)
    then have "now \<le> T" using snoc.prems(2) by simp
    then show ?thesis using IH Tick by (simp add: tick_young dropWhile_lapsed)
  next
    case (Note_Young n age now)
    then have now: "now \<le> T" using snoc.prems(2) by simp
    have "length (dropWhile (lapsed now) (gov_young ?g)) \<le> length (young_notes ops)"
      using young_length [of ops t0] length_dropWhile_le [of "lapsed now" "gov_young ?g"] by linarith
    then have "gov_young (gov_apply p ?g) = dropWhile (lapsed now) (gov_young ?g) @ [(now, n)]"
      using snoc.prems(1) Note_Young by (simp add: note_young Let_def)
    then show ?thesis
      using IH now Note_Young by (simp add: dropWhile_append_if dropWhile_lapsed)
  qed (use IH in simp_all)
qed

text \<open>
  The young-eviction warning counts exactly the window. After a tick, the count is
  the number of automatic captures evicted young in the last
  YOUNG_EVICTION_WINDOW_SEC seconds, and the warning is up exactly when an eviction
  was noted in it (clock not stepping back, at most 4096 notes, past which entries
  merge).
\<close>

theorem young_evictions_counted:
  assumes "g = gov_run ops (governor_new t0)" "st = gov_state (fst (gov_tick s gb now g))"
    and "length (young_notes ops) \<le> YOUNG_WINDOW_MAX_ENTRIES" "sorted (map fst (young_notes ops))"
    and "\<forall>p \<in> set ops. \<forall>t. op_time p = Some t \<longrightarrow> t \<le> now"
  defines "recent \<equiv> filter (\<lambda>(w, _). now - w < YOUNG_EVICTION_WINDOW_SEC * 1000000) (young_notes ops)"
  shows "ss_young_evictions st = (\<Sum>(_, c) \<leftarrow> recent. c) \<and> (ss_evicting_young st \<longleftrightarrow> recent \<noteq> [])"
proof -
  have "dropWhile (lapsed now) (gov_young g) = filter (\<lambda>x. \<not> lapsed now x) (young_notes ops)"
    using young_agrees [OF assms(3,5)] dropWhile_lapsed_sorted [OF assms(4)] assms(1) by simp
  also have "\<dots> = recent"
    unfolding recent_def by (rule filter_cong) (auto simp: lapsed_def)
  finally show ?thesis by (simp add: assms(2) tick_young)
qed

section \<open>The sticky flag survives a restart\<close>

inductive persist_step :: "persist_sys \<Rightarrow> persist_sys \<Rightarrow> bool" where
  operate: "persist_step s (s\<lparr>ps_gov := gov_apply p (ps_gov s)\<rparr>)"
| take: "ps_writing s = [] \<Longrightarrow> persist_step s (persist_take s)"
| put: "ps_writing s = v # rest \<Longrightarrow> persist_step s (persist_write v rest s)"
| fail: "ps_writing s = v # rest \<Longrightarrow> persist_step s (persist_fail reached v s)"

definition persist_start :: "int \<Rightarrow> int encoded option \<Rightarrow> json encoded option \<Rightarrow> persist_sys" where
  "persist_start now since err = \<lparr>ps_gov = restore_degraded since err (governor_new now),
     ps_since = since, ps_error = err, ps_writing = []\<rparr>"

inductive persist_reachable :: "persist_sys \<Rightarrow> bool" where
  start: "persist_reachable (persist_start now since err)"
| step: "persist_reachable s \<Longrightarrow> persist_step s s' \<Longrightarrow> persist_reachable s'"

definition sticky :: "governor \<Rightarrow> int option \<times> (string \<times> string) option" where
  "sticky g = (ss_degraded_since (gov_state g), ss_last_write_error (gov_state g))"

definition stored :: "persist_sys \<Rightarrow> int option \<times> (string \<times> string) option" where
  "stored s = (decode (ps_since s), Option.bind (decode (ps_error s)) write_error_of)"

definition persist_ok :: "persist_sys \<Rightarrow> bool" where
  "persist_ok s \<longleftrightarrow> gov_degraded_dirty (ps_gov s) \<or>
     stored (fold set_config (ps_writing s) s) = sticky (ps_gov s)"

lemma sticky_restore [simp]:
  "sticky (restore_degraded since err (governor_new now)) =
    (decode since, Option.bind (decode err) write_error_of)"
  by (cases "Option.bind (decode err) write_error_of")
    (auto simp: sticky_def restore_degraded_def governor_new_def Let_def)

lemma set_config_gov [simp]: "ps_gov (set_config v s) = ps_gov s" "ps_writing (set_config v s) = ps_writing s"
  by (cases v; simp)+

lemma fold_set_config_gov [simp]: "ps_gov (fold set_config vs s) = ps_gov s"
  by (induction vs arbitrary: s) simp_all

lemma set_config_commutes:
  "set_config v (s\<lparr>ps_gov := g\<rparr>) = (set_config v s)\<lparr>ps_gov := g\<rparr>"
  "set_config v (s\<lparr>ps_writing := w\<rparr>) = (set_config v s)\<lparr>ps_writing := w\<rparr>"
  by (cases v; simp)+

lemma fold_set_config_commutes:
  "fold set_config vs (s\<lparr>ps_gov := g\<rparr>) = (fold set_config vs s)\<lparr>ps_gov := g\<rparr>"
  "fold set_config vs (s\<lparr>ps_writing := w\<rparr>) = (fold set_config vs s)\<lparr>ps_writing := w\<rparr>"
  by (induction vs arbitrary: s) (simp_all add: set_config_commutes)

lemma stored_update [simp]: "stored (s\<lparr>ps_gov := g\<rparr>) = stored s" "stored (s\<lparr>ps_writing := w\<rparr>) = stored s"
  by (simp_all add: stored_def)

lemma gov_apply_clean:
  "\<not> gov_degraded_dirty (gov_apply p g) \<Longrightarrow> \<not> gov_degraded_dirty g \<and> sticky (gov_apply p g) = sticky g"
  by (cases p) (auto simp: gov_tick_def Let_def case_prod_beta sticky_def report_write_error_def
      note_young_evictions_def clear_degraded_def)

lemma persist_ok_reachable: "persist_reachable s \<Longrightarrow> persist_ok s"
proof (induction rule: persist_reachable.induct)
  case (start now since err)
  show ?case by (simp add: persist_ok_def persist_start_def stored_def)
next
  case (step s s')
  from step.hyps(2) step.IH show ?case
  proof cases
    case (operate p)
    then show ?thesis
      using step.IH gov_apply_clean [of p "ps_gov s"]
      by (cases "gov_degraded_dirty (gov_apply p (ps_gov s))")
        (auto simp: persist_ok_def fold_set_config_commutes)
  next
    case take
    then show ?thesis
      using step.IH by (auto simp: persist_ok_def persist_take_def take_degraded_change_def stored_def
          sticky_def since_value_def error_value_def decode_def write_error_of_def split: option.splits)
  next
    case (put v rest)
    then show ?thesis
      using step.IH by (simp add: persist_ok_def persist_write_def fold_set_config_commutes)
  next
    case (fail v rest reached)
    then show ?thesis by (simp add: persist_ok_def persist_fail_def mark_degraded_dirty_def Let_def)
  qed
qed

text \<open>
  C22: the sticky flag survives a restart. Whatever happened since the start (ticks,
  write errors, clears, while a persisting pass is under way or not, passes that
  failed with or without their write reaching the table): once nothing is dirty and
  no pass is under way, a governor restored from the configuration table has the
  running governor's degraded flag and last write error.
\<close>

theorem degraded_survives_restart:
  assumes "persist_reachable s" "\<not> gov_degraded_dirty (ps_gov s)" "ps_writing s = []"
    and "g = restore_degraded (ps_since s) (ps_error s) (governor_new now)"
  shows "ss_degraded_since (gov_state g) = ss_degraded_since (gov_state (ps_gov s)) \<and>
    ss_last_write_error (gov_state g) = ss_last_write_error (gov_state (ps_gov s))"
proof -
  have "stored s = sticky (ps_gov s)"
    using persist_ok_reachable [OF assms(1)] assms(2,3) by (simp add: persist_ok_def)
  moreover have "sticky g = stored s" by (simp add: assms(4) stored_def)
  ultimately show ?thesis by (simp add: sticky_def)
qed

section \<open>Examples\<close>

definition ex_sample :: "int \<Rightarrow> bool \<Rightarrow> storage_sample" where
  "ex_sample free can = \<lparr>sa_data = \<lparr>vs_free_bytes = free * GB, vs_total_bytes = 1000 * GB\<rparr>,
     sa_db_volume = None, sa_db_file_bytes = 0, sa_db_reusable_bytes = 0, sa_auto_bytes = 0,
     sa_manual_bytes = 0, sa_evictable_auto = can, sa_bursts_bytes = 0, sa_old_bursts_bytes = 0,
     sa_priority_bytes = 0\<rparr>"

definition ex_ops :: "gov_op list" where
  "ex_ops = [Tick (ex_sample 40 True) 0 1, Tick (ex_sample 60 True) 0 2, Tick (ex_sample 60 True) 0 3]"

theorem step_drops_after_recovery_witness:
  "RECOVERY_TICKS \<le> recovered_streak (ex_ops @ [Tick (ex_sample 60 True) 0 4])"
proof (rule step_drops_after_recovery [OF refl, where ?t0.0 = 0])
  show "ss_step (gov_state (fst (gov_tick (ex_sample 60 True) 0 4 (gov_run ex_ops (governor_new 0)))))
      < ss_step (gov_state (gov_run ex_ops (governor_new 0)))"
    by code_simp
qed

theorem tick_answers_shortage_witness:
  "1 \<le> ss_step (gov_state (fst (gov_tick (ex_sample 40 True) 0 1 (governor_new 0))))"
proof -
  have "vs_free_bytes (sa_data (ex_sample 40 True)) <
      resolve_floor 0 (vs_total_bytes (sa_data (ex_sample 40 True)))"
    by code_simp
  then show ?thesis
    using tick_answers_shortage [where ops = "[]", OF _ refl, of "governor_new 0" 0 "ex_sample 40 True" 0 1]
    by simp
qed

theorem two_short_ticks_refuse_recording_witness:
  "ss_refuse_recording (gov_state (fst (gov_tick (ex_sample 40 False) 0 2
    (fst (gov_tick (ex_sample 40 False) 0 1 (governor_new 0))))))"
  by (rule two_short_ticks_refuse_recording) code_simp

theorem tick_actions_witness:
  "ac_evict_to_free_bytes (snd (gov_tick (ex_sample 40 True) 0 1 (governor_new 0))) \<noteq> None"
proof -
  let ?flr = "resolve_floor 0 (vs_total_bytes (sa_data (ex_sample 40 True)))"
  have "0 \<le> ?flr" "1 \<le> ss_step (gov_state (fst (gov_tick (ex_sample 40 True) 0 1 (governor_new 0))))"
    "evictable (ex_sample 40 True) ?flr"
    "vs_free_bytes (sa_data (ex_sample 40 True)) < \<lfloor>of_int ?flr * (115 / 100 :: rat)\<rfloor>"
    by code_simp+
  then show ?thesis
    using tick_actions [OF surjective_pairing [symmetric] refl, where s = "ex_sample 40 True" and gb = 0 and now = 1
        and g = "governor_new 0"]
    by simp
qed

theorem young_evictions_counted_witness:
  "ss_young_evictions (gov_state (fst (gov_tick (ex_sample 60 True) 0 1800000000
    (gov_run [Note_Young 2 5 0, Note_Young 3 6 1000] (governor_new 0))))) = 3"
proof -
  have "length (young_notes [Note_Young 2 5 0, Note_Young 3 6 1000]) \<le> YOUNG_WINDOW_MAX_ENTRIES"
    "sorted (map fst (young_notes [Note_Young 2 5 0, Note_Young 3 6 1000]))"
    by code_simp+
  then show ?thesis
    using young_evictions_counted [OF refl refl, where now = 1800000000 and ?t0.0 = 0 and gb = 0
        and s = "ex_sample 60 True" and ops = "[Note_Young 2 5 0, Note_Young 3 6 1000]"]
    by (simp add: YOUNG_EVICTION_WINDOW_SEC_def)
qed

definition ex_persist :: persist_sys where
  "ex_persist = persist_write (WriteError (Encoded (JObj [(''at'', JStr (isoformat_utc 5)),
       (''error'', JStr ''ENOSPC'')]))) []
     (persist_write (Since (Encoded 5)) [WriteError (Encoded (JObj [(''at'', JStr (isoformat_utc 5)),
       (''error'', JStr ''ENOSPC'')]))]
     (persist_take ((persist_start 0 None None)\<lparr>ps_gov := gov_apply (Report ''ENOSPC'' 5)
       (ps_gov (persist_start 0 None None))\<rparr>)))"

theorem degraded_survives_restart_witness:
  "ss_degraded_since (gov_state (restore_degraded (ps_since ex_persist) (ps_error ex_persist)
    (governor_new 9))) = Some 5"
proof -
  let ?a = "persist_start 0 None None"
  let ?b = "?a\<lparr>ps_gov := gov_apply (Report ''ENOSPC'' 5) (ps_gov ?a)\<rparr>"
  let ?e = "WriteError (Encoded (JObj [(''at'', JStr (isoformat_utc 5)), (''error'', JStr ''ENOSPC'')]))"
  have b: "persist_reachable ?b" by (rule persist_reachable.step [OF persist_reachable.start operate])
  have c: "persist_reachable (persist_take ?b)"
    by (rule persist_reachable.step [OF b take]) (simp add: persist_start_def)
  have w: "ps_writing (persist_take ?b) = [Since (Encoded 5), ?e]"
    by (simp add: persist_take_def take_degraded_change_def persist_start_def restore_degraded_def
        governor_new_def report_write_error_def since_value_def error_value_def decode_def Let_def)
  have d: "persist_reachable (persist_write (Since (Encoded 5)) [?e] (persist_take ?b))"
    by (rule persist_reachable.step [OF c put [OF w]])
  have "persist_reachable ex_persist"
    unfolding ex_persist_def
    by (rule persist_reachable.step [OF d put]) (simp add: persist_write_def)
  moreover have "\<not> gov_degraded_dirty (ps_gov ex_persist)" "ps_writing ex_persist = []"
    "ss_degraded_since (gov_state (ps_gov ex_persist)) = Some 5"
    by (simp_all add: ex_persist_def persist_write_def persist_take_def take_degraded_change_def
        persist_start_def restore_degraded_def governor_new_def report_write_error_def decode_def Let_def)
  ultimately show ?thesis using degraded_survives_restart [OF _ _ _ refl] by simp
qed

end
