(* ===== verification/Supervisor.thy ===== *)
theory Supervisor
  imports Prelude "HOL-Library.Multiset"
begin

text \<open>
  \<open>pipeline/supervisor.py\<close>: the owner of the receiver and the processing task. A
  section under the asyncio lock is one step; the parts of a method outside it are
  steps of their own, so the steps of concurrent calls interleave. Receivers and
  processors are numbered as they are built. Whether building, opening and closing
  succeed comes from outside, as an outcome of each step; \<open>su_open\<close> is the set of
  receivers whose hardware is claimed, \<open>su_log\<close> what the hooks were called with.
\<close>

section \<open>State\<close>

definition CRASH_RESET_WINDOW_SEC :: rat where "CRASH_RESET_WINDOW_SEC = 120"
definition MAX_CONSECUTIVE_CRASH_RESTARTS :: nat where "MAX_CONSECUTIVE_CRASH_RESTARTS = 5"
definition CRASH_BACKOFF_CAP_SEC :: rat where "CRASH_BACKOFF_CAP_SEC = 30"

datatype hook = Processor_Change "nat option" | Give_Up

text \<open>A crash handler between its steps: scheduled, asleep in its backoff, or about to give up.\<close>

datatype handler = Scheduled | Sleeping rat | Giving_Up

record sup =
  su_receiver :: "nat option"
  su_processor :: "nat option"
  su_active :: bool
  su_override :: "nat option"
  su_replay :: bool
  su_crashes :: nat
  su_last_crash :: rat
  su_gave_up :: bool
  su_next :: nat
  su_open :: "nat list"
  su_log :: "hook list"
  su_handlers :: "handler list"
  su_replays :: "nat list"

record outcome =
  oc_build_receiver :: bool
  oc_initialize :: bool
  oc_build_processor :: bool
  oc_close :: bool

definition sup_new :: sup where
  "sup_new = \<lparr>su_receiver = None, su_processor = None, su_active = False, su_override = None,
     su_replay = False, su_crashes = 0, su_last_crash = 0, su_gave_up = False, su_next = 0,
     su_open = [], su_log = [], su_handlers = [], su_replays = []\<rparr>"

section \<open>Starting and stopping\<close>

definition notify :: "nat option \<Rightarrow> sup \<Rightarrow> sup" where
  "notify p s = s\<lparr>su_log := su_log s @ [Processor_Change p]\<rparr>"

text \<open>\<open>_start\<close>: the new state, and whether it returned (False when it raised).\<close>

definition sup_start :: "outcome \<Rightarrow> sup \<Rightarrow> sup \<times> bool" where
  "sup_start oc s =
     (case (case su_override s of Some r \<Rightarrow> Some (r, s)
        | None \<Rightarrow> if oc_build_receiver oc then Some (su_next s, s\<lparr>su_next := su_next s + 1\<rparr>) else None) of
        None \<Rightarrow> (s, False)
      | Some (r, s) \<Rightarrow>
          if \<not> oc_initialize oc then (s, False)
          else (let s = s\<lparr>su_open := su_open s @ [r]\<rparr> in
            if \<not> oc_build_processor oc then (s, False)
            else (let p = su_next s;
                      s = s\<lparr>su_next := p + 1, su_receiver := Some r, su_processor := Some p,
                            su_active := True\<rparr>
                  in (notify (Some p) s, True))))"

text \<open>\<open>_stop\<close>: the task is awaited (cancelled when it does not end), the receiver closed.\<close>

definition sup_stop :: "outcome \<Rightarrow> sup \<Rightarrow> sup \<times> bool" where
  "sup_stop oc s =
     (if su_receiver s \<noteq> None \<and> \<not> oc_close oc then (s, False)
      else (let s = (case su_receiver s of None \<Rightarrow> s
                     | Some r \<Rightarrow> s\<lparr>su_open := filter (\<lambda>x. x \<noteq> r) (su_open s)\<rparr>);
                s = s\<lparr>su_processor := None, su_receiver := None, su_active := False,
                      su_override := None, su_replay := False\<rparr>
            in (notify None s, True)))"

section \<open>The operations\<close>

definition set_active :: "bool \<Rightarrow> outcome \<Rightarrow> sup \<Rightarrow> sup \<times> bool option" where
  "set_active active oc s =
     (let (s, ok) =
        (if active \<and> \<not> su_active s then sup_start oc (s\<lparr>su_crashes := 0, su_gave_up := False\<rparr>)
         else if \<not> active \<and> su_active s then sup_stop oc s
         else (s, True))
      in (s, if ok then Some (su_active s) else None))"

text \<open>\<open>start_replay\<close> up to its lock, and under it.\<close>

definition start_replay_enter :: "nat \<Rightarrow> outcome \<Rightarrow> sup \<Rightarrow> sup" where
  "start_replay_enter r oc s =
     (if su_active s then
        (case set_active False oc s of
           (s, None) \<Rightarrow> s
         | (s, Some _) \<Rightarrow> s\<lparr>su_replays := su_replays s @ [r]\<rparr>)
      else s\<lparr>su_replays := su_replays s @ [r]\<rparr>)"

definition start_replay_locked :: "nat \<Rightarrow> outcome \<Rightarrow> sup \<Rightarrow> sup" where
  "start_replay_locked r oc s =
     fst (sup_start oc (s\<lparr>su_replays := remove1 r (su_replays s), su_override := Some r,
       su_replay := True, su_gave_up := False\<rparr>))"

definition stop_replay :: "outcome \<Rightarrow> sup \<Rightarrow> sup" where
  "stop_replay oc s =
     (let (s, ok) = (if su_active s then sup_stop oc s else (s, True))
      in if ok then s\<lparr>su_override := None, su_replay := False\<rparr> else s)"

record replay_attrs =
  ra_source_name :: "string option"
  ra_speed :: "rat option"
  ra_loop :: "bool option"
  ra_exhausted :: "bool option"

record replay_info =
  ri_source :: string
  ri_speed :: rat
  ri_looping :: bool
  ri_finished :: bool

definition replay_status :: "(nat \<Rightarrow> replay_attrs) \<Rightarrow> sup \<Rightarrow> replay_info option" where
  "replay_status attrs s =
     (if \<not> su_replay s then None
      else case su_receiver s of None \<Rightarrow> None
      | Some r \<Rightarrow> let rx = attrs r in Some \<lparr>
          ri_source = (case ra_source_name rx of Some (c # cs) \<Rightarrow> c # cs | _ \<Rightarrow> ''replay''),
          ri_speed = (case ra_speed rx of Some v \<Rightarrow> v | None \<Rightarrow> 1),
          ri_looping = (case ra_loop rx of Some b \<Rightarrow> b | None \<Rightarrow> False),
          ri_finished = (case ra_exhausted rx of Some b \<Rightarrow> b | None \<Rightarrow> False)\<rparr>)"

text \<open>\<open>_on_task_done\<close> for a task that died with an exception while no stop is in progress.\<close>

definition on_task_crash :: "sup \<Rightarrow> sup" where
  "on_task_crash s = (if su_active s then s\<lparr>su_handlers := su_handlers s @ [Scheduled]\<rparr> else s)"

text \<open>\<open>_restart_after_crash\<close>: up to its lock, then its two locked sections.\<close>

definition crash_backoff :: "nat \<Rightarrow> rat" where
  "crash_backoff crashes = min (2 ^ (crashes - 1)) CRASH_BACKOFF_CAP_SEC"

definition crash_handler_begin :: "rat \<Rightarrow> sup \<Rightarrow> sup \<times> handler" where
  "crash_handler_begin now s =
     (let s = (if CRASH_RESET_WINDOW_SEC < now - su_last_crash s then s\<lparr>su_crashes := 0\<rparr> else s);
          s = s\<lparr>su_last_crash := now, su_crashes := su_crashes s + 1\<rparr>
      in (s, if MAX_CONSECUTIVE_CRASH_RESTARTS < su_crashes s then Giving_Up
             else Sleeping (crash_backoff (su_crashes s))))"

definition crash_give_up :: "outcome \<Rightarrow> sup \<Rightarrow> sup" where
  "crash_give_up oc s =
     (if su_active s \<and> \<not> su_replay s then
        (let (s, ok) = sup_stop oc s
         in if ok then s\<lparr>su_gave_up := True, su_log := su_log s @ [Give_Up]\<rparr> else s)
      else s)"

definition crash_wake :: "outcome \<Rightarrow> sup \<Rightarrow> sup" where
  "crash_wake oc s =
     (if \<not> su_active s \<or> su_replay s then s
      else
        (let (s, ok) = sup_stop oc s
         in if \<not> ok then s
            else (let (s, ok) = sup_start oc s
                  in if ok then s else s\<lparr>su_gave_up := True, su_log := su_log s @ [Give_Up]\<rparr>)))"

definition sup_restart :: "outcome \<Rightarrow> sup \<Rightarrow> sup" where
  "sup_restart oc s =
     (if \<not> su_active s \<or> su_replay s then s
      else (let (s, ok) = sup_stop oc s in if ok then fst (sup_start oc s) else s))"

section \<open>All interleavings\<close>

datatype sup_event =
  Set_Active bool outcome
| Replay_Enter nat outcome
| Replay_Locked nat outcome
| Stop_Replay outcome
| Crash
| Handler_Begin rat
| Handler_Wake rat outcome
| Handler_Give_Up outcome
| Restart outcome

fun sup_enabled :: "sup_event \<Rightarrow> sup \<Rightarrow> bool" where
  "sup_enabled (Replay_Enter r oc) s = (r = su_next s)"
| "sup_enabled (Replay_Locked r oc) s = (r \<in> set (su_replays s))"
| "sup_enabled (Handler_Begin now) s = (Scheduled \<in> set (su_handlers s))"
| "sup_enabled (Handler_Wake d oc) s = (Sleeping d \<in> set (su_handlers s))"
| "sup_enabled (Handler_Give_Up oc) s = (Giving_Up \<in> set (su_handlers s))"
| "sup_enabled _ s = True"

definition drop_handler :: "handler \<Rightarrow> sup \<Rightarrow> sup" where
  "drop_handler h s = s\<lparr>su_handlers := remove1 h (su_handlers s)\<rparr>"

fun sup_apply :: "sup_event \<Rightarrow> sup \<Rightarrow> sup" where
  "sup_apply (Set_Active b oc) s = fst (set_active b oc s)"
| "sup_apply (Replay_Enter r oc) s = start_replay_enter r oc (s\<lparr>su_next := su_next s + 1\<rparr>)"
| "sup_apply (Replay_Locked r oc) s = start_replay_locked r oc s"
| "sup_apply (Stop_Replay oc) s = stop_replay oc s"
| "sup_apply Crash s = on_task_crash s"
| "sup_apply (Handler_Begin now) s =
     (let (s, h) = crash_handler_begin now (drop_handler Scheduled s)
      in s\<lparr>su_handlers := su_handlers s @ [h]\<rparr>)"
| "sup_apply (Handler_Wake d oc) s = crash_wake oc (drop_handler (Sleeping d) s)"
| "sup_apply (Handler_Give_Up oc) s = crash_give_up oc (drop_handler Giving_Up s)"
| "sup_apply (Restart oc) s = sup_restart oc s"

inductive sup_reachable :: "sup \<Rightarrow> bool" where
  new: "sup_reachable sup_new"
| event: "sup_reachable s \<Longrightarrow> sup_enabled e s \<Longrightarrow> sup_reachable (sup_apply e s)"

section \<open>One receiver at a time\<close>

text \<open>
  An event is orderly when the sensor is still stopped as a replay takes the lock and
  the processor of an opened receiver can be built.
\<close>

fun event_outcome :: "sup_event \<Rightarrow> outcome option" where
  "event_outcome (Set_Active b oc) = Some oc"
| "event_outcome (Replay_Enter r oc) = Some oc"
| "event_outcome (Replay_Locked r oc) = Some oc"
| "event_outcome (Stop_Replay oc) = Some oc"
| "event_outcome (Handler_Wake d oc) = Some oc"
| "event_outcome (Handler_Give_Up oc) = Some oc"
| "event_outcome (Restart oc) = Some oc"
| "event_outcome _ = None"



text \<open>What the processor-change hook was last told.\<close>

fun last_change :: "hook list \<Rightarrow> nat option" where
  "last_change [] = None"
| "last_change (h # hs) = (if list_ex (\<lambda>h. h \<noteq> Give_Up) hs then last_change hs
     else case h of Processor_Change p \<Rightarrow> p | Give_Up \<Rightarrow> None)"

lemma last_change_snoc [simp]:
  "last_change (hs @ [Processor_Change p]) = p" "last_change (hs @ [Give_Up]) = last_change hs"
  by (induction hs) auto

definition sup_ok :: "sup \<Rightarrow> bool" where
  "sup_ok s \<longleftrightarrow> su_open s = (case su_receiver s of None \<Rightarrow> [] | Some r \<Rightarrow> [r]) \<and>
     (su_active s \<longleftrightarrow> su_receiver s \<noteq> None) \<and> (su_processor s = None \<longleftrightarrow> su_receiver s = None) \<and>
     (su_gave_up s \<longrightarrow> \<not> su_active s) \<and> last_change (su_log s) = su_processor s"



lemma sup_ok_update [simp]:
  "sup_ok (s\<lparr>su_crashes := n\<rparr>) = sup_ok s" "sup_ok (s\<lparr>su_last_crash := t\<rparr>) = sup_ok s"
  "sup_ok (s\<lparr>su_override := r\<rparr>) = sup_ok s" "sup_ok (s\<lparr>su_replay := b\<rparr>) = sup_ok s"
  "sup_ok (s\<lparr>su_next := k\<rparr>) = sup_ok s" "sup_ok (s\<lparr>su_handlers := hs\<rparr>) = sup_ok s"
  "sup_ok (s\<lparr>su_replays := rs\<rparr>) = sup_ok s"
  by (simp_all add: sup_ok_def)





definition all_fine :: outcome where
  "all_fine = \<lparr>oc_build_receiver = True, oc_initialize = True, oc_build_processor = True, oc_close = True\<rparr>"


text \<open>
  \<open>start_replay\<close> can overtake an activation. It looks at \<open>_active\<close> and stops the
  sensor before it takes the lock, so an activation that runs in between is not
  stopped: with every step succeeding, two receivers are claimed at once and the
  live one is no longer reachable through the supervisor.
\<close>

theorem replay_race_claims_two_receivers:
  "\<exists>s e. sup_reachable s \<and> sup_enabled e s \<and> event_outcome e = Some all_fine \<and>
    (\<exists>r r'. r \<noteq> r' \<and> su_open (sup_apply e s) = [r, r'] \<and> su_receiver (sup_apply e s) = Some r')"
proof -
  let ?a = "sup_apply (Replay_Enter 0 all_fine) sup_new"
  let ?b = "sup_apply (Set_Active True all_fine) ?a"
  have a: "sup_reachable ?a" by (rule sup_reachable.event [OF sup_reachable.new]) (simp add: sup_new_def)
  have b: "sup_reachable ?b" by (rule sup_reachable.event [OF a]) simp
  have "sup_enabled (Replay_Locked 0 all_fine) ?b" by code_simp
  moreover have "su_open (sup_apply (Replay_Locked 0 all_fine) ?b) = [1, 0]"
    "su_receiver (sup_apply (Replay_Locked 0 all_fine) ?b) = Some 0"
    by code_simp+
  ultimately show ?thesis using b
    by (intro exI [of _ ?b] exI [of _ "Replay_Locked 0 all_fine"] conjI exI [of _ 1] exI [of _ 0]) auto
qed



section \<open>Crash restarts\<close>





definition asleep :: "sup \<Rightarrow> nat" where
  "asleep s = length (filter (\<lambda>h. case h of Sleeping d \<Rightarrow> True | _ \<Rightarrow> False) (su_handlers s))"

lemma start_stop_keep [simp]:
  "su_handlers (fst (sup_start oc s)) = su_handlers s" "su_crashes (fst (sup_start oc s)) = su_crashes s"
  "su_last_crash (fst (sup_start oc s)) = su_last_crash s"
  "su_handlers (fst (sup_stop oc s)) = su_handlers s" "su_crashes (fst (sup_stop oc s)) = su_crashes s"
  "su_last_crash (fst (sup_stop oc s)) = su_last_crash s"
  by (auto simp: sup_start_def sup_stop_def notify_def Let_def split: option.splits)



lemma asleep_handlers [simp]:
  "asleep (s\<lparr>su_handlers := hs\<rparr>) = length (filter (\<lambda>h. case h of Sleeping d \<Rightarrow> True | _ \<Rightarrow> False) hs)"
  by (simp add: asleep_def)

lemma asleep_cong: "su_handlers s' = su_handlers s \<Longrightarrow> asleep s' = asleep s"
  by (simp add: asleep_def)








text \<open>
  What handling one crash does. It waits for min(2^(n-1), 30) seconds for the n-th
  crash of a streak; on waking it leaves a stopped or replaying sensor alone, and
  otherwise the sensor ends up either running on a newly opened receiver or stopped
  with the give-up flag and hook, unless closing the old receiver failed. Giving up
  stops an active live sensor, flags it and calls the hook.
\<close>

theorem crash_handling:
  assumes "sup_ok s" "oc_build_processor oc"
  shows "(\<forall>now h s'. (s', h) = crash_handler_begin now s \<longrightarrow>
      su_active s' = su_active s \<and> su_open s' = su_open s \<and>
      (h = Giving_Up \<or> h = Sleeping (min (2 ^ (su_crashes s' - 1)) 30) \<and> su_crashes s' \<le> 5)) \<and>
    (\<not> su_active s \<or> su_replay s \<longrightarrow> crash_wake oc s = s \<and> crash_give_up oc s = s) \<and>
    (su_active s \<and> \<not> su_replay s \<and> oc_close oc \<longrightarrow>
      (let s' = crash_wake oc s in
         su_active s' \<and> su_receiver s' = Some (su_next s) \<and> su_open s' = [su_next s] \<and> \<not> su_gave_up s' \<or>
         \<not> su_active s' \<and> su_open s' = [] \<and> su_gave_up s' \<and> last (su_log s') = Give_Up) \<and>
      (let s' = crash_give_up oc s in
         \<not> su_active s' \<and> su_open s' = [] \<and> su_gave_up s' \<and> last (su_log s') = Give_Up))"
proof -
  have b: "(h = Giving_Up \<or> h = Sleeping (min (2 ^ (su_crashes s' - 1)) 30) \<and> su_crashes s' \<le> 5) \<and>
      su_active s' = su_active s \<and> su_open s' = su_open s"
    if "(s', h) = crash_handler_begin now s" for now h s'
    using that by (auto simp: crash_handler_begin_def Let_def crash_backoff_def CRASH_BACKOFF_CAP_SEC_def
        MAX_CONSECUTIVE_CRASH_RESTARTS_def split: if_splits)
  have "su_active s \<and> \<not> su_replay s \<and> oc_close oc \<Longrightarrow>
      (let s' = crash_wake oc s in
         su_active s' \<and> su_receiver s' = Some (su_next s) \<and> su_open s' = [su_next s] \<and> \<not> su_gave_up s' \<or>
         \<not> su_active s' \<and> su_open s' = [] \<and> su_gave_up s' \<and> last (su_log s') = Give_Up)"
    using assms by (auto simp: crash_wake_def sup_stop_def sup_start_def notify_def sup_ok_def Let_def)
  moreover have "su_active s \<and> \<not> su_replay s \<and> oc_close oc \<Longrightarrow>
      (let s' = crash_give_up oc s in
         \<not> su_active s' \<and> su_open s' = [] \<and> su_gave_up s' \<and> last (su_log s') = Give_Up)"
    using assms by (auto simp: crash_give_up_def sup_stop_def notify_def sup_ok_def Let_def)
  moreover have "\<not> su_active s \<or> su_replay s \<longrightarrow> crash_wake oc s = s \<and> crash_give_up oc s = s"
    by (auto simp: crash_wake_def crash_give_up_def)
  ultimately show ?thesis using b by blast
qed

theorem crash_handling_witness:
  "su_open (crash_give_up all_fine (sup_apply (Set_Active True all_fine) sup_new)) = []"
proof -
  let ?s = "sup_apply (Set_Active True all_fine) sup_new"
  have "sup_ok ?s" "su_active ?s \<and> \<not> su_replay ?s \<and> oc_close all_fine" "oc_build_processor all_fine"
    by code_simp+
  then show ?thesis using crash_handling [of ?s all_fine] by (simp add: Let_def)
qed

end
