(* ===== verification/Rollup.thy ===== *)
theory Rollup
  imports Prelude "HOL-Library.AList"
begin

text \<open>
  \<open>storage/rollup.py\<close>: the per-minute rollup of averaged windows and the peak
  selection over it. Values are exact rationals, peak times microseconds since the
  epoch, a dict an association list in insertion order.
\<close>

section \<open>Folding windows into minutes\<close>

record window_row =
  wr_start_time :: string
  wr_center :: rat
  wr_sample_rate :: "rat option"
  wr_gain :: "rat option"
  wr_pwr_max :: "rat option"
  wr_pwr_median :: "rat option"
  wr_pwr_avg :: "rat option"

datatype metric = Pwr_Max | Pwr_Snr | Pwr_Avg

definition METRICS :: "metric list" where
  "METRICS = [Pwr_Max, Pwr_Snr, Pwr_Avg]"

record minute_summary =
  ms_minute_start :: string
  ms_center :: rat
  ms_n :: nat
  ms_sample_rate :: "rat option"
  ms_gain :: "rat option"
  ms_pwr_max :: "rat option"
  ms_pwr_snr :: "rat option"
  ms_pwr_avg :: "rat option"
  ms_peak_max_time :: "string option"
  ms_peak_snr_time :: "string option"
  ms_peak_avg_time :: "string option"

definition MINUTE_KEY_LEN :: nat where "MINUTE_KEY_LEN = 16"

definition minute_key :: "string \<Rightarrow> string" where
  "minute_key start_time = take MINUTE_KEY_LEN start_time"

fun metric_value :: "window_row \<Rightarrow> metric \<Rightarrow> rat option" where
  "metric_value row Pwr_Max = wr_pwr_max row"
| "metric_value row Pwr_Avg = wr_pwr_avg row"
| "metric_value row Pwr_Snr = (case (wr_pwr_max row, wr_pwr_median row) of
     (Some a, Some b) \<Rightarrow> Some (a - b) | _ \<Rightarrow> None)"

record acc =
  ac_n :: nat
  ac_sample_rate :: "rat option"
  ac_gain :: "rat option"
  ac_values :: "metric \<Rightarrow> rat option"
  ac_times :: "metric \<Rightarrow> string option"

definition acc_metric :: "window_row \<Rightarrow> metric \<Rightarrow> acc \<Rightarrow> acc" where
  "acc_metric row m a = (case metric_value row m of None \<Rightarrow> a
     | Some value \<Rightarrow>
       (if (case ac_values a m of None \<Rightarrow> True | Some current \<Rightarrow> current < value)
        then a\<lparr>ac_values := (ac_values a)(m := Some value),
               ac_times := (ac_times a)(m := Some (wr_start_time row))\<rparr> else a))"

definition row_key :: "window_row \<Rightarrow> string \<times> rat" where
  "row_key row = (minute_key (wr_start_time row), wr_center row)"

definition fold_row :: "window_row \<Rightarrow> ((string \<times> rat) \<times> acc) list \<Rightarrow> ((string \<times> rat) \<times> acc) list" where
  "fold_row row best =
     (let key = row_key row;
          a = (case map_of best key of
                 None \<Rightarrow> \<lparr>ac_n = 0, ac_sample_rate = wr_sample_rate row, ac_gain = wr_gain row,
                          ac_values = (\<lambda>_. None), ac_times = (\<lambda>_. None)\<rparr>
               | Some a \<Rightarrow> a);
          a = a\<lparr>ac_n := ac_n a + 1\<rparr>
      in AList.update key (fold (acc_metric row) METRICS a) best)"

definition summary_of :: "(string \<times> rat) \<times> acc \<Rightarrow> minute_summary" where
  "summary_of = (\<lambda>((minute, center), a). \<lparr>ms_minute_start = minute, ms_center = center,
     ms_n = ac_n a, ms_sample_rate = ac_sample_rate a, ms_gain = ac_gain a,
     ms_pwr_max = ac_values a Pwr_Max, ms_pwr_snr = ac_values a Pwr_Snr,
     ms_pwr_avg = ac_values a Pwr_Avg, ms_peak_max_time = ac_times a Pwr_Max,
     ms_peak_snr_time = ac_times a Pwr_Snr, ms_peak_avg_time = ac_times a Pwr_Avg\<rparr>)"

definition fold_windows :: "window_row list \<Rightarrow> minute_summary list" where
  "fold_windows rows = map summary_of (fold fold_row rows [])"

section \<open>Selecting peaks\<close>

record candidate =
  ca_peak_time :: int
  ca_value :: rat
  ca_pwr_max :: "rat option"
  ca_pwr_snr :: "rat option"
  ca_pwr_avg :: "rat option"

record peak =
  pk_rank :: nat
  pk_peak_time :: int
  pk_since :: int
  pk_until :: int
  pk_value :: rat
  pk_pwr_max :: "rat option"
  pk_pwr_snr :: "rat option"
  pk_pwr_avg :: "rat option"

text \<open>The selection loop over the candidates, already ranked.\<close>

fun choose_peaks :: "int \<Rightarrow> int \<Rightarrow> candidate list \<Rightarrow> candidate list \<Rightarrow> candidate list" where
  "choose_peaks gap cnt chosen [] = chosen"
| "choose_peaks gap cnt chosen (c # cs) =
     (if int (length chosen) = cnt then chosen
      else if list_ex (\<lambda>d. \<bar>ca_peak_time c - ca_peak_time d\<bar> < gap) chosen
      then choose_peaks gap cnt chosen cs
      else choose_peaks gap cnt (chosen @ [c]) cs)"

definition rank_candidates :: "candidate list \<Rightarrow> candidate list" where
  "rank_candidates cs = sort_key (\<lambda>c. - ca_value c) cs"

definition peak_of :: "int \<Rightarrow> int \<Rightarrow> nat \<times> candidate \<Rightarrow> peak" where
  "peak_of half now = (\<lambda>(rank, c). \<lparr>pk_rank = rank, pk_peak_time = ca_peak_time c,
     pk_since = ca_peak_time c - half, pk_until = min (ca_peak_time c + half) now,
     pk_value = ca_value c, pk_pwr_max = ca_pwr_max c, pk_pwr_snr = ca_pwr_snr c,
     pk_pwr_avg = ca_pwr_avg c\<rparr>)"

definition select_peaks :: "candidate list \<Rightarrow> int \<Rightarrow> int \<Rightarrow> int \<Rightarrow> peak list" where
  "select_peaks candidates window_sec cnt now =
     (let half = window_sec * 500000; gap = window_sec * 1000000;
          chosen = choose_peaks gap cnt [] (rank_candidates candidates)
      in map (peak_of half now) (zip [1..<Suc (length chosen)] chosen))"

section \<open>What the rollup is\<close>

definition acc_row :: "acc option \<Rightarrow> window_row \<Rightarrow> acc option" where
  "acc_row a row = (let b = (case a of
       None \<Rightarrow> \<lparr>ac_n = 0, ac_sample_rate = wr_sample_rate row, ac_gain = wr_gain row,
                ac_values = (\<lambda>_. None), ac_times = (\<lambda>_. None)\<rparr>
     | Some a \<Rightarrow> a) in Some (fold (acc_metric row) METRICS (b\<lparr>ac_n := ac_n b + 1\<rparr>)))"

text \<open>The bucket of a key depends on the rows of that key alone.\<close>

lemma fold_row_map:
  "map_of (fold_row row best) k = (if k = row_key row then acc_row (map_of best k) row else map_of best k)"
  by (auto simp: fold_row_def acc_row_def Let_def update_conv)

lemma fold_rows_map:
  "map_of (fold fold_row rows best) k = foldl acc_row (map_of best k) (filter (\<lambda>r. row_key r = k) rows)"
  by (induction rows arbitrary: best) (auto simp: fold_row_map)

lemma fold_rows_keys:
  "distinct (map fst best) \<Longrightarrow> distinct (map fst (fold fold_row rows best)) \<and>
    set (map fst (fold fold_row rows best)) = set (map fst best) \<union> row_key ` set rows"
proof (induction rows arbitrary: best)
  case (Cons r rows)
  have "distinct (map fst (fold_row r best))"
    using Cons.prems by (simp add: fold_row_def Let_def distinct_update)
  moreover have "set (map fst (fold_row r best)) = insert (row_key r) (set (map fst best))"
    by (simp add: fold_row_def Let_def dom_update)
  ultimately show ?case using Cons.IH [of "fold_row r best"] by auto
qed simp

definition first_best :: "window_row list \<Rightarrow> metric \<Rightarrow> rat option \<Rightarrow> string option \<Rightarrow> bool" where
  "first_best rs m v t = (case v of
     None \<Rightarrow> t = None \<and> (\<forall>r \<in> set rs. metric_value r m = None)
   | Some x \<Rightarrow> \<exists>i < length rs. metric_value (rs ! i) m = Some x \<and> t = Some (wr_start_time (rs ! i)) \<and>
       (\<forall>j < length rs. \<forall>y. metric_value (rs ! j) m = Some y \<longrightarrow> y \<le> x \<and> (j < i \<longrightarrow> y < x)))"

lemma acc_metric_other:
  "m' \<noteq> m \<Longrightarrow> ac_values (acc_metric row m a) m' = ac_values a m' \<and> ac_times (acc_metric row m a) m' = ac_times a m'"
  by (auto simp: acc_metric_def split: option.splits)

lemma acc_metric_same:
  "ac_n (acc_metric row m a) = ac_n a" "ac_sample_rate (acc_metric row m a) = ac_sample_rate a"
  "ac_gain (acc_metric row m a) = ac_gain a"
  by (auto simp: acc_metric_def split: option.splits)

lemma first_best_snoc:
  assumes "first_best rs m (ac_values a m) (ac_times a m)"
  shows "first_best (rs @ [row]) m (ac_values (acc_metric row m a) m) (ac_times (acc_metric row m a) m)"
proof (cases "metric_value row m")
  case None
  then have "acc_metric row m a = a" by (simp add: acc_metric_def)
  then show ?thesis
  proof (cases "ac_values a m")
    case old: (Some x)
    obtain i where "i < length rs" "metric_value (rs ! i) m = Some x"
      "ac_times a m = Some (wr_start_time (rs ! i))"
      "\<forall>j < length rs. \<forall>y. metric_value (rs ! j) m = Some y \<longrightarrow> y \<le> x \<and> (j < i \<longrightarrow> y < x)"
      using assms old by (auto simp: first_best_def)
    then show ?thesis
      using None old \<open>acc_metric row m a = a\<close>
      by (auto simp: first_best_def nth_append less_Suc_eq intro!: exI [of _ i])
  qed (use assms None \<open>acc_metric row m a = a\<close> in \<open>simp add: first_best_def\<close>)
next
  case (Some v)
  show ?thesis
  proof (cases "ac_values a m")
    case None
    then have "\<forall>r \<in> set rs. metric_value r m = None" using assms by (simp add: first_best_def)
    then have "\<forall>j < length rs. metric_value (rs ! j) m = None" by simp
    then show ?thesis
      using Some None by (auto simp: first_best_def acc_metric_def nth_append less_Suc_eq
          intro!: exI [of _ "length rs"])
  next
    case old: (Some x)
    obtain i where i: "i < length rs" "metric_value (rs ! i) m = Some x"
      "ac_times a m = Some (wr_start_time (rs ! i))"
      "\<forall>j < length rs. \<forall>y. metric_value (rs ! j) m = Some y \<longrightarrow> y \<le> x \<and> (j < i \<longrightarrow> y < x)"
      using assms old by (auto simp: first_best_def)
    show ?thesis
    proof (cases "x < v")
      case True
      then have "ac_values (acc_metric row m a) m = Some v"
        "ac_times (acc_metric row m a) m = Some (wr_start_time row)"
        using Some old by (simp_all add: acc_metric_def)
      moreover have "y < v" if "j < length rs" "metric_value (rs ! j) m = Some y" for j y
        using i(4) that True by fastforce
      ultimately show ?thesis
        using Some by (auto simp: first_best_def nth_append less_Suc_eq less_imp_le
            intro!: exI [of _ "length rs"])
    next
      case False
      then have "acc_metric row m a = a" using Some old by (simp add: acc_metric_def)
      then show ?thesis
        using i Some old False
        by (auto simp: first_best_def nth_append less_Suc_eq intro!: exI [of _ i])
    qed
  qed
qed

lemma fold_metrics:
  assumes "first_best rs m (ac_values a m) (ac_times a m)"
  shows "first_best (rs @ [row]) m (ac_values (fold (acc_metric row) METRICS a) m)
    (ac_times (fold (acc_metric row) METRICS a) m)"
proof -
  have "ac_values (fold (acc_metric row) METRICS a) m = ac_values (acc_metric row m a) m \<and>
      ac_times (fold (acc_metric row) METRICS a) m = ac_times (acc_metric row m a) m"
    by (cases m) (auto simp: METRICS_def acc_metric_def split: option.splits)
  then show ?thesis using first_best_snoc [OF assms, of row] by simp
qed

definition acc_of :: "window_row list \<Rightarrow> acc option" where
  "acc_of rs = foldl acc_row None rs"

lemma acc_of_spec:
  "rs \<noteq> [] \<Longrightarrow> \<exists>a. acc_of rs = Some a \<and> ac_n a = length rs \<and>
    ac_sample_rate a = wr_sample_rate (hd rs) \<and> ac_gain a = wr_gain (hd rs) \<and>
    (\<forall>m. first_best rs m (ac_values a m) (ac_times a m))"
proof (induction rs rule: rev_induct)
  case (snoc r rs)
  have keep: "ac_n (fold (acc_metric r) METRICS b) = ac_n b"
    "ac_sample_rate (fold (acc_metric r) METRICS b) = ac_sample_rate b"
    "ac_gain (fold (acc_metric r) METRICS b) = ac_gain b" for b
    by (simp_all add: METRICS_def acc_metric_same)
  show ?case
  proof (cases "rs = []")
    case True
    have "first_best [] m None None" for m by (simp add: first_best_def)
    then show ?thesis
      using fold_metrics [of "[]" _ "\<lparr>ac_n = 1, ac_sample_rate = wr_sample_rate r, ac_gain = wr_gain r,
          ac_values = (\<lambda>_. None), ac_times = (\<lambda>_. None)\<rparr>" r] True
      by (simp add: acc_of_def acc_row_def Let_def keep)
  next
    case False
    then obtain a where a: "acc_of rs = Some a" "ac_n a = length rs"
      "ac_sample_rate a = wr_sample_rate (hd rs)" "ac_gain a = wr_gain (hd rs)"
      "\<forall>m. first_best rs m (ac_values a m) (ac_times a m)"
      using snoc by auto
    have "first_best (rs @ [r]) m (ac_values (fold (acc_metric r) METRICS (a\<lparr>ac_n := Suc (ac_n a)\<rparr>)) m)
        (ac_times (fold (acc_metric r) METRICS (a\<lparr>ac_n := Suc (ac_n a)\<rparr>)) m)" for m
      using a(5) by (intro fold_metrics) simp
    then show ?thesis
      using a(1-4) False by (simp add: acc_of_def acc_row_def Let_def keep)
  qed
qed simp

definition summary_key :: "minute_summary \<Rightarrow> string \<times> rat" where
  "summary_key s = (ms_minute_start s, ms_center s)"

fun summary_metric :: "minute_summary \<Rightarrow> metric \<Rightarrow> rat option \<times> string option" where
  "summary_metric s Pwr_Max = (ms_pwr_max s, ms_peak_max_time s)"
| "summary_metric s Pwr_Snr = (ms_pwr_snr s, ms_peak_snr_time s)"
| "summary_metric s Pwr_Avg = (ms_pwr_avg s, ms_peak_avg_time s)"

text \<open>
  C35: the rollup is exact. There is one summary for every (minute, centre frequency)
  among the windows and no other; it counts the windows of its key, carries the
  sample rate and gain of the first of them, and gives for each metric the maximum
  over those that have it with the start of the first window that reached it, or
  nothing when none has it.
\<close>

theorem fold_windows_exact:
  fixes rows :: "window_row list"
  shows "distinct (map summary_key (fold_windows rows)) \<and>
    set (map summary_key (fold_windows rows)) = row_key ` set rows \<and>
    (\<forall>s \<in> set (fold_windows rows). let rs = filter (\<lambda>r. row_key r = summary_key s) rows in
       ms_n s = length rs \<and> ms_sample_rate s = wr_sample_rate (hd rs) \<and> ms_gain s = wr_gain (hd rs) \<and>
       (\<forall>m. first_best rs m (fst (summary_metric s m)) (snd (summary_metric s m))))"
proof -
  let ?best = "fold fold_row rows []"
  have keys: "map summary_key (fold_windows rows) = map fst ?best"
    by (auto simp: fold_windows_def summary_of_def summary_key_def)
  have d: "distinct (map fst ?best)" "set (map fst ?best) = row_key ` set rows"
    using fold_rows_keys [of "[]" rows] by simp_all
  have "let rs = filter (\<lambda>r. row_key r = summary_key s) rows in
       ms_n s = length rs \<and> ms_sample_rate s = wr_sample_rate (hd rs) \<and> ms_gain s = wr_gain (hd rs) \<and>
       (\<forall>m. first_best rs m (fst (summary_metric s m)) (snd (summary_metric s m)))"
    if "s \<in> set (fold_windows rows)" for s
  proof -
    obtain k a where k: "(k, a) \<in> set ?best" "s = summary_of (k, a)"
      using \<open>s \<in> set (fold_windows rows)\<close> by (auto simp: fold_windows_def)
    let ?rs = "filter (\<lambda>r. row_key r = k) rows"
    have sk: "summary_key s = k" using k(2) by (cases k) (simp add: summary_of_def summary_key_def)
    have "acc_of ?rs = Some a"
      using fold_rows_map [of rows "[]" k] map_of_is_SomeI [OF d(1) k(1)] by (simp add: acc_of_def)
    moreover have "?rs \<noteq> []"
    proof -
      have "k \<in> set (map fst ?best)" using k(1) by force
      then show ?thesis unfolding d(2) by (auto simp: filter_empty_conv)
    qed
    ultimately have a: "ac_n a = length ?rs" "ac_sample_rate a = wr_sample_rate (hd ?rs)"
      "ac_gain a = wr_gain (hd ?rs)" "\<And>m. first_best ?rs m (ac_values a m) (ac_times a m)"
      using acc_of_spec [of ?rs] by auto
    have "summary_metric s m = (ac_values a m, ac_times a m)" for m
      by (cases m; cases k) (simp_all add: k(2) summary_of_def)
    then show ?thesis
      using a by (cases k) (simp add: sk Let_def, simp add: k(2) summary_of_def)
  qed
  then show ?thesis using d keys by simp
qed

section \<open>What the selected peaks are\<close>

definition apart :: "int \<Rightarrow> candidate \<Rightarrow> candidate \<Rightarrow> bool" where
  "apart gap c d \<longleftrightarrow> gap \<le> \<bar>ca_peak_time c - ca_peak_time d\<bar>"

lemma apart_sym: "apart gap c d = apart gap d c"
  by (simp add: apart_def abs_minus_commute)

lemma choose_peaks_ok:
  assumes "sorted_wrt (\<lambda>c d. ca_value d \<le> ca_value c) (chosen @ cs)"
    and "sorted_wrt (apart gap) chosen" "int (length chosen) \<le> cnt"
    and "out = choose_peaks gap cnt chosen cs"
  shows "sorted_wrt (apart gap) out \<and> sorted_wrt (\<lambda>c d. ca_value d \<le> ca_value c) out \<and>
    int (length out) \<le> cnt \<and> set chosen \<subseteq> set out \<and> set out \<subseteq> set chosen \<union> set cs \<and>
    (\<forall>c \<in> set cs. c \<in> set out \<or> (\<exists>d \<in> set out. \<not> apart gap c d \<and> ca_value c \<le> ca_value d) \<or>
      (int (length out) = cnt \<and> (\<forall>d \<in> set out. ca_value c \<le> ca_value d)))"
  using assms
proof (induction gap cnt chosen cs arbitrary: out rule: choose_peaks.induct)
  case (1 gap cnt chosen)
  then show ?case by simp
next
  case (2 gap cnt chosen c cs)
  have val: "\<forall>d \<in> set chosen. \<forall>e \<in> set (c # cs). ca_value e \<le> ca_value d"
    "sorted_wrt (\<lambda>c d. ca_value d \<le> ca_value c) chosen"
    "sorted_wrt (\<lambda>c d. ca_value d \<le> ca_value c) (chosen @ cs)"
    "sorted_wrt (\<lambda>c d. ca_value d \<le> ca_value c) ((chosen @ [c]) @ cs)"
    using "2.prems"(1) by (auto simp: sorted_wrt_append)
  show ?case
  proof (cases "int (length chosen) = cnt")
    case True
    then show ?thesis using "2.prems" val by auto
  next
    case False
    show ?thesis
    proof (cases "list_ex (\<lambda>d. \<bar>ca_peak_time c - ca_peak_time d\<bar> < gap) chosen")
      case True
      then obtain d where d: "d \<in> set chosen" "\<not> apart gap c d"
        by (auto simp: list_ex_iff apart_def)
      moreover have "ca_value c \<le> ca_value d" using val(1) d(1) by simp
      ultimately show ?thesis
        using "2.IH"(1) [OF False True val(3) "2.prems"(2,3)] "2.prems"(4) False True
        by (fastforce)
    next
      case no: False
      then have "\<forall>d \<in> set chosen. apart gap d c"
        by (auto simp: list_ex_iff apart_def abs_minus_commute not_less)
      then have "sorted_wrt (apart gap) (chosen @ [c])" using "2.prems"(2) by (simp add: sorted_wrt_append)
      moreover have "int (length (chosen @ [c])) \<le> cnt" using False "2.prems"(3) by simp
      ultimately show ?thesis
        using "2.IH"(2) [OF False no val(4)] "2.prems"(4) False no by (simp del: sorted_wrt_append)
    qed
  qed
qed

lemma rank_candidates_sorted:
  "sorted_wrt (\<lambda>c d. ca_value d \<le> ca_value c) (rank_candidates cs)"
proof -
  have "sorted (map (\<lambda>c. - ca_value c) (rank_candidates cs))" by (simp add: rank_candidates_def)
  then show ?thesis by (simp add: sorted_wrt_map)
qed

lemma map_zip_snd: "length xs = length ys \<Longrightarrow> map (\<lambda>(a, b). f b) (zip xs ys) = map f ys"
  by (induction xs ys rule: list_induct2) auto

text \<open>
  The selected peaks are apart, ranked, and none is missing. At most \<open>count\<close> peaks are
  selected, ranked 1, 2, ... by descending value; any two are at least \<open>window_sec\<close> apart, each
  opens half a window around it, cut at now; and a candidate is left out only because it is
  closer than that to a selected peak of at least its value, or because \<open>count\<close> peaks of at
  least its value are selected.
\<close>

theorem select_peaks_separated:
  assumes "0 \<le> cnt" "peaks = select_peaks candidates window_sec cnt now"
  shows "int (length peaks) \<le> cnt \<and> map pk_rank peaks = [1..<Suc (length peaks)] \<and>
    sorted_wrt (\<lambda>p q. pk_value q \<le> pk_value p \<and>
      window_sec * 1000000 \<le> \<bar>pk_peak_time p - pk_peak_time q\<bar>) peaks \<and>
    (\<forall>p \<in> set peaks. pk_since p = pk_peak_time p - window_sec * 500000 \<and>
      pk_until p = min (pk_peak_time p + window_sec * 500000) now \<and>
      (\<exists>c \<in> set candidates. ca_peak_time c = pk_peak_time p \<and> ca_value c = pk_value p)) \<and>
    (\<forall>c \<in> set candidates. (\<exists>p \<in> set peaks. pk_peak_time p = ca_peak_time c \<and> pk_value p = ca_value c) \<or>
      (\<exists>p \<in> set peaks. \<bar>ca_peak_time c - pk_peak_time p\<bar> < window_sec * 1000000 \<and> ca_value c \<le> pk_value p) \<or>
      (int (length peaks) = cnt \<and> (\<forall>p \<in> set peaks. ca_value c \<le> pk_value p)))"
proof -
  define gap chosen where "gap = window_sec * 1000000"
    and "chosen = choose_peaks gap cnt [] (rank_candidates candidates)"
  have ok: "sorted_wrt (apart gap) chosen" "sorted_wrt (\<lambda>c d. ca_value d \<le> ca_value c) chosen"
    "int (length chosen) \<le> cnt" "set chosen \<subseteq> set candidates"
    "\<forall>c \<in> set candidates. c \<in> set chosen \<or> (\<exists>d \<in> set chosen. \<not> apart gap c d \<and> ca_value c \<le> ca_value d) \<or>
      (int (length chosen) = cnt \<and> (\<forall>d \<in> set chosen. ca_value c \<le> ca_value d))"
    using choose_peaks_ok [of "[]" "rank_candidates candidates" gap cnt chosen]
      rank_candidates_sorted [of candidates] assms(1)
    by (simp_all add: chosen_def [symmetric]) (simp_all add: rank_candidates_def)
  have peaks: "peaks = map (peak_of (window_sec * 500000) now) (zip [1..<Suc (length chosen)] chosen)"
    by (simp only: assms(2) select_peaks_def Let_def chosen_def gap_def)
  have len: "length peaks = length chosen" by (simp add: peaks del: upt_Suc)
  have nth: "pk_peak_time (peaks ! i) = ca_peak_time (chosen ! i)" "pk_value (peaks ! i) = ca_value (chosen ! i)"
    "pk_rank (peaks ! i) = i + 1" "pk_since (peaks ! i) = ca_peak_time (chosen ! i) - window_sec * 500000"
    "pk_until (peaks ! i) = min (ca_peak_time (chosen ! i) + window_sec * 500000) now"
    if "i < length chosen" for i
    using that by (simp_all add: peaks peak_of_def del: upt_Suc)
  have img: "(\<exists>p \<in> set peaks. P (pk_peak_time p) (pk_value p)) \<longleftrightarrow>
      (\<exists>c \<in> set chosen. P (ca_peak_time c) (ca_value c))"
    "(\<forall>p \<in> set peaks. P (pk_peak_time p) (pk_value p)) \<longleftrightarrow>
      (\<forall>c \<in> set chosen. P (ca_peak_time c) (ca_value c))" for P
    using nth(1,2) len by (auto simp: in_set_conv_nth Ball_def Bex_def)
  have "map pk_rank peaks = [1..<Suc (length peaks)]"
    using nth(3) len by (intro nth_equalityI) (simp_all del: upt_Suc)
  moreover have "sorted_wrt (\<lambda>p q. pk_value q \<le> pk_value p \<and>
      window_sec * 1000000 \<le> \<bar>pk_peak_time p - pk_peak_time q\<bar>) peaks"
    using ok(1,2) nth(1,2) len by (simp add: sorted_wrt_iff_nth_less apart_def gap_def)
  moreover have "\<forall>p \<in> set peaks. pk_since p = pk_peak_time p - window_sec * 500000 \<and>
      pk_until p = min (pk_peak_time p + window_sec * 500000) now"
    using nth len by (auto simp: in_set_conv_nth)
  moreover have "\<forall>p \<in> set peaks. \<exists>c \<in> set candidates. ca_peak_time c = pk_peak_time p \<and> ca_value c = pk_value p"
    using ok(4) by (auto simp: img(2) [of "\<lambda>t v. \<exists>c \<in> set candidates. ca_peak_time c = t \<and> ca_value c = v"])
  moreover have "\<forall>c \<in> set candidates. (\<exists>p \<in> set peaks. pk_peak_time p = ca_peak_time c \<and> pk_value p = ca_value c) \<or>
      (\<exists>p \<in> set peaks. \<bar>ca_peak_time c - pk_peak_time p\<bar> < window_sec * 1000000 \<and> ca_value c \<le> pk_value p) \<or>
      (int (length peaks) = cnt \<and> (\<forall>p \<in> set peaks. ca_value c \<le> pk_value p))"
    unfolding img(1) [of "\<lambda>t v. t = _ \<and> v = _"] img(1) [of "\<lambda>t v. \<bar>_ - t\<bar> < _ \<and> _ \<le> v"]
      img(2) [of "\<lambda>t v. _ \<le> v"] len
    using ok(5) by (fastforce simp: apart_def gap_def not_le)
  ultimately show ?thesis using ok(3) len by simp
qed

section \<open>Examples\<close>

definition ex_window :: "string \<Rightarrow> rat \<Rightarrow> window_row" where
  "ex_window t v = \<lparr>wr_start_time = t, wr_center = 0, wr_sample_rate = None, wr_gain = None,
     wr_pwr_max = Some v, wr_pwr_median = None, wr_pwr_avg = None\<rparr>"

definition ex_rows :: "window_row list" where
  "ex_rows = [ex_window ''2026-01-01T00:00:01'' 3, ex_window ''2026-01-01T00:00:02'' 5,
     ex_window ''2026-01-01T00:00:03'' 5, ex_window ''2026-01-01T00:01:00'' 1]"

theorem fold_windows_exact_witness: "map ms_n (fold_windows ex_rows) = [3, 1]"
proof -
  have k: "map summary_key (fold_windows ex_rows) = [(''2026-01-01T00:00'', 0), (''2026-01-01T00:01'', 0)]"
    and f: "length (filter (\<lambda>r. row_key r = (''2026-01-01T00:00'', 0)) ex_rows) = 3"
      "length (filter (\<lambda>r. row_key r = (''2026-01-01T00:01'', 0)) ex_rows) = 1"
    by code_simp+
  obtain a b where ab: "fold_windows ex_rows = [a, b]" "summary_key a = (''2026-01-01T00:00'', 0)"
    "summary_key b = (''2026-01-01T00:01'', 0)"
    using k by (auto simp: map_eq_Cons_conv)
  then show ?thesis
    using fold_windows_exact [of ex_rows] f by (simp add: Let_def)
qed

definition ex_candidate :: "int \<Rightarrow> rat \<Rightarrow> candidate" where
  "ex_candidate t v = \<lparr>ca_peak_time = t * 1000000, ca_value = v, ca_pwr_max = None, ca_pwr_snr = None,
     ca_pwr_avg = None\<rparr>"

theorem select_peaks_separated_witness:
  "int (length (select_peaks [ex_candidate 0 1, ex_candidate 5 3, ex_candidate 30 2] 10 2 (10 ^ 9))) \<le> 2"
  by (rule select_peaks_separated [OF _ refl, THEN conjunct1]) simp

end
