(* ===== verification/Dicts.thy ===== *)
theory Dicts
  imports Prelude
begin

text \<open>
  Python containers the components share: a dict as an association list in insertion
  order, with its updates, and the least and the greatest element of a list.
\<close>

section \<open>Dictionaries\<close>

text \<open>Setting a key of a dictionary kept as an association list.\<close>

definition dict_set :: "'k \<Rightarrow> 'v \<Rightarrow> ('k \<times> 'v) list \<Rightarrow> ('k \<times> 'v) list" where
  "dict_set k v d = (if k \<in> fst ` set d then map (\<lambda>(k', v'). (k', if k' = k then v else v')) d
     else d @ [(k, v)])"

definition dict_del :: "'k \<Rightarrow> ('k \<times> 'v) list \<Rightarrow> ('k \<times> 'v) list" where
  "dict_del k = filter (\<lambda>(k', _). k' \<noteq> k)"

definition dict_of :: "('k \<times> 'v) list \<Rightarrow> ('k \<times> 'v) list" where
  "dict_of kvs = fold (\<lambda>(k, v). dict_set k v) kvs []"

lemma keys_dict_set: "fst ` set (dict_set k v d) = insert k (fst ` set d)"
  by (force simp: dict_set_def)

lemma map_fst_dict_set:
  "map fst (dict_set k v d) = (if k \<in> fst ` set d then map fst d else map fst d @ [k])"
  by (simp add: dict_set_def comp_def case_prod_beta)

lemma distinct_dict_set: "distinct (map fst d) \<Longrightarrow> distinct (map fst (dict_set k v d))"
  by (auto simp: map_fst_dict_set)

lemma map_of_dict_set: "map_of (dict_set k v d) = (map_of d)(k \<mapsto> v)"
proof (cases "k \<in> fst ` set d")
  case True
  then have "map_of (map (\<lambda>(k', v'). (k', if k' = k then v else v')) d) = (map_of d)(k \<mapsto> v)"
  proof (induction d)
    case (Cons p d)
    obtain k' v' where p: "p = (k', v')" by (cases p)
    show ?case
    proof (cases "k \<in> fst ` set d")
      case True
      then show ?thesis using Cons.IH by (auto simp: p)
    next
      case False
      then have "k' = k" using Cons.prems p by auto
      moreover have "map (\<lambda>(k', v'). (k', if k' = k then v else v')) d = d"
        using False by (intro map_idI) force
      ultimately show ?thesis by (auto simp: p)
    qed
  qed simp
  then show ?thesis using True by (simp add: dict_set_def)
next
  case False
  then have "map_of d k = None" by (simp add: map_of_eq_None_iff)
  then show ?thesis using False by (auto simp: dict_set_def map_add_def fun_eq_iff split: option.splits)
qed

lemma map_of_filter_keys: "map_of (filter (\<lambda>(k, _). P k) d) k = (if P k then map_of d k else None)"
  by (induction d) auto

lemma map_of_dict_del: "map_of (dict_del k d) = (map_of d)(k := None)"
  by (auto simp: dict_del_def map_of_filter_keys)

lemma map_fst_dict_del: "map fst (dict_del k d) = filter (\<lambda>k'. k' \<noteq> k) (map fst d)"
  by (induction d) (auto simp: dict_del_def)

lemma distinct_dict_del: "distinct (map fst d) \<Longrightarrow> distinct (map fst (dict_del k d))"
  by (simp add: map_fst_dict_del)

lemma map_of_dict_dels:
  "map_of (fold dict_del ks d) = (\<lambda>k. if k \<in> set ks then None else map_of d k)"
  by (induction ks arbitrary: d) (auto simp: map_of_dict_del)

lemma distinct_dict_dels: "distinct (map fst d) \<Longrightarrow> distinct (map fst (fold dict_del ks d))"
  by (induction ks arbitrary: d) (simp_all add: distinct_dict_del)

lemma map_of_dict_sets: "map_of (fold (\<lambda>(k, v). dict_set k v) kvs d) = map_of d ++ map_of (rev kvs)"
  by (induction kvs arbitrary: d) (auto simp: map_of_dict_set)

lemma distinct_dict_sets:
  "distinct (map fst d) \<Longrightarrow> distinct (map fst (fold (\<lambda>(k, v). dict_set k v) kvs d))"
  by (induction kvs arbitrary: d) (auto intro: distinct_dict_set)

lemma map_of_rev_distinct: "distinct (map fst kvs) \<Longrightarrow> map_of (rev kvs) = map_of kvs"
proof (induction kvs)
  case (Cons p kvs)
  then have "map_of kvs (fst p) = None" by (simp add: map_of_eq_None_iff)
  with Cons show ?case by (cases p) (auto simp: map_add_def fun_eq_iff split: option.splits)
qed simp

lemma map_of_dict_of: "distinct (map fst kvs) \<Longrightarrow> map_of (dict_of kvs) = map_of kvs"
  by (simp add: dict_of_def map_of_dict_sets map_of_rev_distinct)

lemma set_dict_set: "set (dict_set k v d) \<subseteq> insert (k, v) (set d)"
  unfolding dict_set_def by (auto split: if_splits)

lemma set_dict_sets: "set (fold (\<lambda>(k, v). dict_set k v) kvs d) \<subseteq> set kvs \<union> set d"
proof (induction kvs arbitrary: d)
  case (Cons x kvs)
  then show ?case using set_dict_set [of "fst x" "snd x" d] by (cases x) fastforce
qed simp

lemma dict_set_split:
  assumes "distinct (map fst d)" "map_of d k = Some b"
  shows "\<exists>xs ys. d = xs @ (k, b) # ys \<and> dict_set k a d = xs @ (k, a) # ys"
proof -
  obtain xs ys where d: "d = xs @ (k, b) # ys" using map_of_SomeD [OF assms(2)] by (auto dest: split_list)
  have "k \<notin> fst ` set xs" "k \<notin> fst ` set ys" using assms(1) by (auto simp: d)
  then have "map (\<lambda>(k', v'). (k', if k' = k then a else v')) zs = zs" if "zs \<in> {xs, ys}" for zs
    using that by (intro map_idI) (force split: if_splits)
  then have "dict_set k a d = xs @ (k, a) # ys" by (simp add: dict_set_def d)
  then show ?thesis using d by blast
qed

lemma map_of_dict_sets_Some:
  "map_of (fold (\<lambda>(k, v). dict_set k v) kvs d) i = Some x \<Longrightarrow> (i, x) \<in> set kvs \<or> map_of d i = Some x"
  by (induction kvs arbitrary: d) (fastforce simp: map_of_dict_set split: if_splits)+

section \<open>The least and the greatest element\<close>

definition list_min :: "'a :: linorder list \<Rightarrow> 'a" where "list_min xs = foldr min (tl xs) (hd xs)"
definition list_max :: "'a :: linorder list \<Rightarrow> 'a" where "list_max xs = foldr max (tl xs) (hd xs)"

lemma list_min_Cons: "list_min (x # xs) = foldr min xs x" and list_max_Cons: "list_max (x # xs) = foldr max xs x"
  by (simp_all add: list_min_def list_max_def)

lemma list_min_in: "xs \<noteq> [] \<Longrightarrow> list_min xs \<in> set xs \<and> (\<forall>x \<in> set xs. list_min xs \<le> x)"
proof -
  have "foldr min ys x \<in> set (x # ys) \<and> (\<forall>y \<in> set (x # ys). foldr min ys x \<le> y)" for x :: 'a and ys
    by (induction ys) (auto simp: min_def)
  then show "xs \<noteq> [] \<Longrightarrow> ?thesis" by (cases xs) (auto simp: list_min_Cons)
qed

lemma list_max_in: "xs \<noteq> [] \<Longrightarrow> list_max xs \<in> set xs \<and> (\<forall>x \<in> set xs. x \<le> list_max xs)"
proof -
  have "foldr max ys x \<in> set (x # ys) \<and> (\<forall>y \<in> set (x # ys). y \<le> foldr max ys x)" for x :: 'a and ys
    by (induction ys) (auto simp: max_def)
  then show "xs \<noteq> [] \<Longrightarrow> ?thesis" by (cases xs) (auto simp: list_max_Cons)
qed

lemma foldr_min_max_snoc:
  fixes x y :: "'a :: linorder"
  shows "foldr min (xs @ [y]) x = min (foldr min xs x) y" "foldr max (xs @ [y]) x = max (foldr max xs x) y"
proof -
  have a: "foldr min xs (min y x) = min (foldr min xs x) y" for y x :: 'a
    by (induction xs) (simp_all only: foldr.simps comp_apply id_apply min.assoc min.commute min.left_commute)
  have b: "foldr max xs (max y x) = max (foldr max xs x) y" for y x :: 'a
    by (induction xs) (simp_all only: foldr.simps comp_apply id_apply max.assoc max.commute max.left_commute)
  show "foldr min (xs @ [y]) x = min (foldr min xs x) y" by (simp add: a)
  show "foldr max (xs @ [y]) x = max (foldr max xs x) y" by (simp add: b)
qed

lemma list_min_max_snoc:
  assumes "xs \<noteq> []"
  shows "list_min (xs @ [y]) = min (list_min xs) y"
    and "list_max (xs @ [y]) = max (list_max xs) y"
proof -
  obtain x r where xs: "xs = x # r" using assms by (cases xs) auto
  show "list_min (xs @ [y]) = min (list_min xs) y" "list_max (xs @ [y]) = max (list_max xs) y"
    unfolding xs append_Cons list_min_Cons list_max_Cons by (rule foldr_min_max_snoc)+
qed

end
