(* ===== verification/Burst.thy ===== *)
theory Burst
  imports Dicts "HOL-Library.Multiset"
begin

text \<open>
  \<open>processing/burst.py\<close> with the noise floor and the tiling of
  \<open>processing/spectral.py\<close>: burst detection on a PSD grid. Powers, frequencies and
  times are exact rationals; times are seconds since the epoch. The labelling of
  connected components (\<open>scipy.ndimage.label\<close>) and the percentile
  (\<open>numpy.percentile\<close> along the time axis) are library code, arguments of the model.
\<close>

type_synonym grid = "rat list list"

section \<open>The tiling of the grid\<close>

record grid_config =
  gc_num_bins :: int
  gc_time_resolution_ms :: rat
  gc_overlap :: rat

record grid_geometry =
  gg_nperseg :: int
  gg_hop :: int
  gg_ffts_per_slice :: int
  gg_actual_slice_samples :: int
  gg_n_slices :: int
  gg_short_input :: bool

definition gg_usable_samples :: "grid_geometry \<Rightarrow> int" where
  "gg_usable_samples g = gg_n_slices g * gg_actual_slice_samples g"

definition grid_geometry :: "int \<Rightarrow> int \<Rightarrow> grid_config \<Rightarrow> grid_geometry" where
  "grid_geometry n_samples sampling_rate config =
     (let nperseg = gc_num_bins config;
          hop = py_int (of_int nperseg * (1 - gc_overlap config));
          slice_samples = py_int (of_int sampling_rate * gc_time_resolution_ms config / 1000);
          slice_samples = (if slice_samples < nperseg then nperseg else slice_samples);
          ffts_per_slice = max 1 ((slice_samples - nperseg) div hop + 1);
          actual_slice_samples = nperseg + (ffts_per_slice - 1) * hop;
          n_slices = n_samples div actual_slice_samples;
          short_input = (n_slices = 0);
          (n_slices, actual_slice_samples, ffts_per_slice) =
            (if short_input then (1, n_samples, max 1 ((n_samples - nperseg) div hop + 1))
             else (n_slices, actual_slice_samples, ffts_per_slice))
      in \<lparr>gg_nperseg = nperseg, gg_hop = hop, gg_ffts_per_slice = ffts_per_slice,
          gg_actual_slice_samples = actual_slice_samples, gg_n_slices = n_slices,
          gg_short_input = short_input\<rparr>)"

text \<open>
  The samples of slice \<open>s\<close> that its FFT segment \<open>f\<close> reads, as the strides of
  \<open>_compute_psd_grid_cpu\<close> place it.
\<close>

definition segment_range :: "grid_geometry \<Rightarrow> int \<Rightarrow> int \<Rightarrow> int \<times> int" where
  "segment_range g s f = (let first = s * gg_actual_slice_samples g + f * gg_hop g
     in (first, first + gg_nperseg g))"

section \<open>Configuration, fingerprints and masks\<close>

record burst_config =
  bc_threshold_high_db :: rat
  bc_threshold_low_ratio :: rat
  bc_min_duration_sec :: rat
  bc_merge_freq_bins :: int
  bc_merge_time_sec :: rat
  bc_noise_floor_percentile :: rat

definition threshold_low_db :: "burst_config \<Rightarrow> rat" where
  "threshold_low_db c = bc_threshold_high_db c * bc_threshold_low_ratio c"

record fingerprint =
  fp_start_time :: rat
  fp_stop_time :: rat
  fp_center_freq_hz :: rat
  fp_peak_freq_hz :: rat
  fp_bandwidth_hz :: rat
  fp_peak_power_db :: rat
  fp_duration_ms :: rat
  fp_detection_timestamp :: rat
  fp_start_sample :: "int option"
  fp_stop_sample :: "int option"

record detection_result =
  dr_bursts :: "fingerprint list"
  dr_noise_floor_db :: rat
  dr_noise_floor_per_bin :: "rat list option"
  dr_num_raw_detections :: nat
  dr_num_merged :: nat

definition mean :: "rat list \<Rightarrow> rat" where
  "mean xs = sum_list xs / of_nat (length xs)"

text \<open>\<open>np.percentile(grid, percentile, axis=0)\<close>: the percentile of every column.\<close>

definition compute_noise_floor :: "(rat list \<Rightarrow> rat \<Rightarrow> rat) \<Rightarrow> grid \<Rightarrow> rat \<Rightarrow> rat list" where
  "compute_noise_floor pctl grid percentile =
     (case grid of [] \<Rightarrow> []
      | row # _ \<Rightarrow> map (\<lambda>j. pctl (map (\<lambda>r. r ! j) grid) percentile) [0..<length row])"

definition mask_above :: "grid \<Rightarrow> rat list \<Rightarrow> rat \<Rightarrow> bool list list" where
  "mask_above grid noise_floor t = map (\<lambda>row. map2 (\<lambda>x nf. nf + t < x) row noise_floor) grid"

section \<open>Measuring the labelled regions\<close>

text \<open>
  A kept cell: its flat index and label. \<open>runs\<close> groups neighbouring cells of one
  label, as the boundaries \<open>starts\<close> do for \<open>reduceat\<close>.
\<close>

type_synonym cell = "nat \<times> nat"

fun runs :: "cell list \<Rightarrow> nat list list" where
  "runs [] = []"
| "runs [(i, l)] = [[i]]"
| "runs ((i, l) # (j, l') # cs) =
     (if l = l' then (case runs ((j, l') # cs) of r # rs \<Rightarrow> (i # r) # rs | [] \<Rightarrow> [[i]])
      else [i] # runs ((j, l') # cs))"

fun first_max :: "(nat \<times> rat) list \<Rightarrow> nat" where
  "first_max [] = 0"
| "first_max [(i, p)] = i"
| "first_max ((i, p) # (j, q) # r) = (if p < q then first_max ((j, q) # r) else first_max ((i, p) # r))"

definition region_fingerprint ::
  "grid \<Rightarrow> nat \<Rightarrow> rat list \<Rightarrow> rat list \<Rightarrow> rat \<Rightarrow> rat \<Rightarrow> rat \<Rightarrow> nat list \<Rightarrow> fingerprint option" where
  "region_fingerprint grid n_cols time_axis freq_axis center capture_time min_duration idx =
     (let rows = map (\<lambda>i. i div n_cols) idx; cols = map (\<lambda>i. i mod n_cols) idx;
          powers = map (\<lambda>i. grid ! (i div n_cols) ! (i mod n_cols)) idx;
          last_row = length time_axis - 1;
          t_start = time_axis ! list_min rows;
          t_end = time_axis ! min (list_max rows + 1) last_row;
          duration_sec = t_end - t_start
      in if duration_sec < min_duration then None
         else
           let f_min = freq_axis ! list_min cols; f_max = freq_axis ! list_max cols;
               peak_col = first_max (zip cols powers)
           in Some \<lparr>fp_start_time = capture_time + t_start, fp_stop_time = capture_time + t_end,
                fp_center_freq_hz = center + (f_min + f_max) / 2,
                fp_peak_freq_hz = center + freq_axis ! peak_col,
                fp_bandwidth_hz = max (f_max - f_min) 0, fp_peak_power_db = list_max powers,
                fp_duration_ms = duration_sec * 1000, fp_detection_timestamp = capture_time,
                fp_start_sample = None, fp_stop_sample = None\<rparr>)"

definition extract_fingerprints ::
  "nat list list \<Rightarrow> bool list list \<Rightarrow> nat list \<Rightarrow> grid \<Rightarrow> rat list \<Rightarrow> rat list \<Rightarrow> rat \<Rightarrow> rat \<Rightarrow> rat \<Rightarrow>
   fingerprint list" where
  "extract_fingerprints labeled labeled_mask valid_labels grid time_axis freq_axis center capture_time
     min_duration =
     (let n_cols = (case labeled of [] \<Rightarrow> 0 | row # _ \<Rightarrow> length row);
          flat = concat labeled; mask = concat labeled_mask;
          cells = map (\<lambda>i. (i, flat ! i)) (filter (\<lambda>i. mask ! i) [0..<length mask]);
          kept = filter (\<lambda>(_, l). l \<in> set valid_labels) cells;
          ordered = sort_key snd kept
      in sort_key fp_start_time (List.map_filter
           (region_fingerprint grid n_cols time_axis freq_axis center capture_time min_duration)
           (runs ordered)))"

section \<open>Merging\<close>

definition fp_lo :: "fingerprint \<Rightarrow> rat" where "fp_lo b = fp_center_freq_hz b - fp_bandwidth_hz b / 2"
definition fp_hi :: "fingerprint \<Rightarrow> rat" where "fp_hi b = fp_center_freq_hz b + fp_bandwidth_hz b / 2"

definition mergeable :: "rat \<Rightarrow> rat \<Rightarrow> fingerprint \<Rightarrow> fingerprint \<Rightarrow> bool" where
  "mergeable max_time_gap tol c n \<longleftrightarrow>
     fp_lo c - tol \<le> fp_hi n \<and> fp_lo n \<le> fp_hi c + tol \<and> fp_start_time n - fp_stop_time c \<le> max_time_gap"

definition merge_two :: "fingerprint \<Rightarrow> fingerprint \<Rightarrow> fingerprint" where
  "merge_two c n =
     (let new_stop = max (fp_stop_time c) (fp_stop_time n);
          lo = min (fp_lo c) (fp_lo n); hi = max (fp_hi c) (fp_hi n)
      in \<lparr>fp_start_time = fp_start_time c, fp_stop_time = new_stop,
          fp_center_freq_hz = (lo + hi) / 2,
          fp_peak_freq_hz = (if fp_peak_power_db n \<le> fp_peak_power_db c then fp_peak_freq_hz c
                             else fp_peak_freq_hz n),
          fp_bandwidth_hz = hi - lo, fp_peak_power_db = max (fp_peak_power_db c) (fp_peak_power_db n),
          fp_duration_ms = (new_stop - fp_start_time c) * 1000,
          fp_detection_timestamp = fp_detection_timestamp c,
          fp_start_sample = None, fp_stop_sample = None\<rparr>)"

fun merge_loop :: "rat \<Rightarrow> rat \<Rightarrow> fingerprint \<Rightarrow> fingerprint list \<Rightarrow> fingerprint list" where
  "merge_loop gap tol current [] = [current]"
| "merge_loop gap tol current (n # ns) =
     (if mergeable gap tol current n then merge_loop gap tol (merge_two current n) ns
      else current # merge_loop gap tol n ns)"

definition merge_bursts :: "rat \<Rightarrow> rat \<Rightarrow> fingerprint list \<Rightarrow> fingerprint list" where
  "merge_bursts gap tol bursts = (case bursts of [] \<Rightarrow> [] | [b] \<Rightarrow> [b]
     | b # bs \<Rightarrow> merge_loop gap tol b bs)"

section \<open>Detection\<close>

definition detect_bursts ::
  "(bool list list \<Rightarrow> nat list list) \<Rightarrow> (rat list \<Rightarrow> rat \<Rightarrow> rat) \<Rightarrow> burst_config \<Rightarrow> rat list \<Rightarrow>
   rat list \<Rightarrow> rat \<Rightarrow> rat \<Rightarrow> grid \<Rightarrow> detection_result" where
  "detect_bursts label pctl config time_axis freq_axis center capture_time grid =
     (let noise_floor = compute_noise_floor pctl grid (bc_noise_floor_percentile config);
          avg_noise = mean noise_floor;
          mask_high = mask_above grid noise_floor (bc_threshold_high_db config);
          mask_low = mask_above grid noise_floor (threshold_low_db config);
          labeled = label mask_low;
          at_high = map snd (filter fst (zip (concat mask_high) (concat labeled)));
          valid = filter (\<lambda>l. 0 < l) (remdups at_high)
      in if valid = [] then
           \<lparr>dr_bursts = [], dr_noise_floor_db = avg_noise, dr_noise_floor_per_bin = Some noise_floor,
            dr_num_raw_detections = 0, dr_num_merged = 0\<rparr>
         else
           let raw = extract_fingerprints labeled mask_low valid grid time_axis freq_axis center
                 capture_time (bc_min_duration_sec config);
               width = (if 1 < length freq_axis then \<bar>freq_axis ! 1 - freq_axis ! 0\<bar> else 0);
               merged = (if 1 < length raw
                 then merge_bursts (bc_merge_time_sec config) (width * of_int (bc_merge_freq_bins config)) raw
                 else raw)
           in \<lparr>dr_bursts = merged, dr_noise_floor_db = avg_noise,
               dr_noise_floor_per_bin = Some noise_floor, dr_num_raw_detections = length raw,
               dr_num_merged = length raw - length merged\<rparr>)"

section \<open>The tiling stays inside the input\<close>

text \<open>
  The tiling of the grid is sound. With a positive bin count, a hop of at least one
  sample and an input of at least one FFT segment, the slices are disjoint, cover
  whole slices of the input only, and every FFT segment of a slice reads samples of
  that slice alone.
\<close>

theorem grid_segments_in_input:
  assumes "g = grid_geometry n_samples sampling_rate config"
    and "0 < gc_num_bins config" "1 \<le> gg_hop g" "gc_num_bins config \<le> n_samples"
    and "0 \<le> s" "s < gg_n_slices g" "0 \<le> f" "f < gg_ffts_per_slice g"
  shows "gg_usable_samples g \<le> n_samples \<and>
    s * gg_actual_slice_samples g \<le> fst (segment_range g s f) \<and>
    snd (segment_range g s f) \<le> (s + 1) * gg_actual_slice_samples g \<and>
    (s + 1) * gg_actual_slice_samples g \<le> gg_usable_samples g"
proof -
  define nper hop where "nper = gc_num_bins config" and "hop = gg_hop g"
  define sl where "sl = (let k = py_int (of_int sampling_rate * gc_time_resolution_ms config / 1000)
    in if k < nper then nper else k)"
  define ffts where "ffts = max 1 ((sl - nper) div hop + 1)"
  define act where "act = nper + (ffts - 1) * hop"
  have hop: "1 \<le> hop" "hop = py_int (of_int nper * (1 - gc_overlap config))"
    using assms(1,3) by (auto simp: hop_def nper_def grid_geometry_def Let_def)
  have g: "gg_nperseg g = nper" "gg_hop g = hop"
    "gg_n_slices g = (if n_samples div act = 0 then 1 else n_samples div act)"
    "gg_actual_slice_samples g = (if n_samples div act = 0 then n_samples else act)"
    "gg_ffts_per_slice g = (if n_samples div act = 0 then max 1 ((n_samples - nper) div hop + 1) else ffts)"
    unfolding assms(1) grid_geometry_def Let_def act_def ffts_def sl_def
    by (simp_all add: nper_def hop(2) [unfolded nper_def, symmetric])
  have act: "0 < act" using assms(2) hop(1) by (simp add: act_def ffts_def nper_def add_pos_nonneg)
  have n: "nper \<le> n_samples" using assms(4) by (simp add: nper_def)
  have fit: "nper + (gg_ffts_per_slice g - 1) * hop \<le> gg_actual_slice_samples g"
  proof (cases "n_samples div act = 0")
    case True
    have "(n_samples - nper) div hop * hop \<le> n_samples - nper"
      using hop(1) by (simp add: minus_mod_eq_div_mult [symmetric])
    moreover have "0 \<le> (n_samples - nper) div hop" using n hop(1) by (simp add: pos_imp_zdiv_nonneg_iff)
    ultimately show ?thesis using True by (simp add: g max_def)
  next
    case False
    then show ?thesis by (simp add: g act_def)
  qed
  have use: "gg_usable_samples g \<le> n_samples"
    using act by (auto simp: gg_usable_samples_def g minus_mod_eq_div_mult [symmetric])
  have pos: "0 \<le> gg_actual_slice_samples g" using act n assms(2) by (auto simp: g nper_def)
  have "f * hop \<le> (gg_ffts_per_slice g - 1) * hop"
    using assms(8) hop(1) by (intro mult_right_mono) auto
  moreover have "0 \<le> f * hop" using assms(7) hop(1) by simp
  moreover have "(s + 1) * gg_actual_slice_samples g \<le> gg_usable_samples g"
    unfolding gg_usable_samples_def using assms(6) pos by (intro mult_right_mono) auto
  ultimately show ?thesis
    using use fit by (simp add: segment_range_def Let_def g(1,2) distrib_right)
qed

definition ex_grid_config :: grid_config where
  "ex_grid_config = \<lparr>gc_num_bins = 256, gc_time_resolution_ms = 1 / 5, gc_overlap = 1 / 2\<rparr>"

theorem grid_segments_in_input_witness:
  "gg_usable_samples (grid_geometry 100000 2000000 ex_grid_config) \<le> 100000"
  by (rule grid_segments_in_input [OF refl, where s = 0 and f = 0, THEN conjunct1]) code_simp+

text \<open>
  A shorter input is not guarded. For any input of fewer samples than one FFT
  segment the single segment of the grid ends past the samples there are, so the
  strided view reads memory beyond the input.
\<close>

theorem short_input_reads_past_end:
  assumes "g = grid_geometry n_samples sampling_rate config"
    and "0 \<le> n_samples" "n_samples < gc_num_bins config" "1 \<le> gg_hop g"
  shows "gg_n_slices g = 1 \<and> 1 \<le> gg_ffts_per_slice g \<and> gg_usable_samples g = n_samples \<and>
    n_samples < snd (segment_range g 0 0)"
proof -
  define hop where "hop = py_int (of_int (gc_num_bins config) * (1 - gc_overlap config))"
  define sl where "sl = (let k = py_int (of_int sampling_rate * gc_time_resolution_ms config / 1000)
    in if k < gc_num_bins config then gc_num_bins config else k)"
  define act where "act = gc_num_bins config + (max 1 ((sl - gc_num_bins config) div hop + 1) - 1) * hop"
  have "gg_hop g = hop" by (simp add: assms(1) grid_geometry_def Let_def hop_def)
  then have "gc_num_bins config \<le> act" using assms(4) by (simp add: act_def)
  then have "n_samples div act = 0" using assms(2,3) by simp
  then show ?thesis
    using assms(3) unfolding assms(1) grid_geometry_def Let_def segment_range_def gg_usable_samples_def
      act_def sl_def hop_def by simp
qed

theorem short_input_reads_past_end_witness:
  "100 < snd (segment_range (grid_geometry 100 2000000 ex_grid_config) 0 0)"
proof -
  have "0 \<le> (100 :: int)" "100 < gc_num_bins ex_grid_config"
    "1 \<le> gg_hop (grid_geometry 100 2000000 ex_grid_config)" by code_simp+
  from short_input_reads_past_end [OF refl this] show ?thesis by simp
qed

section \<open>The grouped measurement is the measurement per region\<close>

lemma distinct_remdups_adj_sorted: "sorted (xs :: nat list) \<Longrightarrow> distinct (remdups_adj xs)"
  by (induction xs rule: remdups_adj.induct) (auto simp: less_le)

definition members :: "cell list \<Rightarrow> nat \<Rightarrow> nat list" where
  "members cs l = map fst (filter (\<lambda>c. snd c = l) cs)"

lemma members_Cons: "members ((i, l) # cs) m = (if l = m then i # members cs m else members cs m)"
  by (simp add: members_def)

lemma remdups_adj_head: "\<exists>t. remdups_adj (x # xs) = x # t"
  by (induction xs arbitrary: x) (auto simp: remdups_adj_Cons split: list.splits)

lemma runs_sorted:
  "sorted (map snd cs) \<Longrightarrow> runs cs = map (members cs) (remdups_adj (map snd cs))"
proof (induction cs rule: runs.induct)
  case (3 i l j l' cs)
  let ?c = "(j, l') # cs"
  have srt: "sorted (map snd ?c)" "\<forall>c \<in> set ?c. l \<le> snd c" using "3.prems" by auto
  obtain t where t: "remdups_adj (map snd ?c) = l' # t" using remdups_adj_head [of l' "map snd cs"] by auto
  have IH: "runs ?c = map (members ?c) (l' # t)"
    using "3.IH" srt(1) t by (cases "l = l'") metis+
  show ?case
  proof (cases "l = l'")
    case True
    have "l' \<notin> set t" using distinct_remdups_adj_sorted [OF srt(1)] unfolding t by simp
    then have "map (members ((i, l) # ?c)) t = map (members ?c) t"
      unfolding members_Cons [of i l] using True by (intro map_cong) auto
    moreover have "remdups_adj (map snd ((i, l) # ?c)) = l' # t" using t True by simp
    moreover have "runs ((i, l) # ?c) = (i # members ?c l') # map (members ?c) t"
      using IH True by simp
    ultimately show ?thesis using members_Cons [of i l ?c l'] True by simp
  next
    case False
    have gt: "\<forall>c \<in> set ?c. l < snd c" using srt False by force
    then have none: "members ?c l = []" by (auto simp: members_def filter_empty_conv)
    have "\<forall>m \<in> set (l' # t). m \<noteq> l" using gt unfolding t [symmetric] by auto
    then have "map (members ((i, l) # ?c)) (l' # t) = map (members ?c) (l' # t)"
      unfolding members_Cons [of i l] by (intro map_cong) auto
    moreover have "remdups_adj (map snd ((i, l) # ?c)) = l # l' # t" using t False by simp
    moreover have "runs ((i, l) # ?c) = [i] # map (members ?c) (l' # t)" using IH False by simp
    ultimately show ?thesis using none members_Cons [of i l ?c l] by simp
  qed
qed (simp_all add: members_def)

lemma sort_key_map_snd: "map snd (sort_key snd xs) = sort (map (snd :: _ \<Rightarrow> nat) xs)"
proof -
  have "mset (map snd (sort_key snd xs)) = mset (map snd xs)" by (simp only: mset_map mset_sort)
  then show ?thesis by (intro properties_for_sort [symmetric]) simp_all
qed

lemma sorted_remdups_adj_set:
  "remdups_adj (sort xs) = sorted_list_of_set (set (xs :: nat list))"
  by (rule sorted_distinct_set_unique) (simp_all add: distinct_remdups_adj_sorted)

text \<open>
  The grouped measurement is the measurement per region. The cells of all kept
  labels, grouped by one stable sort and reduced run by run, give the same bursts as
  measuring, for every label that occurs, its cells in row-major order.
\<close>

theorem extract_fingerprints_per_region:
  defines "kept \<equiv> \<lambda>labeled labeled_mask valid_labels. filter (\<lambda>(_, l). l \<in> set valid_labels)
    (map (\<lambda>i. (i, concat labeled ! i)) (filter (\<lambda>i. concat labeled_mask ! i) [0..<length (concat labeled_mask)]))"
  shows "extract_fingerprints labeled labeled_mask valid_labels grid time_axis freq_axis center t min_d =
    sort_key fp_start_time (List.map_filter
      (\<lambda>l. region_fingerprint grid (case labeled of [] \<Rightarrow> 0 | row # _ \<Rightarrow> length row) time_axis freq_axis
        center t min_d (members (kept labeled labeled_mask valid_labels) l))
      (sorted_list_of_set (snd ` set (kept labeled labeled_mask valid_labels))))"
proof -
  let ?k = "kept labeled labeled_mask valid_labels"
  have "members (sort_key snd ?k) l = members ?k l" for l
    by (simp add: members_def sort_key_stable)
  moreover have "map snd (sort_key snd ?k) = sort (map snd ?k)"
    by (rule sort_key_map_snd)
  ultimately have "runs (sort_key snd ?k) = map (members ?k) (sorted_list_of_set (snd ` set ?k))"
    using runs_sorted [of "sort_key snd ?k"] sorted_remdups_adj_set [of "map snd ?k"] by simp
  then show ?thesis
    unfolding extract_fingerprints_def Let_def kept_def
    by (simp add: map_filter_def filter_map comp_def)
qed

section \<open>A region's fingerprint\<close>

lemma first_max_in:
  "xs \<noteq> [] \<Longrightarrow> \<exists>p. (first_max xs, p) \<in> set xs \<and> (\<forall>(i, q) \<in> set xs. q \<le> p)"
proof (induction xs rule: first_max.induct)
  case (3 i p j q r)
  then show ?case
  proof (cases "p < q")
    case True
    then obtain x where "(first_max ((j, q) # r), x) \<in> set ((j, q) # r)" "\<forall>(i, q) \<in> set ((j, q) # r). q \<le> x"
      using 3 by blast
    then show ?thesis using True by (intro exI [of _ x]) auto
  next
    case False
    then obtain x where "(first_max ((i, p) # r), x) \<in> set ((i, p) # r)" "\<forall>(i, q) \<in> set ((i, p) # r). q \<le> x"
      using 3 by blast
    then show ?thesis using False by (intro exI [of _ x]) auto
  qed
qed auto

lemma nth_sorted: "sorted xs \<Longrightarrow> i \<le> j \<Longrightarrow> j < length xs \<Longrightarrow> xs ! i \<le> xs ! j"
  by (rule sorted_nth_mono)

text \<open>
  A fingerprint is the bounding box of its region. On ascending axes, every cell of
  the region lies between the burst's start and stop and within its band, no cell
  exceeds the peak power and one cell at the peak frequency has it, the band and the
  start are those of cells of the region, the duration is the stop less the start,
  and a region shorter than the minimum duration gives no burst.
\<close>

theorem region_fingerprint_bounds:
  assumes "idx \<noteq> []" "0 < n_cols" "sorted time_axis" "sorted freq_axis"
    and "\<forall>i \<in> set idx. i div n_cols < length time_axis" "n_cols \<le> length freq_axis"
    and "r = region_fingerprint grid n_cols time_axis freq_axis center t0 min_d idx"
  shows "case r of
     None \<Rightarrow> (\<exists>i \<in> set idx. time_axis ! min (list_max (map (\<lambda>i. i div n_cols) idx) + 1) (length time_axis - 1)
       - time_axis ! (i div n_cols) < min_d)
   | Some b \<Rightarrow> min_d \<le> fp_stop_time b - fp_start_time b \<and>
       fp_duration_ms b = (fp_stop_time b - fp_start_time b) * 1000 \<and>
       (\<forall>i \<in> set idx. fp_start_time b \<le> t0 + time_axis ! (i div n_cols) \<and>
         t0 + time_axis ! (i div n_cols) \<le> fp_stop_time b \<and>
         fp_lo b \<le> center + freq_axis ! (i mod n_cols) \<and> center + freq_axis ! (i mod n_cols) \<le> fp_hi b \<and>
         grid ! (i div n_cols) ! (i mod n_cols) \<le> fp_peak_power_db b) \<and>
       (\<exists>i \<in> set idx. fp_start_time b = t0 + time_axis ! (i div n_cols)) \<and>
       (\<exists>i \<in> set idx. fp_lo b = center + freq_axis ! (i mod n_cols)) \<and>
       (\<exists>i \<in> set idx. fp_hi b = center + freq_axis ! (i mod n_cols)) \<and>
       (\<exists>i \<in> set idx. fp_peak_power_db b = grid ! (i div n_cols) ! (i mod n_cols) \<and>
         fp_peak_freq_hz b = center + freq_axis ! (i mod n_cols))"
proof -
  define rows cols powers where "rows = map (\<lambda>i. i div n_cols) idx"
    and "cols = map (\<lambda>i. i mod n_cols) idx"
    and "powers = map (\<lambda>i. grid ! (i div n_cols) ! (i mod n_cols)) idx"
  have ne: "rows \<noteq> []" "cols \<noteq> []" "powers \<noteq> []" "zip cols powers \<noteq> []"
    using assms(1) by (auto simp: rows_def cols_def powers_def zip_map_map)
  note rm = list_min_in [OF ne(1)] list_max_in [OF ne(1)]
  note cm = list_min_in [OF ne(2)] list_max_in [OF ne(2)]
  note pm = list_max_in [OF ne(3)]
  define stop where "stop = min (list_max rows + 1) (length time_axis - 1)"
  have colb: "\<forall>i. i mod n_cols < length freq_axis" using assms(2,6) by (meson mod_less_divisor less_le_trans)
  have stopb: "list_max rows \<le> stop" "stop < length time_axis"
    using rm(2) assms(5) by (auto simp: stop_def rows_def)
  have time: "time_axis ! list_min rows \<le> time_axis ! (i div n_cols) \<and>
      time_axis ! (i div n_cols) \<le> time_axis ! stop" if "i \<in> set idx" for i
  proof -
    have "i div n_cols \<in> set rows" using that by (auto simp: rows_def)
    then have "list_min rows \<le> i div n_cols" "i div n_cols \<le> stop" using rm stopb by fastforce+
    then show ?thesis using assms(3,5) that stopb(2) by (auto intro!: nth_sorted)
  qed
  have freq: "freq_axis ! list_min cols \<le> freq_axis ! (i mod n_cols) \<and>
      freq_axis ! (i mod n_cols) \<le> freq_axis ! list_max cols" if "i \<in> set idx" for i
  proof -
    have "i mod n_cols \<in> set cols" using that by (auto simp: cols_def)
    moreover have "list_max cols < length freq_axis" using cm(2) colb by (auto simp: cols_def)
    ultimately show ?thesis using assms(4) cm colb by (auto intro!: nth_sorted)
  qed
  have peak: "\<exists>i \<in> set idx. list_max powers = grid ! (i div n_cols) ! (i mod n_cols) \<and>
      first_max (zip cols powers) = i mod n_cols"
  proof -
    obtain p where p: "(first_max (zip cols powers), p) \<in> set (zip cols powers)"
      "\<forall>(i, q) \<in> set (zip cols powers). q \<le> p"
      using first_max_in [OF ne(4)] by blast
    have z: "set (zip cols powers) = (\<lambda>i. (i mod n_cols, grid ! (i div n_cols) ! (i mod n_cols))) ` set idx"
      by (simp add: cols_def powers_def zip_map_map zip_same_conv_map image_image)
    obtain i where i: "i \<in> set idx" "first_max (zip cols powers) = i mod n_cols"
      "p = grid ! (i div n_cols) ! (i mod n_cols)"
      using p(1) unfolding z by auto
    have "p \<in> set powers" using i by (auto simp: powers_def)
    moreover have "\<forall>q \<in> set powers. q \<le> p" using p(2) unfolding z by (auto simp: powers_def)
    ultimately have "list_max powers = p" using pm by (meson antisym)
    then show ?thesis using i by blast
  qed
  have r: "r = (if time_axis ! stop - time_axis ! list_min rows < min_d then None
      else Some \<lparr>fp_start_time = t0 + time_axis ! list_min rows, fp_stop_time = t0 + time_axis ! stop,
        fp_center_freq_hz = center + (freq_axis ! list_min cols + freq_axis ! list_max cols) / 2,
        fp_peak_freq_hz = center + freq_axis ! first_max (zip cols powers),
        fp_bandwidth_hz = max (freq_axis ! list_max cols - freq_axis ! list_min cols) 0,
        fp_peak_power_db = list_max powers,
        fp_duration_ms = (time_axis ! stop - time_axis ! list_min rows) * 1000,
        fp_detection_timestamp = t0, fp_start_sample = None, fp_stop_sample = None\<rparr>)"
    unfolding assms(7) region_fingerprint_def Let_def rows_def [symmetric] cols_def [symmetric]
      powers_def [symmetric] stop_def by (rule refl)
  have row0: "\<exists>i \<in> set idx. list_min rows = i div n_cols" using rm(1) by (auto simp: rows_def)
  show ?thesis
  proof (cases r)
    case None
    then have "time_axis ! stop - time_axis ! list_min rows < min_d" by (simp add: r split: if_splits)
    then show ?thesis using row0 None by (auto simp: stop_def rows_def)
  next
    case (Some b)
    define lo hi where "lo = freq_axis ! list_min cols" and "hi = freq_axis ! list_max cols"
    have "\<exists>i \<in> set idx. list_min cols = i mod n_cols" "\<exists>i \<in> set idx. list_max cols = i mod n_cols"
      using cm by (auto simp: cols_def)
    moreover have lh: "lo \<le> hi" using freq assms(1) unfolding lo_def hi_def
      by (meson list.set_sel(1) order_trans)
    have b: "min_d \<le> time_axis ! stop - time_axis ! list_min rows"
      "fp_start_time b = t0 + time_axis ! list_min rows" "fp_stop_time b = t0 + time_axis ! stop"
      "fp_duration_ms b = (time_axis ! stop - time_axis ! list_min rows) * 1000"
      "fp_peak_power_db b = list_max powers"
      "fp_peak_freq_hz b = center + freq_axis ! first_max (zip cols powers)"
      using Some by (auto simp: r split: if_splits)
    have "fp_center_freq_hz b = center + (lo + hi) / 2" "fp_bandwidth_hz b = hi - lo"
      using Some lh by (auto simp: r lo_def hi_def split: if_splits)
    then have "fp_lo b = center + lo" "fp_hi b = center + hi"
      by (simp_all add: fp_lo_def fp_hi_def field_simps)
    ultimately show ?thesis
      using Some b time freq peak row0 pm unfolding lo_def hi_def
      by (simp add: powers_def) (metis (no_types, lifting))
  qed
qed

definition ex_axis :: "rat list" where "ex_axis = [0, 1, 2]"

definition ex_grid :: grid where "ex_grid = [[0, 9, 0], [0, 5, 7], [0, 0, 0]]"

theorem region_fingerprint_bounds_witness:
  "case region_fingerprint ex_grid 3 ex_axis ex_axis 100 0 0 [1, 4, 5] of None \<Rightarrow> False
     | Some b \<Rightarrow> fp_duration_ms b = (fp_stop_time b - fp_start_time b) * 1000"
proof -
  have "sorted ex_axis" "\<forall>i \<in> set [1, 4, 5 :: nat]. i div 3 < length ex_axis" "3 \<le> length ex_axis"
    "region_fingerprint ex_grid 3 ex_axis ex_axis 100 0 0 [1, 4, 5] \<noteq> None"
    by code_simp+
  then show ?thesis
    using region_fingerprint_bounds [of "[1, 4, 5]" 3 ex_axis ex_axis _ ex_grid 100 0 0, OF _ _ _ _ _ _ refl]
    by (auto split: option.splits)
qed

section \<open>Merging\<close>

text \<open>\<open>spanned bs m\<close>: \<open>m\<close> is the smallest burst that spans the bursts \<open>bs\<close>, at the first one's start.\<close>

definition spanned :: "fingerprint list \<Rightarrow> fingerprint \<Rightarrow> bool" where
  "spanned bs m \<longleftrightarrow> bs \<noteq> [] \<and> fp_start_time m = fp_start_time (hd bs) \<and>
     fp_stop_time m = list_max (map fp_stop_time bs) \<and>
     fp_lo m = list_min (map fp_lo bs) \<and> fp_hi m = list_max (map fp_hi bs) \<and>
     fp_peak_power_db m = list_max (map fp_peak_power_db bs) \<and>
     (\<exists>b \<in> set bs. fp_peak_power_db b = fp_peak_power_db m \<and> fp_peak_freq_hz b = fp_peak_freq_hz m)"

lemma merge_two_band:
  "fp_center_freq_hz (merge_two c n) = (min (fp_lo c) (fp_lo n) + max (fp_hi c) (fp_hi n)) / 2"
  "fp_bandwidth_hz (merge_two c n) = max (fp_hi c) (fp_hi n) - min (fp_lo c) (fp_lo n)"
  by (simp_all add: merge_two_def Let_def)

lemma merge_two_bounds:
  "fp_start_time (merge_two c n) = fp_start_time c"
  "fp_stop_time (merge_two c n) = max (fp_stop_time c) (fp_stop_time n)"
  "fp_lo (merge_two c n) = min (fp_lo c) (fp_lo n)" "fp_hi (merge_two c n) = max (fp_hi c) (fp_hi n)"
  "fp_peak_power_db (merge_two c n) = max (fp_peak_power_db c) (fp_peak_power_db n)"
proof -
  define lo hi where "lo = min (fp_lo c) (fp_lo n)" and "hi = max (fp_hi c) (fp_hi n)"
  note band = merge_two_band [of c n, folded lo_def hi_def]
  show "fp_lo (merge_two c n) = min (fp_lo c) (fp_lo n)"
    unfolding lo_def [symmetric] fp_lo_def [of "merge_two c n"] band by (simp add: field_simps)
  show "fp_hi (merge_two c n) = max (fp_hi c) (fp_hi n)"
    unfolding hi_def [symmetric] fp_hi_def [of "merge_two c n"] band by (simp add: field_simps)
qed (simp_all add: merge_two_def Let_def)

lemma spanned_single: "spanned [b] b"
  by (simp add: spanned_def list_min_def list_max_def)

lemma spanned_snoc:
  assumes "spanned bs m" shows "spanned (bs @ [n]) (merge_two m n)"
proof -
  have ne: "bs \<noteq> []" and peak: "\<exists>b \<in> set bs. fp_peak_power_db b = fp_peak_power_db m \<and> fp_peak_freq_hz b = fp_peak_freq_hz m"
    using assms by (auto simp: spanned_def)
  have "\<exists>b \<in> set (bs @ [n]). fp_peak_power_db b = fp_peak_power_db (merge_two m n) \<and>
      fp_peak_freq_hz b = fp_peak_freq_hz (merge_two m n)"
  proof (cases "fp_peak_power_db n \<le> fp_peak_power_db m")
    case True
    then have "fp_peak_power_db (merge_two m n) = fp_peak_power_db m"
      "fp_peak_freq_hz (merge_two m n) = fp_peak_freq_hz m"
      by (simp_all add: merge_two_def Let_def)
    then show ?thesis using peak by auto
  next
    case False
    then have "fp_peak_power_db (merge_two m n) = fp_peak_power_db n"
      "fp_peak_freq_hz (merge_two m n) = fp_peak_freq_hz n"
      by (simp_all add: merge_two_def Let_def)
    then show ?thesis by auto
  qed
  then show ?thesis
    using assms ne by (simp add: spanned_def merge_two_bounds list_min_max_snoc)
qed

lemma merge_loop_groups:
  "spanned pre cur \<Longrightarrow> \<exists>groups. concat groups = pre @ bs \<and>
    list_all2 spanned groups (merge_loop gap tol cur bs) \<and> take (length pre) (hd groups) = pre \<and> groups \<noteq> [] \<and>
    (\<forall>i. Suc i < length groups \<longrightarrow>
      \<not> mergeable gap tol (merge_loop gap tol cur bs ! i) (hd (groups ! Suc i)))"
proof (induction gap tol cur bs arbitrary: pre rule: merge_loop.induct)
  case (1 gap tol cur)
  then show ?case by (intro exI [of _ "[pre]"]) simp
next
  case (2 gap tol cur n ns)
  show ?case
  proof (cases "mergeable gap tol cur n")
    case True
    from "2.IH"(1) [OF True spanned_snoc [OF "2.prems"]]
    obtain groups where g: "concat groups = (pre @ [n]) @ ns"
      "list_all2 spanned groups (merge_loop gap tol (merge_two cur n) ns)"
      "take (length (pre @ [n])) (hd groups) = pre @ [n]" "groups \<noteq> []"
      "\<forall>i. Suc i < length groups \<longrightarrow> \<not> mergeable gap tol
        (merge_loop gap tol (merge_two cur n) ns ! i) (hd (groups ! Suc i))"
      by blast
    have "take (length pre) (take (length (pre @ [n])) (hd groups)) = pre" unfolding g(3) by simp
    then have "take (length pre) (hd groups) = pre" by (simp add: min_def)
    then show ?thesis using g True by (intro exI [of _ groups]) simp
  next
    case False
    from "2.IH"(2) [OF False spanned_single]
    obtain groups where g: "concat groups = [n] @ ns" "list_all2 spanned groups (merge_loop gap tol n ns)"
      "take (length [n]) (hd groups) = [n]" "groups \<noteq> []"
      "\<forall>i. Suc i < length groups \<longrightarrow> \<not> mergeable gap tol (merge_loop gap tol n ns ! i) (hd (groups ! Suc i))"
      by blast
    have "hd (hd groups) = n" using g(3) by (cases "hd groups") auto
    then have "\<forall>i. Suc i < length (pre # groups) \<longrightarrow>
        \<not> mergeable gap tol ((cur # merge_loop gap tol n ns) ! i) (hd ((pre # groups) ! Suc i))"
      using g(4,5) False by (auto simp: nth_Cons hd_conv_nth split: nat.splits)
    then show ?thesis
      using g False "2.prems" by (intro exI [of _ "pre # groups"]) simp
  qed
qed

text \<open>
  Merging keeps every burst. The bursts are cut into consecutive groups and each
  group becomes the smallest burst that spans it: from the start of its first to the
  latest stop, over the union of the bands, with the peak power and the peak frequency
  of its strongest; and a group ends only where the next burst does not overlap in
  frequency (within the tolerance) or starts too late.
\<close>

theorem merge_bursts_spans:
  "\<exists>groups. concat groups = bursts \<and> list_all2 spanned groups (merge_bursts gap tol bursts) \<and>
    (\<forall>i < length groups - 1.
      \<not> mergeable gap tol (merge_bursts gap tol bursts ! i) (hd (groups ! Suc i)))"
proof (cases bursts)
  case Nil
  then show ?thesis by (intro exI [of _ "[]"]) (simp add: merge_bursts_def)
next
  case (Cons b bs)
  then have m: "merge_bursts gap tol bursts = merge_loop gap tol b bs"
    by (cases bs) (simp_all add: merge_bursts_def)
  from merge_loop_groups [OF spanned_single [of b], of bs gap tol]
  obtain groups where "concat groups = bursts" "list_all2 spanned groups (merge_loop gap tol b bs)"
    "\<forall>i. Suc i < length groups \<longrightarrow> \<not> mergeable gap tol (merge_loop gap tol b bs ! i) (hd (groups ! Suc i))"
    unfolding Cons by auto
  then show ?thesis unfolding m by (intro exI [of _ groups]) auto
qed

definition ex_burst :: "rat \<Rightarrow> rat \<Rightarrow> rat \<Rightarrow> fingerprint" where
  "ex_burst a b f = \<lparr>fp_start_time = a, fp_stop_time = b, fp_center_freq_hz = f, fp_peak_freq_hz = f,
     fp_bandwidth_hz = 2, fp_peak_power_db = 0, fp_duration_ms = (b - a) * 1000,
     fp_detection_timestamp = 0, fp_start_sample = None, fp_stop_sample = None\<rparr>"

theorem merge_bursts_spans_witness:
  "length (merge_bursts 1 0 [ex_burst 0 1 5, ex_burst 2 3 6, ex_burst 9 10 6]) \<le> 3"
proof -
  obtain groups where g: "concat groups = [ex_burst 0 1 5, ex_burst 2 3 6, ex_burst 9 10 6]"
    "list_all2 spanned groups (merge_bursts 1 0 [ex_burst 0 1 5, ex_burst 2 3 6, ex_burst 9 10 6])"
    using merge_bursts_spans by blast
  have "\<forall>x \<in> set groups. 1 \<le> length x"
    using g(2) by (auto simp: list_all2_conv_all_nth in_set_conv_nth spanned_def Suc_le_eq)
  then have "length groups \<le> sum_list (map length groups)"
    by (induction groups) auto
  also have "\<dots> = 3" using arg_cong [OF g(1), of length] by (simp add: length_concat)
  finally show ?thesis using g(2) by (simp add: list_all2_lengthD)
qed

end
