(* ===== verification/Rolling_Burst.thy ===== *)
theory Rolling_Burst
  imports Burst Ring_Buffer
begin

text \<open>
  \<open>processing/rolling_burst.py\<close>: burst detection over a sliding window of PSD rows.
  Every evaluation detects the bursts of the window again; a burst is tracked across
  evaluations by frequency and time, and emitted once. A track object is a record
  with an identity, the index over the tracks maps frequency buckets to identities.
\<close>

section \<open>State\<close>

record track =
  tr_id :: nat
  tr_abs_start :: int
  tr_abs_end :: int
  tr_lo :: rat
  tr_hi :: rat
  tr_center :: rat
  tr_peak_db :: rat
  tr_peak_freq :: rat
  tr_last_eval :: nat
  tr_growing :: bool
  tr_emitted :: bool

record rolling =
  ro_window_rows :: nat
  ro_eval_interval :: nat
  ro_num_bins :: nat
  ro_center :: rat
  ro_freq_axis :: "rat list"
  ro_tres :: rat
  ro_window :: grid
  ro_write_pos :: nat
  ro_rows_filled :: nat
  ro_rows_since_eval :: nat
  ro_total :: nat
  ro_row_pos :: "int list"
  ro_slice_samples :: "int option"
  ro_eval_count :: nat
  ro_tracked :: "track list"
  ro_last_detection :: "detection_result option"
  ro_eval_base :: "int option"
  ro_tol :: rat
  ro_bucket :: rat
  ro_index :: "int \<Rightarrow> nat list"
  ro_order :: "nat \<Rightarrow> nat option"
  ro_next_order :: nat
  ro_next_id :: nat

definition rolling_new :: "nat \<Rightarrow> nat \<Rightarrow> nat \<Rightarrow> rat \<Rightarrow> rat list \<Rightarrow> rat \<Rightarrow> rolling" where
  "rolling_new window_rows eval_interval num_bins center freq_axis tres =
     (let bin_hz = (if 1 < length freq_axis then \<bar>freq_axis ! 1 - freq_axis ! 0\<bar> else 0);
          tol = max (bin_hz * 2) 1000
      in \<lparr>ro_window_rows = window_rows, ro_eval_interval = eval_interval, ro_num_bins = num_bins,
          ro_center = center, ro_freq_axis = freq_axis, ro_tres = tres,
          ro_window = replicate window_rows (replicate num_bins (-200)), ro_write_pos = 0,
          ro_rows_filled = 0, ro_rows_since_eval = 0, ro_total = 0,
          ro_row_pos = replicate (2 * window_rows) (-1), ro_slice_samples = None, ro_eval_count = 0,
          ro_tracked = [], ro_last_detection = None, ro_eval_base = None, ro_tol = tol,
          ro_bucket = tol, ro_index = (\<lambda>_. []), ro_order = (\<lambda>_. None), ro_next_order = 0,
          ro_next_id = 0\<rparr>)"

section \<open>The index over the tracks\<close>

definition bucket_range :: "rat \<Rightarrow> rat \<Rightarrow> rat \<Rightarrow> int list" where
  "bucket_range b lo hi = [\<lfloor>lo / b\<rfloor> - 1..\<lfloor>hi / b\<rfloor> + 1]"

definition index_track :: "track \<Rightarrow> rolling \<Rightarrow> rolling" where
  "index_track t r = (let ks = bucket_range (ro_bucket r) (tr_lo t - ro_tol r) (tr_hi t + ro_tol r)
     in r\<lparr>ro_index := fold (\<lambda>k ix. ix(k := ix k @ [tr_id t])) ks (ro_index r)\<rparr>)"

definition candidates :: "rolling \<Rightarrow> rat \<Rightarrow> rat \<Rightarrow> nat list" where
  "candidates r f_lo f_hi =
     sort_key (\<lambda>i. the (ro_order r i))
       (remdups (concat (map (ro_index r) (bucket_range (ro_bucket r) f_lo f_hi))))"

definition rebuild_index :: "rolling \<Rightarrow> rolling" where
  "rebuild_index r = fold index_track (ro_tracked r) (r\<lparr>ro_index := (\<lambda>_. []),
     ro_order := map_of (zip (map tr_id (ro_tracked r)) [0..<length (ro_tracked r)]),
     ro_next_order := length (ro_tracked r)\<rparr>)"

section \<open>Matching a detection to a track\<close>

text \<open>A detection in absolute rows, with its band.\<close>

record sighting =
  si_burst :: fingerprint
  si_abs_start :: int
  si_abs_end :: int
  si_lo :: rat
  si_hi :: rat
  si_growing :: bool

definition matches :: "rat \<Rightarrow> sighting \<Rightarrow> track \<Rightarrow> bool" where
  "matches tol s t \<longleftrightarrow>
     \<bar>fp_center_freq_hz (si_burst s) - tr_center t\<bar> \<le> tol + (si_hi s - si_lo s + tr_hi t - tr_lo t) / 2 \<and>
     si_abs_start s \<le> tr_abs_end t + 3 \<and> tr_abs_start t - 3 \<le> si_abs_end s"

definition extend_track :: "nat \<Rightarrow> sighting \<Rightarrow> track \<Rightarrow> track" where
  "extend_track eval_count s t =
     (let lo = min (tr_lo t) (si_lo s); hi = max (tr_hi t) (si_hi s); b = si_burst s
      in t\<lparr>tr_abs_start := min (tr_abs_start t) (si_abs_start s),
           tr_abs_end := max (tr_abs_end t) (si_abs_end s), tr_lo := lo, tr_hi := hi,
           tr_center := (lo + hi) / 2,
           tr_peak_freq := (if tr_peak_db t < fp_peak_power_db b then fp_peak_freq_hz b else tr_peak_freq t),
           tr_peak_db := max (tr_peak_db t) (fp_peak_power_db b),
           tr_last_eval := eval_count, tr_growing := si_growing s\<rparr>)"

definition new_track :: "nat \<Rightarrow> nat \<Rightarrow> sighting \<Rightarrow> track" where
  "new_track eval_count i s = \<lparr>tr_id = i, tr_abs_start = si_abs_start s, tr_abs_end = si_abs_end s,
     tr_lo = si_lo s, tr_hi = si_hi s, tr_center = fp_center_freq_hz (si_burst s),
     tr_peak_db = fp_peak_power_db (si_burst s), tr_peak_freq = fp_peak_freq_hz (si_burst s),
     tr_last_eval = eval_count, tr_growing = si_growing s, tr_emitted = False\<rparr>"

definition replace_track :: "track \<Rightarrow> track list \<Rightarrow> track list" where
  "replace_track t ts = map (\<lambda>u. if tr_id u = tr_id t then t else u) ts"

definition track_of :: "rolling \<Rightarrow> nat \<Rightarrow> track option" where
  "track_of r i = find (\<lambda>t. tr_id t = i) (ro_tracked r)"

definition absorb :: "sighting \<Rightarrow> rolling \<Rightarrow> rolling" where
  "absorb s r =
     (case find (\<lambda>t. matches (ro_tol r) s t) (List.map_filter (track_of r) (candidates r (si_lo s) (si_hi s))) of
        Some t \<Rightarrow>
          (let widened = (si_lo s < tr_lo t \<or> tr_hi t < si_hi s);
               t' = extend_track (ro_eval_count r) s t;
               r = r\<lparr>ro_tracked := replace_track t' (ro_tracked r)\<rparr>
           in if widened then index_track t' r else r)
      | None \<Rightarrow>
          (let t = new_track (ro_eval_count r) (ro_next_id r) s
           in index_track t (r\<lparr>ro_tracked := ro_tracked r @ [t],
                ro_order := (ro_order r)(tr_id t := Some (ro_next_order r)),
                ro_next_order := ro_next_order r + 1, ro_next_id := ro_next_id r + 1\<rparr>)))"

section \<open>Emitting\<close>

definition to_fingerprint :: "rolling \<Rightarrow> rat \<Rightarrow> track \<Rightarrow> fingerprint" where
  "to_fingerprint r now t =
     (let n_rows = tr_abs_end t - tr_abs_start t; tres = ro_tres r;
          L = int (length (ro_row_pos r)); last_row = tr_abs_end t - 1;
          pos_of = (\<lambda>a. ro_row_pos r ! nat (a mod L));
          known = (ro_slice_samples r \<noteq> None \<and> int (ro_total r) - L \<le> tr_abs_start t \<and>
                   tr_abs_start t \<le> last_row \<and> 0 \<le> pos_of (tr_abs_start t) \<and>
                   pos_of (tr_abs_start t) \<le> pos_of last_row)
      in \<lparr>fp_start_time = now - of_int (int (ro_total r) - tr_abs_start t) * tres,
          fp_stop_time = now - of_int (int (ro_total r) - tr_abs_end t) * tres,
          fp_center_freq_hz = tr_center t, fp_peak_freq_hz = tr_peak_freq t,
          fp_bandwidth_hz = max (tr_hi t - tr_lo t) 0, fp_peak_power_db = tr_peak_db t,
          fp_duration_ms = of_int n_rows * tres * 1000, fp_detection_timestamp = now,
          fp_start_sample = (if known then Some (pos_of (tr_abs_start t)) else None),
          fp_stop_sample = (if known then Some (pos_of last_row + the (ro_slice_samples r)) else None)\<rparr>)"

definition scrolled_out :: "int \<Rightarrow> track \<Rightarrow> bool" where
  "scrolled_out base t \<longleftrightarrow> tr_abs_end t < base"

definition finishes :: "nat \<Rightarrow> int \<Rightarrow> track \<Rightarrow> bool" where
  "finishes eval_count base t \<longleftrightarrow> \<not> tr_emitted t \<and>
     ((tr_last_eval t = eval_count \<and> \<not> tr_growing t) \<or> scrolled_out base t)"

definition finished_tracks :: "int \<Rightarrow> rolling \<Rightarrow> track list" where
  "finished_tracks base r = filter (finishes (ro_eval_count r) base) (ro_tracked r)"

definition mark_emitted :: "nat \<Rightarrow> int \<Rightarrow> track \<Rightarrow> track" where
  "mark_emitted eval_count base t = (if finishes eval_count base t then t\<lparr>tr_emitted := True\<rparr> else t)"

definition keep_tracks :: "int \<Rightarrow> rolling \<Rightarrow> rolling" where
  "keep_tracks base r = rebuild_index (r\<lparr>ro_tracked :=
     filter (\<lambda>t. \<not> scrolled_out base t) (map (mark_emitted (ro_eval_count r) base) (ro_tracked r))\<rparr>)"

definition collect_finished :: "rat \<Rightarrow> int \<Rightarrow> rolling \<Rightarrow> rolling \<times> fingerprint list" where
  "collect_finished now base r =
     (keep_tracks base r, map (to_fingerprint r now) (finished_tracks base r))"

section \<open>Evaluating and feeding\<close>

type_synonym detector = "rat list \<Rightarrow> rat list \<Rightarrow> rat \<Rightarrow> rat \<Rightarrow> grid \<Rightarrow> detection_result"

definition window_grid :: "rolling \<Rightarrow> grid" where
  "window_grid r = (if ro_rows_filled r < ro_window_rows r then take (ro_rows_filled r) (ro_window r)
     else drop (ro_write_pos r) (ro_window r) @ take (ro_write_pos r) (ro_window r))"

definition sighting_of :: "rolling \<Rightarrow> nat \<Rightarrow> int \<Rightarrow> fingerprint \<Rightarrow> sighting" where
  "sighting_of r n_rows base b =
     (let start_row = py_round ((fp_start_time b - fp_detection_timestamp b) / ro_tres r);
          end_row = py_round ((fp_stop_time b - fp_detection_timestamp b) / ro_tres r)
      in \<lparr>si_burst = b, si_abs_start = base + start_row, si_abs_end = base + end_row,
          si_lo = fp_lo b, si_hi = fp_hi b, si_growing = (int n_rows - 3 \<le> end_row)\<rparr>)"

text \<open>The state of an evaluation with every detection absorbed, and the window's first row.\<close>

definition absorb_detections :: "detector \<Rightarrow> rat \<Rightarrow> rolling \<Rightarrow> rolling \<times> int" where
  "absorb_detections detect now r =
     (let grid = window_grid r; n_rows = length grid;
          time_axis = map (\<lambda>k. of_nat k * ro_tres r) [0..<n_rows];
          result = detect time_axis (ro_freq_axis r) (ro_center r) now grid;
          base = int (ro_total r) - int n_rows;
          r = r\<lparr>ro_last_detection := Some result, ro_eval_count := ro_eval_count r + 1,
                ro_eval_base := Some base\<rparr>
      in (fold absorb (map (sighting_of r n_rows base) (dr_bursts result)) r, base))"

definition evaluate :: "detector \<Rightarrow> rat \<Rightarrow> rolling \<Rightarrow> rolling \<times> fingerprint list" where
  "evaluate detect now r = (let (r, base) = absorb_detections detect now r in collect_finished now base r)"

text \<open>Writing the rows; \<open>None\<close> when numpy refuses the assignment (more rows than fit).\<close>

definition write_rows :: "grid \<Rightarrow> int option \<Rightarrow> int option \<Rightarrow> rolling \<Rightarrow> rolling option" where
  "write_rows new_rows chunk_start slice_samples r =
     (let n_new = length new_rows; end_pos = ro_write_pos r + n_new; W = ro_window_rows r;
          first = W - ro_write_pos r; L = length (ro_row_pos r)
      in if W < end_pos \<and> W < n_new - first then None
         else
           let win = (if end_pos \<le> W then slice_set (ro_write_pos r) new_rows (ro_window r)
                 else slice_set 0 (drop first new_rows) (slice_set (ro_write_pos r) (take first new_rows) (ro_window r)));
               slot = (\<lambda>k. (ro_total r + k) mod L);
               (val, ss) = (case (chunk_start, slice_samples) of
                   (Some cs, Some sl) \<Rightarrow> if sl \<noteq> 0 then (\<lambda>k. cs + int k * sl, Some sl)
                                         else (\<lambda>_. -1, ro_slice_samples r)
                 | _ \<Rightarrow> (\<lambda>_. -1, ro_slice_samples r))
           in Some (r\<lparr>ro_window := win, ro_write_pos := end_pos mod W,
                ro_rows_filled := min (ro_rows_filled r + n_new) W,
                ro_row_pos := fold (\<lambda>k rp. rp[slot k := val k]) [0..<n_new] (ro_row_pos r),
                ro_slice_samples := ss, ro_total := ro_total r + n_new,
                ro_rows_since_eval := ro_rows_since_eval r + n_new\<rparr>))"

definition feed :: "detector \<Rightarrow> rat \<Rightarrow> grid \<Rightarrow> int option \<Rightarrow> int option \<Rightarrow> rolling \<Rightarrow> (rolling \<times> fingerprint list) option" where
  "feed detect now new_rows chunk_start slice_samples r =
     (case write_rows new_rows chunk_start slice_samples r of None \<Rightarrow> None
      | Some r \<Rightarrow>
          if ro_eval_interval r \<le> ro_rows_since_eval r \<and> ro_eval_interval r \<le> ro_rows_filled r
          then Some (evaluate detect now (r\<lparr>ro_rows_since_eval := 0\<rparr>))
          else Some (r, []))"

definition window_samples :: "rolling \<Rightarrow> fingerprint \<Rightarrow> (int \<times> int) option" where
  "window_samples r b = (case (ro_slice_samples r, ro_eval_base r) of
     (Some ss, Some base) \<Rightarrow>
       (let first = base + py_round ((fp_start_time b - fp_detection_timestamp b) / ro_tres r);
            last = base + py_round ((fp_stop_time b - fp_detection_timestamp b) / ro_tres r) - 1;
            L = int (length (ro_row_pos r))
        in if first < int (ro_total r) - L \<or> last < first then None
           else let p0 = ro_row_pos r ! nat (first mod L); p1 = ro_row_pos r ! nat (last mod L)
                in if p0 < 0 \<or> p1 < p0 then None else Some (p0, p1 + ss))
   | _ \<Rightarrow> None)"

definition reset :: "rolling \<Rightarrow> rolling" where
  "reset r = rebuild_index (r\<lparr>ro_window := map (map (\<lambda>_. -200)) (ro_window r), ro_write_pos := 0,
     ro_rows_filled := 0, ro_rows_since_eval := 0, ro_total := 0,
     ro_row_pos := map (\<lambda>_. -1) (ro_row_pos r), ro_slice_samples := None, ro_eval_count := 0,
     ro_tracked := [], ro_last_detection := None, ro_eval_base := None\<rparr>)"


section \<open>The bucket index finds what a linear scan finds\<close>

text \<open>The linear scan over all tracks that the index replaces.\<close>

definition scan_absorb :: "rat \<Rightarrow> nat \<Rightarrow> sighting \<Rightarrow> track list \<times> nat \<Rightarrow> track list \<times> nat" where
  "scan_absorb tol eval_count s = (\<lambda>(ts, i). case find (matches tol s) ts of
       Some t \<Rightarrow> (replace_track (extend_track eval_count s t) ts, i)
     | None \<Rightarrow> (ts @ [new_track eval_count i s], i + 1))"

definition track_ok :: "track \<Rightarrow> bool" where
  "track_ok t \<longleftrightarrow> tr_lo t \<le> tr_hi t \<and> tr_center t = (tr_lo t + tr_hi t) / 2"

definition sighting_ok :: "sighting \<Rightarrow> bool" where
  "sighting_ok s \<longleftrightarrow> si_lo s \<le> si_hi s \<and> fp_center_freq_hz (si_burst s) = (si_lo s + si_hi s) / 2"

definition indexed :: "rolling \<Rightarrow> track \<Rightarrow> bool" where
  "indexed r t \<longleftrightarrow> (\<forall>k \<in> set (bucket_range (ro_bucket r) (tr_lo t - ro_tol r) (tr_hi t + ro_tol r)).
     tr_id t \<in> set (ro_index r k))"

definition index_ok :: "rolling \<Rightarrow> bool" where
  "index_ok r \<longleftrightarrow> 0 < ro_bucket r \<and> 0 \<le> ro_tol r \<and>
     distinct (map tr_id (ro_tracked r)) \<and> (\<forall>t \<in> set (ro_tracked r). tr_id t < ro_next_id r) \<and>
     sorted_wrt (<) (map (\<lambda>t. the (ro_order r (tr_id t))) (ro_tracked r)) \<and>
     (\<forall>t \<in> set (ro_tracked r). the (ro_order r (tr_id t)) < ro_next_order r) \<and>
     (\<forall>t \<in> set (ro_tracked r). track_ok t \<and> indexed r t) \<and>
     (\<forall>k. set (ro_index r k) \<subseteq> tr_id ` set (ro_tracked r))"

lemma fold_register:
  "fold (\<lambda>k ix. ix(k := ix k @ [i])) ks ix k =
     ix k @ replicate (count_list ks k) i"
  by (induction ks arbitrary: ix) (auto simp: replicate_append_same [symmetric])

lemma index_track_simps [simp]:
  "ro_tracked (index_track t r) = ro_tracked r" "ro_order (index_track t r) = ro_order r"
  "ro_next_order (index_track t r) = ro_next_order r" "ro_next_id (index_track t r) = ro_next_id r"
  "ro_bucket (index_track t r) = ro_bucket r" "ro_tol (index_track t r) = ro_tol r"
  "ro_eval_count (index_track t r) = ro_eval_count r" "ro_window_rows (index_track t r) = ro_window_rows r"
  "ro_window (index_track t r) = ro_window r" "ro_write_pos (index_track t r) = ro_write_pos r"
  "ro_rows_filled (index_track t r) = ro_rows_filled r" "ro_total (index_track t r) = ro_total r"
  "ro_row_pos (index_track t r) = ro_row_pos r" "ro_slice_samples (index_track t r) = ro_slice_samples r"
  "ro_eval_interval (index_track t r) = ro_eval_interval r" "ro_tres (index_track t r) = ro_tres r"
  "ro_rows_since_eval (index_track t r) = ro_rows_since_eval r"
  by (simp_all add: index_track_def Let_def)

lemma set_index_track:
  "set (ro_index (index_track t r) k) = set (ro_index r k) \<union>
     (if k \<in> set (bucket_range (ro_bucket r) (tr_lo t - ro_tol r) (tr_hi t + ro_tol r)) then {tr_id t} else {})"
  by (auto simp: index_track_def Let_def fold_register count_list_0_iff set_replicate_conv_if)

lemma indexed_index_track:
  "indexed r u \<Longrightarrow> indexed (index_track t r) u" "indexed (index_track t r) t"
  by (auto simp: indexed_def set_index_track)

lemma indexed_cong:
  "ro_index r = ro_index r' \<Longrightarrow> ro_bucket r = ro_bucket r' \<Longrightarrow> ro_tol r = ro_tol r' \<Longrightarrow>
   tr_id t = tr_id t' \<Longrightarrow> tr_lo t = tr_lo t' \<Longrightarrow> tr_hi t = tr_hi t' \<Longrightarrow> indexed r t = indexed r' t'"
  by (simp add: indexed_def)

text \<open>A match shares a bucket with the detection.\<close>

lemma matches_bucket:
  assumes m: "matches (ro_tol r) s t" and s: "sighting_ok s" and t: "track_ok t" "indexed r t"
    and b: "0 < ro_bucket r" "0 \<le> ro_tol r"
  shows "\<exists>k \<in> set (bucket_range (ro_bucket r) (si_lo s) (si_hi s)). tr_id t \<in> set (ro_index r k)"
proof -
  define x where "x = max (si_lo s) (tr_lo t - ro_tol r)"
  have near: "\<bar>(si_lo s + si_hi s) / 2 - (tr_lo t + tr_hi t) / 2\<bar> \<le>
      ro_tol r + (si_hi s - si_lo s + tr_hi t - tr_lo t) / 2"
    using m s t unfolding matches_def sighting_ok_def track_ok_def by metis
  have "(si_lo s + si_hi s) / 2 - (tr_lo t + tr_hi t) / 2 \<le>
      ro_tol r + (si_hi s - si_lo s + tr_hi t - tr_lo t) / 2"
    by (rule order_trans [OF abs_ge_self near])
  then have lo: "si_lo s \<le> tr_hi t + ro_tol r" by (simp add: field_simps)
  have "- ((si_lo s + si_hi s) / 2 - (tr_lo t + tr_hi t) / 2) \<le>
      ro_tol r + (si_hi s - si_lo s + tr_hi t - tr_lo t) / 2"
    by (rule order_trans [OF abs_ge_minus_self near])
  then have hi: "tr_lo t - ro_tol r \<le> si_hi s" by (simp add: field_simps)
  have x: "si_lo s \<le> x" "x \<le> si_hi s" "tr_lo t - ro_tol r \<le> x" "x \<le> tr_hi t + ro_tol r"
    using lo hi s t b by (auto simp: x_def sighting_ok_def track_ok_def)
  have in_range: "\<lfloor>x / ro_bucket r\<rfloor> \<in> set (bucket_range (ro_bucket r) l h)" if "l \<le> x" "x \<le> h" for l h
    using that b floor_mono [of "l / ro_bucket r" "x / ro_bucket r"]
      floor_mono [of "x / ro_bucket r" "h / ro_bucket r"]
    by (auto simp: bucket_range_def divide_right_mono)
  show ?thesis
    using t(2) in_range [OF x(3,4)] in_range [OF x(1,2)] by (auto simp: indexed_def)
qed

lemma track_of_eq:
  assumes "distinct (map tr_id (ro_tracked r))" "t \<in> set (ro_tracked r)"
  shows "track_of r (tr_id t) = Some t"
proof -
  have "find (\<lambda>u. tr_id u = tr_id t) ts = Some t" if "distinct (map tr_id ts)" "t \<in> set ts" for ts
    using that by (induction ts) force+
  with assms show ?thesis by (simp add: track_of_def)
qed

lemma find_filter_weaker: "(\<And>x. x \<in> set xs \<Longrightarrow> P x \<Longrightarrow> Q x) \<Longrightarrow> find P (filter Q xs) = find P xs"
  by (induction xs) auto

lemma candidates_in_order:
  assumes ok: "index_ok r"
  shows "List.map_filter (track_of r) (candidates r lo hi) =
    filter (\<lambda>t. \<exists>k \<in> set (bucket_range (ro_bucket r) lo hi). tr_id t \<in> set (ro_index r k)) (ro_tracked r)"
    (is "_ = filter ?hit _")
proof -
  define o_of where "o_of i = the (ro_order r i)" for i
  define hits where "hits = filter ?hit (ro_tracked r)"
  have sorted: "sorted_wrt (<) (map (\<lambda>t. o_of (tr_id t)) (ro_tracked r))"
    and dist: "distinct (map tr_id (ro_tracked r))"
    and sub: "\<And>k. set (ro_index r k) \<subseteq> tr_id ` set (ro_tracked r)"
    using ok by (auto simp: index_ok_def o_of_def)
  have shits: "sorted_wrt (<) (map o_of (map tr_id hits))"
    using sorted unfolding hits_def map_map comp_def by (simp add: sorted_wrt_map sorted_wrt_filter)
  have set: "set (candidates r lo hi) = set (map tr_id hits)"
  proof -
    have "i \<in> set (map tr_id hits)"
      if k: "k \<in> set (bucket_range (ro_bucket r) lo hi)" "i \<in> set (ro_index r k)" for k i
    proof -
      from sub k(2) obtain t where "t \<in> set (ro_tracked r)" "i = tr_id t" by blast
      then show ?thesis using k by (auto simp: hits_def)
    qed
    then show ?thesis by (auto simp: candidates_def hits_def)
  qed
  have "inj_on o_of (set (map tr_id (ro_tracked r)))"
    using sorted unfolding strict_sorted_iff by (auto simp: distinct_map inj_on_def)
  then have inj: "inj_on o_of (set (map tr_id hits))"
    by (rule inj_on_subset) (auto simp: hits_def)
  have "candidates r lo hi = map tr_id hits"
  proof (rule map_sorted_distinct_set_unique [where f = o_of])
    show "inj_on o_of (set (candidates r lo hi) \<union> set (map tr_id hits))" using inj set by simp
    show "sorted (map o_of (candidates r lo hi))"
      unfolding candidates_def o_of_def [abs_def] by (rule sorted_sort_key)
    show "distinct (map o_of (candidates r lo hi))"
      using inj unfolding set [symmetric] by (simp add: distinct_map candidates_def)
    show "sorted (map o_of (map tr_id hits))" using shits by (simp add: strict_sorted_iff)
    show "distinct (map o_of (map tr_id hits))" using shits by (simp add: strict_sorted_iff)
  qed (rule set)
  moreover have "List.map_filter (track_of r) (map tr_id hits') = hits'"
    if "set hits' \<subseteq> set (ro_tracked r)" for hits'
    using that by (induction hits') (auto simp: List.map_filter_simps track_of_eq [OF dist])
  ultimately show ?thesis by (simp add: hits_def)
qed

lemma find_candidates:
  assumes "index_ok r" "sighting_ok s"
  shows "find (matches (ro_tol r) s) (List.map_filter (track_of r) (candidates r (si_lo s) (si_hi s))) =
    find (matches (ro_tol r) s) (ro_tracked r)"
  unfolding candidates_in_order [OF assms(1)]
  by (rule find_filter_weaker)
    (use assms in \<open>auto intro!: matches_bucket simp: index_ok_def\<close>)

lemma extend_track_simps [simp]:
  "tr_id (extend_track n s t) = tr_id t" "tr_emitted (extend_track n s t) = tr_emitted t"
  by (simp_all add: extend_track_def Let_def)

lemma new_track_simps [simp]:
  "tr_id (new_track n i s) = i" "tr_emitted (new_track n i s) = False"
  by (simp_all add: new_track_def)

lemma replace_track_ids [simp]: "map tr_id (replace_track t ts) = map tr_id ts"
  by (simp add: replace_track_def)

lemma set_replace_track:
  "u \<in> set (replace_track t ts) \<Longrightarrow> u = t \<or> (u \<in> set ts \<and> tr_id u \<noteq> tr_id t)"
  by (auto simp: replace_track_def split: if_splits)

lemma extend_track_ok: "track_ok t \<Longrightarrow> track_ok (extend_track n s t)"
  by (auto simp: track_ok_def extend_track_def Let_def)

lemma new_track_ok: "sighting_ok s \<Longrightarrow> track_ok (new_track n i s)"
  by (simp add: track_ok_def sighting_ok_def new_track_def)

lemma extend_track_band:
  "\<not> (si_lo s < tr_lo t \<or> tr_hi t < si_hi s) \<Longrightarrow>
   tr_lo (extend_track n s t) = tr_lo t \<and> tr_hi (extend_track n s t) = tr_hi t"
  by (auto simp: extend_track_def Let_def)

lemma absorb_match:
  assumes "find (matches (ro_tol r) s) (ro_tracked r) = Some t" "index_ok r" "sighting_ok s"
  shows "absorb s r = (let t' = extend_track (ro_eval_count r) s t;
      r' = r\<lparr>ro_tracked := replace_track t' (ro_tracked r)\<rparr>
    in if si_lo s < tr_lo t \<or> tr_hi t < si_hi s then index_track t' r' else r')"
  by (simp add: absorb_def find_candidates [OF assms(2,3)] assms(1) Let_def)

lemma absorb_new:
  assumes "find (matches (ro_tol r) s) (ro_tracked r) = None" "index_ok r" "sighting_ok s"
  shows "absorb s r = (let t = new_track (ro_eval_count r) (ro_next_id r) s
    in index_track t (r\<lparr>ro_tracked := ro_tracked r @ [t],
         ro_order := (ro_order r)(tr_id t := Some (ro_next_order r)),
         ro_next_order := ro_next_order r + 1, ro_next_id := ro_next_id r + 1\<rparr>))"
  by (simp add: absorb_def find_candidates [OF assms(2,3)] assms(1) Let_def)

lemma absorb_scan:
  assumes "index_ok r" "sighting_ok s"
  shows "(ro_tracked (absorb s r), ro_next_id (absorb s r)) =
    scan_absorb (ro_tol r) (ro_eval_count r) s (ro_tracked r, ro_next_id r)"
  by (cases "find (matches (ro_tol r) s) (ro_tracked r)")
    (simp_all add: absorb_match [OF _ assms] absorb_new [OF _ assms] Let_def scan_absorb_def)

lemma absorb_keeps [simp]:
  "ro_bucket (absorb s r) = ro_bucket r" "ro_tol (absorb s r) = ro_tol r"
  "ro_eval_count (absorb s r) = ro_eval_count r" "ro_window_rows (absorb s r) = ro_window_rows r"
  "ro_window (absorb s r) = ro_window r" "ro_write_pos (absorb s r) = ro_write_pos r"
  "ro_rows_filled (absorb s r) = ro_rows_filled r" "ro_total (absorb s r) = ro_total r"
  "ro_row_pos (absorb s r) = ro_row_pos r" "ro_slice_samples (absorb s r) = ro_slice_samples r"
  "ro_eval_interval (absorb s r) = ro_eval_interval r" "ro_tres (absorb s r) = ro_tres r"
  "ro_rows_since_eval (absorb s r) = ro_rows_since_eval r"
  by (simp_all add: absorb_def Let_def split: option.splits)

lemma index_ok_match:
  assumes ok: "index_ok r" and s: "sighting_ok s"
    and f: "find (matches (ro_tol r) s) (ro_tracked r) = Some t"
  shows "index_ok (absorb s r)"
proof -
  define t' where "t' = extend_track (ro_eval_count r) s t"
  define r1 where "r1 = r\<lparr>ro_tracked := replace_track t' (ro_tracked r)\<rparr>"
  have t: "t \<in> set (ro_tracked r)" using f by (auto simp: find_Some_iff)
  have same: "map tr_id (ro_tracked r1) = map tr_id (ro_tracked r)" by (simp add: r1_def)
  have ids: "tr_id ` set (ro_tracked r1) = tr_id ` set (ro_tracked r)"
    using arg_cong [OF same, of set] by simp
  have fields: "ro_index r1 = ro_index r" "ro_order r1 = ro_order r" "ro_next_order r1 = ro_next_order r"
    "ro_bucket r1 = ro_bucket r" "ro_tol r1 = ro_tol r" "ro_next_id r1 = ro_next_id r"
    by (simp_all add: r1_def)
  define widened where "widened = (si_lo s < tr_lo t \<or> tr_hi t < si_hi s)"
  define r2 where "r2 = (if widened then index_track t' r1 else r1)"
  have r2: "absorb s r = r2"
    by (simp add: absorb_match [OF f ok s] r2_def r1_def t'_def widened_def Let_def)
  have fields2: "ro_tracked r2 = ro_tracked r1" "ro_order r2 = ro_order r1"
    "ro_next_order r2 = ro_next_order r1" "ro_bucket r2 = ro_bucket r1" "ro_tol r2 = ro_tol r1"
    "ro_next_id r2 = ro_next_id r1"
    by (simp_all add: r2_def)
  have old: "indexed r2 u" if "indexed r u" for u
  proof -
    have "indexed r1 u" using that indexed_cong [of r1 r u u] fields by simp
    then show ?thesis by (simp add: r2_def indexed_index_track)
  qed
  have new: "indexed r2 t'"
  proof (cases widened)
    case True
    then show ?thesis by (simp add: r2_def indexed_index_track)
  next
    case False
    then have "indexed r t'"
      using extend_track_band [of s t "ro_eval_count r"] ok t indexed_cong [of r r t t']
      by (auto simp: t'_def widened_def index_ok_def)
    then show ?thesis by (rule old)
  qed
  have each: "track_ok u \<and> indexed r2 u" if "u \<in> set (ro_tracked r2)" for u
    using set_replace_track [of u t' "ro_tracked r"] that ok t new old
    by (auto simp: fields2 r1_def index_ok_def t'_def intro: extend_track_ok)
  have sub: "set (ro_index r2 k) \<subseteq> tr_id ` set (ro_tracked r2)" for k
    using ok t by (auto simp: fields2 ids fields r2_def set_index_track index_ok_def t'_def)
  have ord: "map (\<lambda>t. the (ro_order r2 (tr_id t))) (ro_tracked r2) =
      map (\<lambda>t. the (ro_order r (tr_id t))) (ro_tracked r)"
    using arg_cong [OF same, of "map (\<lambda>i. the (ro_order r i))"] by (simp add: fields2 fields comp_def)
  have range: "\<forall>i \<in> tr_id ` set (ro_tracked r). i < ro_next_id r \<and> the (ro_order r i) < ro_next_order r"
    using ok by (simp add: index_ok_def)
  show ?thesis
    unfolding r2 index_ok_def ord
    using ok each sub range [folded ids] by (simp add: fields2 fields same index_ok_def)
qed

lemma index_ok_new:
  assumes ok: "index_ok r" and s: "sighting_ok s"
    and f: "find (matches (ro_tol r) s) (ro_tracked r) = None"
  shows "index_ok (absorb s r)"
proof -
  define t where "t = new_track (ro_eval_count r) (ro_next_id r) s"
  define r1 where "r1 = r\<lparr>ro_tracked := ro_tracked r @ [t],
      ro_order := (ro_order r)(ro_next_id r := Some (ro_next_order r)),
      ro_next_order := ro_next_order r + 1, ro_next_id := ro_next_id r + 1\<rparr>"
  have r1: "absorb s r = index_track t r1"
    by (simp add: absorb_new [OF f ok s] r1_def t_def Let_def)
  have tid: "tr_id t = ro_next_id r" by (simp add: t_def)
  have old: "indexed (index_track t r1) u" if "indexed r u" for u
  proof -
    have "indexed r1 u" using that indexed_cong [of r1 r u u] by (simp add: r1_def)
    then show ?thesis by (rule indexed_index_track)
  qed
  have fresh: "tr_id u \<noteq> ro_next_id r" if "u \<in> set (ro_tracked r)" for u
    using ok that by (auto simp: index_ok_def)
  have ord: "map (\<lambda>u. the (ro_order r1 (tr_id u))) (ro_tracked r) =
      map (\<lambda>u. the (ro_order r (tr_id u))) (ro_tracked r)"
    using fresh by (auto simp: r1_def)
  have "sorted_wrt (<) (map (\<lambda>u. the (ro_order r1 (tr_id u))) (ro_tracked r @ [t]))"
    unfolding map_append ord sorted_wrt_append using ok by (auto simp: index_ok_def r1_def tid)
  moreover have "\<forall>u \<in> set (ro_tracked r1). track_ok u \<and> indexed (index_track t r1) u"
    using ok old new_track_ok [OF s] indexed_index_track(2) [of t r1]
    by (auto simp: r1_def index_ok_def t_def)
  moreover have "set (ro_index (index_track t r1) k) \<subseteq> tr_id ` set (ro_tracked r1)" for k
    using ok by (auto simp: set_index_track index_ok_def r1_def)
  moreover have "\<forall>u \<in> set (ro_tracked r1). tr_id u < ro_next_id r1 \<and>
      the (ro_order r1 (tr_id u)) < ro_next_order r1"
    using ok fresh by (auto simp: r1_def index_ok_def tid less_Suc_eq)
  moreover have "distinct (map tr_id (ro_tracked r1))"
    using ok fresh by (auto simp: r1_def index_ok_def tid)
  moreover have "ro_tracked r1 = ro_tracked r @ [t]" "ro_bucket r1 = ro_bucket r" "ro_tol r1 = ro_tol r"
    by (simp_all add: r1_def)
  ultimately show ?thesis
    unfolding r1 index_ok_def using ok by (simp add: index_ok_def)
qed

lemma index_ok_absorb: "index_ok r \<Longrightarrow> sighting_ok s \<Longrightarrow> index_ok (absorb s r)"
  by (cases "find (matches (ro_tol r) s) (ro_tracked r)") (auto intro: index_ok_match index_ok_new)

text \<open>Rebuilding the index.\<close>

definition tracks_ok :: "rolling \<Rightarrow> bool" where
  "tracks_ok r \<longleftrightarrow> 0 < ro_bucket r \<and> 0 \<le> ro_tol r \<and> distinct (map tr_id (ro_tracked r)) \<and>
     (\<forall>t \<in> set (ro_tracked r). tr_id t < ro_next_id r \<and> track_ok t)"

lemma fold_index_track_keeps [simp]:
  "ro_tracked (fold index_track ts r) = ro_tracked r" "ro_order (fold index_track ts r) = ro_order r"
  "ro_next_order (fold index_track ts r) = ro_next_order r"
  "ro_next_id (fold index_track ts r) = ro_next_id r" "ro_bucket (fold index_track ts r) = ro_bucket r"
  "ro_tol (fold index_track ts r) = ro_tol r" "ro_eval_count (fold index_track ts r) = ro_eval_count r"
  "ro_window_rows (fold index_track ts r) = ro_window_rows r"
  "ro_window (fold index_track ts r) = ro_window r" "ro_write_pos (fold index_track ts r) = ro_write_pos r"
  "ro_rows_filled (fold index_track ts r) = ro_rows_filled r" "ro_total (fold index_track ts r) = ro_total r"
  "ro_row_pos (fold index_track ts r) = ro_row_pos r"
  "ro_slice_samples (fold index_track ts r) = ro_slice_samples r"
  "ro_eval_interval (fold index_track ts r) = ro_eval_interval r" "ro_tres (fold index_track ts r) = ro_tres r"
  "ro_rows_since_eval (fold index_track ts r) = ro_rows_since_eval r"
  by (induction ts arbitrary: r) simp_all

lemma fold_index_track_indexed:
  "t \<in> set ts \<or> indexed r t \<Longrightarrow> indexed (fold index_track ts r) t"
  by (induction ts arbitrary: r) (auto simp: indexed_index_track)

lemma fold_index_track_sub:
  "set (ro_index (fold index_track ts r) k) \<subseteq> set (ro_index r k) \<union> tr_id ` set ts"
proof (induction ts arbitrary: r)
  case (Cons t ts)
  show ?case using Cons.IH [of "index_track t r"] by (auto simp: set_index_track split: if_splits)
qed simp

lemma rebuild_keeps [simp]:
  "ro_tracked (rebuild_index r) = ro_tracked r" "ro_next_id (rebuild_index r) = ro_next_id r"
  "ro_bucket (rebuild_index r) = ro_bucket r" "ro_tol (rebuild_index r) = ro_tol r"
  "ro_eval_count (rebuild_index r) = ro_eval_count r" "ro_window_rows (rebuild_index r) = ro_window_rows r"
  "ro_window (rebuild_index r) = ro_window r" "ro_write_pos (rebuild_index r) = ro_write_pos r"
  "ro_rows_filled (rebuild_index r) = ro_rows_filled r" "ro_total (rebuild_index r) = ro_total r"
  "ro_row_pos (rebuild_index r) = ro_row_pos r" "ro_slice_samples (rebuild_index r) = ro_slice_samples r"
  "ro_eval_interval (rebuild_index r) = ro_eval_interval r" "ro_tres (rebuild_index r) = ro_tres r"
  "ro_rows_since_eval (rebuild_index r) = ro_rows_since_eval r"
  by (simp_all add: rebuild_index_def)

lemma index_ok_rebuild:
  assumes ok: "tracks_ok r"
  shows "index_ok (rebuild_index r)"
proof -
  let ?ts = "ro_tracked r"
  define ord where "ord = map_of (zip (map tr_id ?ts) [0..<length ?ts])"
  have ord_at: "ord (tr_id (?ts ! j)) = Some j" if "j < length ?ts" for j
    using map_of_zip_nth [of "map tr_id ?ts" "[0..<length ?ts]" j] that ok
    by (simp add: ord_def tracks_ok_def)
  have "map (\<lambda>t. the (ord (tr_id t))) ?ts = [0..<length ?ts]"
    by (rule nth_equalityI) (simp_all add: ord_at)
  then have sorted: "sorted_wrt (<) (map (\<lambda>t. the (ord (tr_id t))) ?ts)" by simp
  have bound: "\<forall>t \<in> set ?ts. the (ord (tr_id t)) < length ?ts"
    using ord_at by (auto simp: in_set_conv_nth)
  have order: "ro_order (rebuild_index r) = ord" "ro_next_order (rebuild_index r) = length ?ts"
    by (simp_all add: rebuild_index_def ord_def)
  have idx: "\<forall>t \<in> set ?ts. indexed (rebuild_index r) t"
    by (simp add: rebuild_index_def fold_index_track_indexed)
  have sub: "set (ro_index (rebuild_index r) k) \<subseteq> tr_id ` set ?ts" for k
    unfolding rebuild_index_def by (rule order_trans [OF fold_index_track_sub]) simp
  show ?thesis
    using ok sorted bound idx sub unfolding index_ok_def tracks_ok_def by (simp add: order)
qed

lemma index_ok_tracks_ok: "index_ok r \<Longrightarrow> tracks_ok r"
  by (auto simp: index_ok_def tracks_ok_def)

lemma mark_emitted_simps [simp]:
  "tr_id (mark_emitted n base t) = tr_id t" "track_ok (mark_emitted n base t) = track_ok t"
  "scrolled_out base (mark_emitted n base t) = scrolled_out base t"
  "tr_emitted (mark_emitted n base t) = (tr_emitted t \<or> finishes n base t)"
  by (simp_all add: mark_emitted_def track_ok_def scrolled_out_def)

lemma keep_tracks_keeps [simp]:
  "ro_next_id (keep_tracks base r) = ro_next_id r"
  "ro_window_rows (keep_tracks base r) = ro_window_rows r"
  "ro_window (keep_tracks base r) = ro_window r" "ro_write_pos (keep_tracks base r) = ro_write_pos r"
  "ro_rows_filled (keep_tracks base r) = ro_rows_filled r" "ro_total (keep_tracks base r) = ro_total r"
  "ro_row_pos (keep_tracks base r) = ro_row_pos r" "ro_slice_samples (keep_tracks base r) = ro_slice_samples r"
  "ro_tracked (keep_tracks base r) =
     filter (\<lambda>t. \<not> scrolled_out base t) (map (mark_emitted (ro_eval_count r) base) (ro_tracked r))"
  by (simp_all add: keep_tracks_def)

lemma index_ok_keep_tracks:
  assumes "index_ok r" shows "index_ok (keep_tracks base r)"
proof -
  have "distinct (map tr_id (map (mark_emitted (ro_eval_count r) base) (ro_tracked r)))"
    using assms by (simp add: index_ok_def comp_def)
  then have "distinct (map tr_id (filter (\<lambda>t. \<not> scrolled_out base t)
      (map (mark_emitted (ro_eval_count r) base) (ro_tracked r))))"
    by (rule distinct_map_filter)
  with assms show ?thesis
    unfolding keep_tracks_def by (intro index_ok_rebuild) (auto simp: tracks_ok_def index_ok_def)
qed

section \<open>Runs\<close>

type_synonym feed_event = "rat \<times> grid \<times> int option \<times> int option"

fun run_feeds :: "detector \<Rightarrow> feed_event list \<Rightarrow> rolling \<Rightarrow> (rolling \<times> fingerprint list) option" where
  "run_feeds detect [] r = Some (r, [])"
| "run_feeds detect ((now, rows, cs, ss) # es) r =
     (case feed detect now rows cs ss r of None \<Rightarrow> None
      | Some (r', fps) \<Rightarrow> map_option (\<lambda>(r'', fps'). (r'', fps @ fps')) (run_feeds detect es r'))"

text \<open>The tracks a feed finishes, in the order of their fingerprints.\<close>

definition feed_finished :: "detector \<Rightarrow> feed_event \<Rightarrow> rolling \<Rightarrow> nat list" where
  "feed_finished detect = (\<lambda>(now, rows, cs, ss) r. case write_rows rows cs ss r of None \<Rightarrow> []
     | Some r \<Rightarrow> if ro_eval_interval r \<le> ro_rows_since_eval r \<and> ro_eval_interval r \<le> ro_rows_filled r
         then (let (r, base) = absorb_detections detect now (r\<lparr>ro_rows_since_eval := 0\<rparr>)
               in map tr_id (finished_tracks base r))
         else [])"

fun run_log :: "detector \<Rightarrow> feed_event list \<Rightarrow> rolling \<Rightarrow> nat list" where
  "run_log detect [] r = []"
| "run_log detect ((now, rows, cs, ss) # es) r =
     (case feed detect now rows cs ss r of None \<Rightarrow> []
      | Some (r', fps) \<Rightarrow> feed_finished detect (now, rows, cs, ss) r @ run_log detect es r')"

lemma index_ok_cong:
  assumes "ro_bucket r' = ro_bucket r" "ro_tol r' = ro_tol r" "ro_tracked r' = ro_tracked r"
    "ro_index r' = ro_index r" "ro_order r' = ro_order r" "ro_next_order r' = ro_next_order r"
    "ro_next_id r' = ro_next_id r"
  shows "index_ok r' = index_ok r"
  using assms by (simp add: index_ok_def indexed_def)

lemma index_ok_rolling_new: "index_ok (rolling_new W ev nb c fa tres)"
  by (simp add: index_ok_def rolling_new_def Let_def less_max_iff_disj le_max_iff_disj)

lemma write_rows_keeps:
  assumes "write_rows rows cs ss r = Some r'"
  shows "ro_tracked r' = ro_tracked r \<and> ro_next_id r' = ro_next_id r \<and> index_ok r' = index_ok r \<and>
    ro_tol r' = ro_tol r \<and> ro_eval_count r' = ro_eval_count r \<and> ro_window_rows r' = ro_window_rows r"
proof -
  have "ro_bucket r' = ro_bucket r \<and> ro_tol r' = ro_tol r \<and> ro_tracked r' = ro_tracked r \<and>
      ro_index r' = ro_index r \<and> ro_order r' = ro_order r \<and> ro_next_order r' = ro_next_order r \<and>
      ro_next_id r' = ro_next_id r \<and> ro_eval_count r' = ro_eval_count r \<and> ro_window_rows r' = ro_window_rows r"
    using assms by (simp add: write_rows_def Let_def case_prod_beta split: if_splits) auto
  then show ?thesis using index_ok_cong [of r' r] by simp
qed

lemma sighting_of_ok: "0 \<le> fp_bandwidth_hz b \<Longrightarrow> sighting_ok (sighting_of r n base b)"
  by (simp add: sighting_of_def sighting_ok_def fp_lo_def fp_hi_def Let_def)

lemma index_ok_absorb_all:
  "index_ok r \<Longrightarrow> \<forall>s \<in> set ss. sighting_ok s \<Longrightarrow> index_ok (fold absorb ss r) \<and>
     (ro_tracked (fold absorb ss r), ro_next_id (fold absorb ss r)) =
        fold (scan_absorb (ro_tol r) (ro_eval_count r)) ss (ro_tracked r, ro_next_id r)"
  by (induction ss arbitrary: r) (simp_all add: index_ok_absorb absorb_scan [symmetric])

text \<open>What is relied on of a detector: a band never has negative width.\<close>

locale burst_detector =
  fixes detect :: detector
  assumes band: "b \<in> set (dr_bursts (detect time_axis freq_axis center now grid)) \<Longrightarrow> 0 \<le> fp_bandwidth_hz b"
begin

lemma absorb_detections_scan:
  assumes "index_ok r" "absorb_detections detect now r = (r', base)"
  shows "index_ok r' \<and> base = int (ro_total r) - int (length (window_grid r)) \<and>
    (ro_tracked r', ro_next_id r') = fold (scan_absorb (ro_tol r) (ro_eval_count r + 1))
      (map (sighting_of r' (length (window_grid r)) base)
        (dr_bursts (the (ro_last_detection r')))) (ro_tracked r, ro_next_id r)"
proof -
  define g where "g = window_grid r"
  define res where "res = detect (map (\<lambda>k. of_nat k * ro_tres r) [0..<length g])
    (ro_freq_axis r) (ro_center r) now g"
  define r1 where "r1 = r\<lparr>ro_last_detection := Some res, ro_eval_count := ro_eval_count r + 1,
    ro_eval_base := Some (int (ro_total r) - int (length g))\<rparr>"
  define ss where "ss = map (sighting_of r1 (length g) base) (dr_bursts res)"
  have r': "r' = fold absorb ss r1" "base = int (ro_total r) - int (length g)"
    using assms(2) by (auto simp: absorb_detections_def Let_def g_def res_def r1_def ss_def)
  have ok: "index_ok r1" using assms(1) index_ok_cong [of r1 r] by (simp add: r1_def)
  have s: "\<forall>s \<in> set ss. sighting_ok s" using band by (auto simp: ss_def res_def intro!: sighting_of_ok)
  have keep: "ro_last_detection (fold absorb ts u) = ro_last_detection u \<and>
      ro_tres (fold absorb ts u) = ro_tres u" for ts u
    by (induction ts arbitrary: u) (simp_all add: absorb_def index_track_def Let_def split: option.splits)
  have "sighting_of r' = sighting_of r1" by (rule ext)+ (simp add: sighting_of_def r' keep)
  then have "map (sighting_of r' (length g) base) (dr_bursts (the (ro_last_detection r'))) = ss"
    by (simp add: r' keep ss_def r1_def)
  then show ?thesis
    using index_ok_absorb_all [OF ok s] r' by (simp add: g_def [symmetric] r1_def)
qed

lemma index_ok_feed:
  assumes "index_ok r" "feed detect now rows cs ss r = Some (r', fps)"
  shows "index_ok r'"
proof -
  from assms(2) obtain r1 where w: "write_rows rows cs ss r = Some r1"
    by (auto simp: feed_def split: option.splits)
  define r2 where "r2 = r1\<lparr>ro_rows_since_eval := 0\<rparr>"
  obtain r3 base where a: "absorb_detections detect now r2 = (r3, base)" by fastforce
  have ok: "index_ok r1" using write_rows_keeps [OF w] assms(1) by simp
  then have "index_ok r2" using index_ok_cong [of r2 r1] by (simp add: r2_def)
  from absorb_detections_scan [OF this a] have "index_ok (keep_tracks base r3)"
    by (simp add: index_ok_keep_tracks)
  then show ?thesis
    using ok assms(2) a
    by (auto simp: feed_def w evaluate_def collect_finished_def r2_def split: if_splits)
qed

lemma index_ok_run: "index_ok r \<Longrightarrow> run_feeds detect es r = Some (r', fps) \<Longrightarrow> index_ok r'"
proof (induction es arbitrary: r fps)
  case (Cons e es)
  obtain now rows cs ss where e: "e = (now, rows, cs, ss)" by (cases e)
  from Cons.prems(2) obtain r1 fps1 fps2 where "feed detect now rows cs ss r = Some (r1, fps1)"
      "run_feeds detect es r1 = Some (r', fps2)"
    by (auto simp: e split: option.splits prod.splits)
  then show ?case using Cons.IH index_ok_feed Cons.prems(1) by blast
qed simp

end

lemma region_fingerprint_band:
  "region_fingerprint g n ta fa c now d idx = Some b \<Longrightarrow> 0 \<le> fp_bandwidth_hz b"
  by (auto simp: region_fingerprint_def Let_def split: if_splits)

lemma merge_loop_band:
  "0 \<le> fp_bandwidth_hz b \<Longrightarrow> \<forall>c \<in> set bs. 0 \<le> fp_bandwidth_hz c \<Longrightarrow>
   \<forall>c \<in> set (merge_loop gap tol b bs). 0 \<le> fp_bandwidth_hz c"
proof (induction gap tol b bs rule: merge_loop.induct)
  case (2 gap tol current n ns)
  have "0 \<le> fp_bandwidth_hz (merge_two current n)"
    using 2(3) by (auto simp: merge_two_def Let_def fp_lo_def fp_hi_def min_def max_def)
  with 2 show ?case by simp
qed simp

interpretation detect_bursts_detector: burst_detector "detect_bursts label pctl config"
proof
  fix b time_axis freq_axis center now grid
  assume b: "b \<in> set (dr_bursts (detect_bursts label pctl config time_axis freq_axis center now grid))"
  have raw: "\<forall>c \<in> set (extract_fingerprints l m v g ta fa ce t d). 0 \<le> fp_bandwidth_hz c"
    for l m v g ta fa ce t d
    by (auto simp: extract_fingerprints_def Let_def List.map_filter_def intro: region_fingerprint_band)
  have merged: "\<forall>c \<in> set bs. 0 \<le> fp_bandwidth_hz c \<Longrightarrow> \<forall>c \<in> set (merge_bursts gap tol bs). 0 \<le> fp_bandwidth_hz c"
    for gap tol bs
  proof (cases bs)
    case (Cons b bs')
    then show "\<forall>c \<in> set bs. 0 \<le> fp_bandwidth_hz c \<Longrightarrow> \<forall>c \<in> set (merge_bursts gap tol bs). 0 \<le> fp_bandwidth_hz c"
      using merge_loop_band [of b bs' gap tol] by (cases bs') (simp_all add: merge_bursts_def)
  qed (simp add: merge_bursts_def)
  show "0 \<le> fp_bandwidth_hz b"
    using b raw merged [OF raw] by (auto simp: detect_bursts_def Let_def split: if_splits)
qed

section \<open>Each track is emitted once\<close>

text \<open>
  \<open>accounted reported ts n\<close>: the tracks numbered below \<open>n\<close> are the emitted ones, listed
  once each in \<open>reported\<close>, and the tracked ones that are not yet emitted.
\<close>

definition unemitted :: "track list \<Rightarrow> nat set" where
  "unemitted ts = {tr_id t | t. t \<in> set ts \<and> \<not> tr_emitted t}"

definition accounted :: "nat list \<Rightarrow> track list \<Rightarrow> nat \<Rightarrow> bool" where
  "accounted reported ts n \<longleftrightarrow> distinct reported \<and> distinct (map tr_id ts) \<and> set reported \<union> unemitted ts = {..<n} \<and>
     set reported \<inter> unemitted ts = {} \<and> (\<forall>t \<in> set ts. tr_emitted t \<longrightarrow> tr_id t \<in> set reported)"

lemma unemitted_append: "unemitted (ts @ us) = unemitted ts \<union> unemitted us"
  by (auto simp: unemitted_def)

lemma same_flags:
  assumes "map (\<lambda>t. (tr_id t, tr_emitted t)) ts = map (\<lambda>t. (tr_id t, tr_emitted t)) us"
  shows "accounted reported ts n = accounted reported us n"
proof -
  let ?f = "\<lambda>t. (tr_id t, tr_emitted t)"
  have unem: "unemitted vs = {i. (i, False) \<in> set (map ?f vs)}" for vs
    by (force simp: unemitted_def)
  have emi: "(\<forall>t \<in> set vs. tr_emitted t \<longrightarrow> tr_id t \<in> set reported) =
      (\<forall>p \<in> set (map ?f vs). snd p \<longrightarrow> fst p \<in> set reported)" for vs
    by simp
  have ids: "map tr_id vs = map fst (map ?f vs)" for vs by (simp add: comp_def)
  show ?thesis unfolding accounted_def unem emi ids assms ..
qed

lemma accounted_scan:
  assumes "accounted reported ts n" "scan_absorb tol k s (ts, n) = (ts', n')"
  shows "accounted reported ts' n'"
proof (cases "find (matches tol s) ts")
  case None
  have "unemitted [new_track k n s] = {n}" by (auto simp: unemitted_def)
  moreover have "tr_id t < n" if "t \<in> set ts" for t
    using assms(1) that by (cases "tr_emitted t") (force simp: accounted_def unemitted_def)+
  moreover have "ts' = ts @ [new_track k n s]" "n' = n + 1"
    using assms(2) None by (auto simp: scan_absorb_def)
  ultimately show ?thesis
    using assms(1) by (auto simp: accounted_def unemitted_append lessThan_Suc)
next
  case (Some t)
  then have t: "t \<in> set ts" by (auto simp: find_Some_iff)
  have ts': "ts' = replace_track (extend_track k s t) ts" "n' = n"
    using assms(2) Some by (auto simp: scan_absorb_def)
  have "distinct (map tr_id ts)" using assms(1) by (simp add: accounted_def)
  then have "u = t" if "u \<in> set ts" "tr_id u = tr_id t" for u
    using that t by (auto simp: distinct_map inj_on_def)
  then have "map (\<lambda>t. (tr_id t, tr_emitted t)) ts' = map (\<lambda>t. (tr_id t, tr_emitted t)) ts"
    by (auto simp: ts' replace_track_def)
  then show ?thesis using same_flags assms(1) ts'(2) by metis
qed

lemma accounted_scan_all:
  "accounted reported ts n \<Longrightarrow> fold (scan_absorb tol k) ss (ts, n) = (ts', n') \<Longrightarrow> accounted reported ts' n'"
proof (induction ss arbitrary: ts n)
  case (Cons s ss)
  then show ?case
    by (cases "scan_absorb tol k s (ts, n)") (auto intro: accounted_scan)
qed simp

lemma accounted_keep:
  assumes a: "accounted reported (ro_tracked r) n"
  shows "accounted (reported @ map tr_id (finished_tracks base r)) (ro_tracked (keep_tracks base r)) n"
proof -
  define ts where "ts = ro_tracked r"
  define fin where "fin = map tr_id (filter (finishes (ro_eval_count r) base) ts)"
  define kept where "kept = filter (\<lambda>t. \<not> scrolled_out base t) (map (mark_emitted (ro_eval_count r) base) ts)"
  have dist: "distinct (map tr_id ts)" using a by (simp add: accounted_def ts_def)
  then have inj: "t = u" if "t \<in> set ts" "u \<in> set ts" "tr_id t = tr_id u" for t u
    using that by (auto simp: distinct_map inj_on_def)
  have fin: "distinct fin" "set fin \<subseteq> unemitted ts"
    using dist by (auto simp: fin_def unemitted_def finishes_def intro: distinct_map_filter)
  have kept: "(\<exists>u. u \<in> set kept \<and> P u) \<longleftrightarrow>
      (\<exists>t \<in> set ts. \<not> scrolled_out base t \<and> P (mark_emitted (ro_eval_count r) base t))" for P
    by (auto simp: kept_def)
  have "i \<in> unemitted kept \<longleftrightarrow> (\<exists>u. u \<in> set kept \<and> tr_id u = i \<and> \<not> tr_emitted u)" for i
    by (auto simp: unemitted_def)
  then have "i \<in> unemitted kept \<longleftrightarrow> (\<exists>t \<in> set ts. tr_id t = i \<and> \<not> tr_emitted t \<and> \<not> finishes (ro_eval_count r) base t)" for i
    by (auto simp: kept finishes_def)
  moreover have "i \<in> unemitted ts - set fin \<longleftrightarrow>
      (\<exists>t \<in> set ts. tr_id t = i \<and> \<not> tr_emitted t \<and> \<not> finishes (ro_eval_count r) base t)" for i
    using inj by (fastforce simp: unemitted_def fin_def)
  ultimately have "unemitted kept = unemitted ts - set fin" by blast
  moreover have "distinct (map tr_id kept)"
  proof -
    have "distinct (map tr_id (map (mark_emitted (ro_eval_count r) base) ts))"
      using dist by (simp add: comp_def)
    then show ?thesis unfolding kept_def by (rule distinct_map_filter)
  qed
  moreover have "\<forall>t \<in> set kept. tr_emitted t \<longrightarrow> tr_id t \<in> set reported \<union> set fin"
    using a by (auto simp: kept_def accounted_def ts_def fin_def)
  ultimately show ?thesis
    using a fin unfolding accounted_def finished_tracks_def keep_tracks_keeps
    by (auto simp: ts_def [symmetric] kept_def [symmetric] fin_def [symmetric])
qed

context burst_detector
begin

lemma accounted_feed:
  assumes "index_ok r" "accounted reported (ro_tracked r) (ro_next_id r)"
    and f: "feed detect now rows cs ss r = Some (r', fps)"
  shows "accounted (reported @ feed_finished detect (now, rows, cs, ss) r) (ro_tracked r') (ro_next_id r') \<and>
    length fps = length (feed_finished detect (now, rows, cs, ss) r)"
proof -
  from f obtain r1 where w: "write_rows rows cs ss r = Some r1"
    by (auto simp: feed_def split: option.splits)
  note keep = write_rows_keeps [OF w]
  define r2 where "r2 = r1\<lparr>ro_rows_since_eval := 0\<rparr>"
  obtain r3 base where a: "absorb_detections detect now r2 = (r3, base)" by fastforce
  have ok: "index_ok r2" using keep assms(1) index_ok_cong [of r2 r1] by (simp add: r2_def)
  from absorb_detections_scan [OF this a]
  have "fold (scan_absorb (ro_tol r2) (ro_eval_count r2 + 1))
      (map (sighting_of r3 (length (window_grid r2)) base) (dr_bursts (the (ro_last_detection r3))))
      (ro_tracked r, ro_next_id r) = (ro_tracked r3, ro_next_id r3)"
    using keep by (simp add: r2_def)
  from accounted_keep [OF accounted_scan_all [OF assms(2) this], of base]
  have e: "accounted (reported @ map tr_id (finished_tracks base r3)) (ro_tracked (keep_tracks base r3))
      (ro_next_id (keep_tracks base r3))"
    by (simp only: keep_tracks_keeps)
  show ?thesis
  proof (cases "ro_eval_interval r1 \<le> ro_rows_since_eval r1 \<and> ro_eval_interval r1 \<le> ro_rows_filled r1")
    case True
    then have "r' = keep_tracks base r3" "fps = map (to_fingerprint r3 now) (finished_tracks base r3)"
      using f a by (simp_all add: feed_def w evaluate_def collect_finished_def r2_def)
    moreover have "feed_finished detect (now, rows, cs, ss) r = map tr_id (finished_tracks base r3)"
      using True a by (simp add: feed_finished_def w r2_def)
    ultimately show ?thesis using e by simp
  next
    case False
    then have "r' = r1" "fps = []" "feed_finished detect (now, rows, cs, ss) r = []"
      using f by (auto simp: feed_def feed_finished_def w)
    then show ?thesis using assms(2) keep by simp
  qed
qed

lemma accounted_run:
  "index_ok r \<Longrightarrow> accounted reported (ro_tracked r) (ro_next_id r) \<Longrightarrow> run_feeds detect es r = Some (r', fps) \<Longrightarrow>
   accounted (reported @ run_log detect es r) (ro_tracked r') (ro_next_id r') \<and> length fps = length (run_log detect es r)"
proof (induction es arbitrary: r reported fps)
  case (Cons e es)
  obtain now rows cs ss where e: "e = (now, rows, cs, ss)" by (cases e)
  from Cons.prems(3) obtain r1 fps1 fps2 where f: "feed detect now rows cs ss r = Some (r1, fps1)"
      "run_feeds detect es r1 = Some (r', fps2)" "fps = fps1 @ fps2"
    by (auto simp: e split: option.splits prod.splits)
  from accounted_feed [OF Cons.prems(1,2) f(1)] Cons.IH [OF index_ok_feed [OF Cons.prems(1) f(1)] _ f(2)]
  show ?case using f by (simp add: e) force
qed simp

end

text \<open>
  C11: the bucket index is exact. In every state a run of feeds reaches, an evaluation
  assigns the window's detections to tracks exactly as a linear scan over all tracks
  in the order of their creation would: the first track that matches is extended,
  and a new track starts when none does.
\<close>

theorem index_equals_scan:
  assumes "run_feeds (detect_bursts label pctl config) es (rolling_new W ev nb c fa tres) = Some (r, fps)"
    and "write_rows rows cs ss r = Some r1"
    and "absorb_detections (detect_bursts label pctl config) now r1 = (r2, base)"
  shows "(ro_tracked r2, ro_next_id r2) = fold (scan_absorb (ro_tol r1) (ro_eval_count r1 + 1))
      (map (sighting_of r2 (length (window_grid r1)) base) (dr_bursts (the (ro_last_detection r2))))
      (ro_tracked r1, ro_next_id r1)"
proof -
  have "index_ok r1"
    using detect_bursts_detector.index_ok_run [OF index_ok_rolling_new assms(1)] write_rows_keeps [OF assms(2)]
    by simp
  from detect_bursts_detector.absorb_detections_scan [OF this assms(3)] show ?thesis by simp
qed

text \<open>
  C27: every burst that is tracked is reported exactly once. After any run of feeds
  from a new detector, the tracks ever started are the reported ones, each reported
  once, and the tracks still in the window that are not yet reported: none is lost,
  none is reported twice, and each fingerprint returned is of one of them.
\<close>

theorem each_track_emitted_once:
  assumes "run_feeds (detect_bursts label pctl config) es (rolling_new W ev nb c fa tres) = Some (r, fps)"
  defines "reported \<equiv> run_log (detect_bursts label pctl config) es (rolling_new W ev nb c fa tres)"
  shows "distinct reported \<and> length fps = length reported \<and> set reported \<union> unemitted (ro_tracked r) = {..<ro_next_id r} \<and>
    set reported \<inter> unemitted (ro_tracked r) = {}"
proof -
  have "accounted [] (ro_tracked (rolling_new W ev nb c fa tres)) (ro_next_id (rolling_new W ev nb c fa tres))"
    by (simp add: accounted_def rolling_new_def Let_def unemitted_def)
  from detect_bursts_detector.accounted_run [OF index_ok_rolling_new this assms(1)]
  show ?thesis by (simp add: accounted_def reported_def)
qed

section \<open>The window is the newest rows, with their recorded positions\<close>

definition ring_of :: "rolling \<Rightarrow> rat list ring" where
  "ring_of r = \<lparr>rb_buffer = ro_window r, rb_max_samples = ro_window_rows r,
     rb_write_pos = ro_write_pos r, rb_total_written = ro_total r\<rparr>"

definition window_holds :: "rolling \<Rightarrow> grid \<Rightarrow> bool" where
  "window_holds r xs \<longleftrightarrow> ring_holds (ring_of r) xs \<and> ro_rows_filled r = min (length xs) (ro_window_rows r)"

lemma window_holds_grid:
  assumes "window_holds r xs"
  shows "window_grid r = drop (length xs - ro_window_rows r) xs"
proof -
  have "window_grid r = ring_read (ring_of r)"
    using assms by (auto simp: window_holds_def window_grid_def ring_holds_def ring_read_def
        ring_read_with_position_def ring_of_def min_def)
  then show ?thesis using assms by (auto simp: window_holds_def ring_holds_def ring_of_def)
qed

lemma write_rows_fits:
  "write_rows rows cs ss r = Some r' \<Longrightarrow> ro_write_pos r \<le> ro_window_rows r \<Longrightarrow>
   length rows \<le> 2 * ro_window_rows r - ro_write_pos r"
  by (auto simp: write_rows_def Let_def split: if_splits)

lemma write_rows_window:
  assumes "window_holds r xs" and w: "write_rows rows cs ss r = Some r'"
  shows "window_holds r' (xs @ rows)"
proof -
  define n W wp first where "n = length rows" and "W = ro_window_rows r" and "wp = ro_write_pos r"
    and "first = W - wp"
  have h: "ring_holds (ring_of r) xs" and filled: "ro_rows_filled r = min (length xs) W"
    using assms(1) by (auto simp: window_holds_def W_def)
  have inv: "0 < W" "wp < W" "length (ro_window r) = W" "ro_total r = length xs"
    using h by (auto simp: ring_holds_def ring_of_def W_def wp_def)
  have fits: "n \<le> 2 * W - wp" using write_rows_fits [OF w] inv by (simp add: n_def W_def wp_def)
  define buf where "buf = (if wp + n \<le> W then slice_set wp rows (ro_window r)
      else slice_set 0 (drop first rows) (slice_set wp (take first rows) (ro_window r)))"
  have r': "ring_of r' = \<lparr>rb_buffer = buf, rb_max_samples = W, rb_write_pos = (wp + n) mod W,
      rb_total_written = ro_total r + n\<rparr>"
    and filled': "ro_rows_filled r' = min (ro_rows_filled r + n) W"
    using w by (auto simp: write_rows_def Let_def case_prod_beta ring_of_def n_def W_def wp_def first_def
        buf_def split: if_splits)
  have "ring_holds (ring_of r') (xs @ rows)"
  proof (cases "W \<le> n")
    case False
    then have "ring_of r' = ring_write (ring_of r) rows" unfolding r'
      by (simp add: ring_write_def ring_of_def Let_def n_def W_def wp_def first_def buf_def)
    then show ?thesis using h by (simp add: ring_holds_write)
  next
    case True
    define k where "k = n - first"
    have k: "wp \<le> k" "k \<le> W" "k - wp = n - W" "first + k = n" "wp + n = W + k"
      using True fits inv by (auto simp: k_def first_def)
    have buf: "buf = drop first rows @ drop (k - wp) (take first rows)"
    proof (cases "wp + n \<le> W")
      case True
      then have "wp = 0" "n = W" "k = 0" "first = W" using \<open>W \<le> n\<close> k inv by (auto simp: first_def)
      then show ?thesis using inv by (simp add: buf_def slice_set_def n_def)
    next
      case False
      have "length (take first rows) = first" using k(4) by (simp add: n_def [symmetric])
      then have "slice_set wp (take first rows) (ro_window r) = take wp (ro_window r) @ take first rows"
        using inv by (simp add: slice_set_def first_def)
      moreover have "drop k (take wp (ro_window r) @ take first rows) = drop (k - wp) (take first rows)"
        using k(1) inv by simp
      moreover have "length (drop first rows) = k" using k(4) by (simp add: n_def [symmetric])
      ultimately show ?thesis using False by (simp add: buf_def slice_set_def)
    qed
    have len: "length buf = W"
      using k inv True by (simp add: buf n_def [symmetric] first_def)
    have read: "drop (k mod W) buf @ take (k mod W) buf = drop (n - W) rows"
    proof (cases "k = W")
      case True
      then have "first = n - W" "first \<le> k - wp" using k by auto
      then show ?thesis using True by (simp add: buf)
    next
      case False
      then have "k mod W = k" using k(2) by simp
      moreover have "length (drop first rows) = k" using k(4) by (simp add: n_def [symmetric])
      moreover have "drop (k - wp) (take first rows) @ drop first rows = drop (k - wp) rows"
      proof -
        have "k - wp \<le> first" using k inv by (simp add: first_def)
        then have "drop (k - wp) (take first rows @ drop first rows) =
            drop (k - wp) (take first rows) @ drop first rows"
          using k(4) unfolding n_def by (simp only: drop_append) simp
        then show ?thesis by simp
      qed
      ultimately show ?thesis using k(3) by (simp add: buf)
    qed
    show ?thesis
      unfolding ring_holds_def r'
      using inv len read True k(5) by (simp add: n_def ring_read_def ring_read_with_position_def)
  qed
  then show ?thesis
    using filled filled' w by (simp add: window_holds_def n_def W_def write_rows_keeps [OF w])
qed

lemma absorb_all_keeps [simp]:
  "ro_window_rows (fold absorb ss r) = ro_window_rows r" "ro_window (fold absorb ss r) = ro_window r"
  "ro_write_pos (fold absorb ss r) = ro_write_pos r" "ro_rows_filled (fold absorb ss r) = ro_rows_filled r"
  "ro_total (fold absorb ss r) = ro_total r" "ro_row_pos (fold absorb ss r) = ro_row_pos r"
  "ro_slice_samples (fold absorb ss r) = ro_slice_samples r"
  by (induction ss arbitrary: r) simp_all

lemma feed_keeps:
  assumes "feed detect now rows cs ss r = Some (r', fps)"
  obtains r1 where "write_rows rows cs ss r = Some r1" "ring_of r' = ring_of r1"
    "ro_rows_filled r' = ro_rows_filled r1" "ro_row_pos r' = ro_row_pos r1"
    "ro_slice_samples r' = ro_slice_samples r1"
proof -
  from assms obtain r1 where w: "write_rows rows cs ss r = Some r1"
    by (auto simp: feed_def split: option.splits)
  have "ring_of r' = ring_of r1 \<and> ro_rows_filled r' = ro_rows_filled r1 \<and> ro_row_pos r' = ro_row_pos r1 \<and>
      ro_slice_samples r' = ro_slice_samples r1"
    using assms by (auto simp: feed_def w evaluate_def absorb_detections_def Let_def collect_finished_def
        ring_of_def split: if_splits)
  then show ?thesis using that w by blast
qed

lemma window_holds_run:
  "window_holds r xs \<Longrightarrow> run_feeds detect es r = Some (r', fps) \<Longrightarrow>
   window_holds r' (xs @ concat (map (\<lambda>(now, rows, cs, ss). rows) es))"
proof (induction es arbitrary: r xs fps)
  case (Cons e es)
  obtain now rows cs ss where e: "e = (now, rows, cs, ss)" by (cases e)
  from Cons.prems(2) obtain r1 fps1 fps2 where f: "feed detect now rows cs ss r = Some (r1, fps1)"
      and r: "run_feeds detect es r1 = Some (r', fps2)"
    by (auto simp: e split: option.splits prod.splits)
  from f obtain r2 where "write_rows rows cs ss r = Some r2" "ring_of r1 = ring_of r2"
      "ro_rows_filled r1 = ro_rows_filled r2" by (rule feed_keeps)
  then have "window_holds r1 (xs @ rows)"
    using write_rows_window [OF Cons.prems(1)] unfolding window_holds_def
    by (metis ring.select_convs(2) ring_of_def)
  from Cons.IH [OF this r] show ?case by (simp add: e)
qed simp

lemma window_holds_new: "0 < W \<Longrightarrow> window_holds (rolling_new W ev nb c fa tres) []"
  by (simp add: window_holds_def ring_holds_def ring_of_def rolling_new_def Let_def ring_read_def
      ring_read_with_position_def)

lemma run_keeps_window_rows:
  "run_feeds detect es s = Some (r', fps) \<Longrightarrow> ro_window_rows r' = ro_window_rows s"
proof (induction es arbitrary: s fps)
  case (Cons e es)
  obtain now rows cs ss where e: "e = (now, rows, cs, ss)" by (cases e)
  from Cons.prems obtain r1 fps1 fps2 where f: "feed detect now rows cs ss s = Some (r1, fps1)"
      and r: "run_feeds detect es r1 = Some (r', fps2)"
    by (auto simp: e split: option.splits prod.splits)
  from f obtain r2 where "write_rows rows cs ss s = Some r2" "ring_of r1 = ring_of r2"
    by (rule feed_keeps)
  then have "ro_window_rows r1 = ro_window_rows s"
    using write_rows_keeps by (metis ring.select_convs(2) ring_of_def)
  then show ?case using Cons.IH [OF r] by simp
qed simp

lemma run_window_rows:
  "run_feeds detect es (rolling_new W ev nb c fa tres) = Some (r, fps) \<Longrightarrow> ro_window_rows r = W"
  by (drule run_keeps_window_rows) (simp add: rolling_new_def Let_def)

text \<open>
  The window that is evaluated is the newest rows. Whatever the sizes of the grids
  fed (and whatever wraps around the end of the array), the grid an evaluation sees
  is the newest \<open>window_rows\<close> rows of everything fed, in order.
\<close>

theorem window_is_newest_rows:
  assumes "run_feeds detect es (rolling_new W ev nb c fa tres) = Some (r, fps)" and "0 < W"
  defines "rows_fed \<equiv> concat (map (\<lambda>(now, rows, cs, ss). rows) es)"
  shows "window_grid r = drop (length rows_fed - W) rows_fed"
proof -
  have h: "window_holds r rows_fed"
    using window_holds_run [OF window_holds_new [OF assms(2)] assms(1)] by (simp add: rows_fed_def)
  then show ?thesis using run_window_rows [OF assms(1)] by (simp add: window_holds_grid)
qed

text \<open>The position recorded for each row, as the feeds state it.\<close>

definition row_positions :: "feed_event \<Rightarrow> int list" where
  "row_positions = (\<lambda>(now, rows, cs, ss). case (cs, ss) of
       (Some c, Some s) \<Rightarrow> if s \<noteq> 0 then map (\<lambda>k. c + int k * s) [0..<length rows]
                          else replicate (length rows) (-1)
     | _ \<Rightarrow> replicate (length rows) (-1))"

definition positions_hold :: "rolling \<Rightarrow> int list \<Rightarrow> bool" where
  "positions_hold r ps \<longleftrightarrow> length (ro_row_pos r) = 2 * ro_window_rows r \<and> ro_total r = length ps \<and>
     ro_write_pos r < ro_window_rows r \<and>
     (\<forall>a < length ps. length ps \<le> a + 2 * ro_window_rows r \<longrightarrow>
        ro_row_pos r ! (a mod (2 * ro_window_rows r)) = ps ! a)"

lemma fold_update_other:
  "(\<And>k. k < n \<Longrightarrow> f k \<noteq> i) \<Longrightarrow> fold (\<lambda>k rp. rp[f k := v k]) [0..<n] rp ! i = rp ! i"
  by (induction n) auto

lemma fold_update_at:
  "k < n \<Longrightarrow> inj_on f {..<n} \<Longrightarrow> f k < length rp \<Longrightarrow>
   fold (\<lambda>k rp. rp[f k := v k]) [0..<n] rp ! f k = v k"
proof (induction n)
  case (Suc n)
  have len: "length (fold (\<lambda>k rp. rp[f k := v k]) [0..<m] rp) = length rp" for m
    by (induction m) simp_all
  show ?case
  proof (cases "k = n")
    case True
    then show ?thesis using Suc.prems(3) by (simp add: len)
  next
    case False
    then have "k < n" using Suc.prems(1) by simp
    moreover from this have "f n \<noteq> f k" using Suc.prems(2) inj_on_eq_iff [of f "{..<Suc n}" n k] by simp
    moreover have "inj_on f {..<n}" using Suc.prems(2) by (rule inj_on_subset) auto
    ultimately show ?thesis using Suc by simp
  qed
qed simp

lemma length_fold_update [simp]: "length (fold (\<lambda>k rp. rp[f k := v k]) ks rp) = length rp"
  by (induction ks arbitrary: rp) simp_all

lemma mod_slot_inj:
  fixes a b L :: nat
  assumes "a mod L = b mod L" "a < b + L" "b < a + L" shows "a = b"
proof -
  have "a = b" if "a mod L = b mod L" "a \<le> b" "b < a + L" for a b :: nat
  proof -
    from that(1) have "L dvd b - a" by (metis mod_eq_dvd_iff_nat that(2))
    moreover have "b - a < L" using that by linarith
    ultimately have "b - a = 0" by (meson dvd_imp_le not_le zero_less_iff_neq_zero)
    then show ?thesis using that(2) by simp
  qed
  from this [of a b] this [of b a] assms show ?thesis by (cases "a \<le> b") auto
qed

lemma write_rows_positions:
  assumes h: "positions_hold r ps" and w: "write_rows rows cs ss r = Some r'"
  shows "positions_hold r' (ps @ row_positions (now, rows, cs, ss))"
proof -
  define n W L T where "n = length rows" and "W = ro_window_rows r" and "L = 2 * W" and "T = ro_total r"
  have inv: "length (ro_row_pos r) = L" "T = length ps" "ro_write_pos r < W"
    using h by (auto simp: positions_hold_def W_def L_def T_def)
  have n: "n \<le> L" using write_rows_fits [OF w] inv(3) by (simp add: n_def W_def L_def)
  define qs where "qs = row_positions (now, rows, cs, ss)"
  have qs: "length qs = n" by (simp add: qs_def row_positions_def n_def split: option.splits)
  define rp where "rp = fold (\<lambda>k rp. rp[(T + k) mod L := qs ! k]) [0..<n] (ro_row_pos r)"
  have at_k: "qs ! k = (case (cs, ss) of (Some c, Some s) \<Rightarrow> if s \<noteq> 0 then c + int k * s else -1 | _ \<Rightarrow> -1)"
    if "k < n" for k
    using that by (simp add: qs_def row_positions_def n_def split: option.splits)
  have "ro_row_pos r' = fold (\<lambda>k rp. rp[(T + k) mod L := (case (cs, ss) of (Some c, Some s) \<Rightarrow>
      if s \<noteq> 0 then c + int k * s else -1 | _ \<Rightarrow> -1)]) [0..<n] (ro_row_pos r)"
    using w inv by (auto simp: write_rows_def Let_def case_prod_beta n_def T_def split: if_splits option.splits)
  also have "\<dots> = rp" unfolding rp_def by (rule List.fold_cong) (auto simp: at_k)
  finally have rp: "ro_row_pos r' = rp" .
  have fields: "ro_total r' = T + n" "ro_window_rows r' = W" "ro_write_pos r' < W"
    using w inv(3) by (auto simp: write_rows_def Let_def case_prod_beta T_def W_def n_def split: if_splits)
  have old: "rp ! (a mod L) = ps ! a" if "a < T" "T + n \<le> a + L" for a
  proof -
    have "rp ! (a mod L) = ro_row_pos r ! (a mod L)"
      unfolding rp_def using that mod_slot_inj [of _ L a] by (intro fold_update_other) fastforce
    also have "\<dots> = ps ! a" using h that inv by (simp add: positions_hold_def L_def W_def)
    finally show ?thesis .
  qed
  have new: "rp ! ((T + k) mod L) = qs ! k" if "k < n" for k
    unfolding rp_def
  proof (rule fold_update_at [OF that])
    show "inj_on (\<lambda>k. (T + k) mod L) {..<n}"
    proof (rule inj_onI)
      fix x y assume xy: "x \<in> {..<n}" "y \<in> {..<n}" "(T + x) mod L = (T + y) mod L"
      then have "T + x = T + y" using n by (intro mod_slot_inj [OF xy(3)]) auto
      then show "x = y" by simp
    qed
    show "(T + k) mod L < length (ro_row_pos r)" using that n inv(1) by simp
  qed
  have "rp ! (a mod L) = (ps @ qs) ! a" if "a < T + n" "T + n \<le> a + L" for a
  proof (cases "a < T")
    case True
    then show ?thesis using old that inv by (simp add: nth_append)
  next
    case False
    then show ?thesis using new [of "a - T"] that inv by (simp add: nth_append)
  qed
  then show ?thesis
    using inv fields qs by (simp add: positions_hold_def rp qs_def [symmetric] L_def) (simp add: rp_def L_def)
qed

lemma positions_hold_run:
  "positions_hold r ps \<Longrightarrow> run_feeds detect es r = Some (r', fps) \<Longrightarrow>
   positions_hold r' (ps @ concat (map row_positions es))"
proof (induction es arbitrary: r ps fps)
  case (Cons e es)
  obtain now rows cs ss where e: "e = (now, rows, cs, ss)" by (cases e)
  from Cons.prems(2) obtain r1 fps1 fps2 where f: "feed detect now rows cs ss r = Some (r1, fps1)"
      and r: "run_feeds detect es r1 = Some (r', fps2)"
    by (auto simp: e split: option.splits prod.splits)
  from f obtain r2 where w: "write_rows rows cs ss r = Some r2" "ring_of r1 = ring_of r2"
      "ro_row_pos r1 = ro_row_pos r2" by (rule feed_keeps)
  have "ro_window_rows r1 = ro_window_rows r2 \<and> ro_total r1 = ro_total r2 \<and> ro_write_pos r1 = ro_write_pos r2"
    using w(2) by (simp add: ring_of_def)
  then have "positions_hold r1 (ps @ row_positions e)"
    using write_rows_positions [OF Cons.prems(1) w(1), of now] w(3) by (simp add: positions_hold_def e)
  from Cons.IH [OF this r] show ?case by simp
qed simp

lemma positions_hold_new: "0 < W \<Longrightarrow> positions_hold (rolling_new W ev nb c fa tres) []"
  by (simp add: positions_hold_def rolling_new_def Let_def)

text \<open>
  A reported burst carries the stream positions of its own rows. After any run of
  feeds, the fingerprint of a track that covers rows \<open>a\<close> to \<open>b\<close> of the stream of rows
  carries the position recorded with row \<open>a\<close> and that of row \<open>b - 1\<close> plus one row,
  provided that row \<open>a\<close> is among the last two windows and both positions are known
  and in order, and carries none otherwise. A dropped chunk cannot shift them.
\<close>

theorem fingerprint_sample_positions:
  assumes "run_feeds detect es (rolling_new W ev nb c fa tres) = Some (r, fps)" and "0 < W"
    and "0 \<le> tr_abs_start t" "tr_abs_start t < tr_abs_end t" "tr_abs_end t \<le> int (ro_total r)"
  defines "p0 \<equiv> concat (map row_positions es) ! nat (tr_abs_start t)"
    and "p1 \<equiv> concat (map row_positions es) ! nat (tr_abs_end t - 1)"
  shows "(fp_start_sample (to_fingerprint r now t), fp_stop_sample (to_fingerprint r now t)) =
    (if ro_slice_samples r \<noteq> None \<and> int (ro_total r) - 2 * int W \<le> tr_abs_start t \<and> 0 \<le> p0 \<and> p0 \<le> p1
     then (Some p0, Some (p1 + the (ro_slice_samples r))) else (None, None))"
proof -
  have h: "positions_hold r (concat (map row_positions es))"
    using positions_hold_run [OF positions_hold_new [OF assms(2)] assms(1)] by simp
  have "window_holds r (concat (map (\<lambda>(now, rows, cs, ss). rows) es))"
    using window_holds_run [OF window_holds_new [OF assms(2)] assms(1)] by simp
  have W: "ro_window_rows r = W" by (rule run_window_rows [OF assms(1)])
  have pos: "ro_row_pos r ! nat (a mod int (length (ro_row_pos r))) = concat (map row_positions es) ! nat a"
    if "0 \<le> a" "a < int (ro_total r)" "int (ro_total r) - 2 * int W \<le> a" for a
  proof -
    have "nat (a mod int (2 * W)) = nat a mod (2 * W)" using that(1) by (metis nat_int nat_mod_distrib of_nat_0_le_iff)
    then show ?thesis using h that W by (simp add: positions_hold_def)
  qed
  have len: "int (length (ro_row_pos r)) = 2 * int W" using h W by (simp add: positions_hold_def)
  show ?thesis
  proof (cases "int (ro_total r) - 2 * int W \<le> tr_abs_start t")
    case True
    then show ?thesis
      using pos [of "tr_abs_start t"] pos [of "tr_abs_end t - 1"] assms(3-5) len
      by (simp add: to_fingerprint_def Let_def p0_def p1_def)
  next
    case False
    then show ?thesis by (simp add: to_fingerprint_def Let_def len)
  qed
qed

section \<open>A concrete run\<close>

text \<open>
  One bin over a floor of 0 dB; every bin above the low threshold is labelled 1.
  Two grids of three rows, a burst in rows 1 to 2 of a window of four.
\<close>

definition ex_label :: "bool list list \<Rightarrow> nat list list" where
  "ex_label = map (map (\<lambda>b. if b then 1 else 0))"

definition ex_pctl :: "rat list \<Rightarrow> rat \<Rightarrow> rat" where
  "ex_pctl xs p = list_min xs"

definition ex_burst_config :: burst_config where
  "ex_burst_config = \<lparr>bc_threshold_high_db = 10, bc_threshold_low_ratio = 1 / 2, bc_min_duration_sec = 1,
     bc_merge_freq_bins = 1, bc_merge_time_sec = 1, bc_noise_floor_percentile = 10\<rparr>"

definition ex_rolling :: rolling where
  "ex_rolling = rolling_new 8 2 1 100000 [0] 1"

definition ex_feeds :: "feed_event list" where
  "ex_feeds = [(10, [[0], [20], [20], [0]], Some 1000, Some 100),
     (14, [[0], [0], [0], [0]], Some 1400, Some 100)]"

abbreviation ex_detect :: detector where
  "ex_detect \<equiv> detect_bursts ex_label ex_pctl ex_burst_config"

lemma ex_run: "run_feeds ex_detect ex_feeds ex_rolling =
    Some (the (run_feeds ex_detect ex_feeds ex_rolling))"
proof -
  have "\<not> Option.is_none (run_feeds ex_detect ex_feeds ex_rolling)" by code_simp
  then show ?thesis by (simp add: Option.is_none_def)
qed

lemma ex_runs:
  obtains r fps where "run_feeds ex_detect ex_feeds ex_rolling = Some (r, fps)"
    "run_feeds ex_detect ex_feeds (rolling_new 8 2 1 100000 [0] 1) = Some (r, fps)"
  using ex_run by (cases "the (run_feeds ex_detect ex_feeds ex_rolling)") (simp add: ex_rolling_def)

theorem index_equals_scan_witness:
  "\<exists>r r1 r2 base. write_rows [[30]] None None r = Some r1 \<and>
     absorb_detections ex_detect 20 r1 = (r2, base) \<and>
     (ro_tracked r2, ro_next_id r2) = fold (scan_absorb (ro_tol r1) (ro_eval_count r1 + 1))
      (map (sighting_of r2 (length (window_grid r1)) base) (dr_bursts (the (ro_last_detection r2))))
      (ro_tracked r1, ro_next_id r1)"
proof -
  obtain r fps where run: "run_feeds ex_detect ex_feeds ex_rolling = Some (r, fps)"
    and run': "run_feeds ex_detect ex_feeds (rolling_new 8 2 1 100000 [0] 1) = Some (r, fps)"
    by (rule ex_runs)
  have "\<not> Option.is_none (write_rows [[30]] None None
      (fst (the (run_feeds ex_detect ex_feeds ex_rolling))))" by code_simp
  then obtain r1 where w: "write_rows [[30]] None None r = Some r1"
    by (auto simp: run Option.is_none_def)
  obtain r2 base where a: "absorb_detections ex_detect 20 r1 = (r2, base)" by fastforce
  show ?thesis using w a index_equals_scan [OF run' w a] by blast
qed

theorem each_track_emitted_once_witness:
  "\<exists>r fps. run_feeds ex_detect ex_feeds (rolling_new 8 2 1 100000 [0] 1) = Some (r, fps) \<and>
     length fps = 1 \<and> distinct (run_log ex_detect ex_feeds (rolling_new 8 2 1 100000 [0] 1))"
proof -
  obtain r fps where run: "run_feeds ex_detect ex_feeds ex_rolling = Some (r, fps)"
    and run': "run_feeds ex_detect ex_feeds (rolling_new 8 2 1 100000 [0] 1) = Some (r, fps)"
    by (rule ex_runs)
  have "length (run_log ex_detect ex_feeds ex_rolling) = 1" by code_simp
  then show ?thesis using run' each_track_emitted_once [OF run'] by (simp add: ex_rolling_def)
qed

theorem window_is_newest_rows_witness:
  "\<exists>r fps. run_feeds ex_detect ex_feeds (rolling_new 8 2 1 100000 [0] 1) = Some (r, fps) \<and>
     window_grid r = [[0], [20], [20], [0], [0], [0], [0], [0]]"
proof -
  obtain r fps where "run_feeds ex_detect ex_feeds (rolling_new 8 2 1 100000 [0] 1) = Some (r, fps)"
    by (rule ex_runs)
  with window_is_newest_rows [OF this] show ?thesis by (simp add: ex_feeds_def)
qed

theorem fingerprint_sample_positions_witness:
  "\<exists>r fps t. run_feeds ex_detect ex_feeds (rolling_new 8 2 1 100000 [0] 1) = Some (r, fps) \<and>
     tr_abs_start t = 1 \<and> tr_abs_end t = 3 \<and> fp_start_sample (to_fingerprint r 14 t) = Some 1100"
proof -
  obtain r fps where run: "run_feeds ex_detect ex_feeds ex_rolling = Some (r, fps)"
    and run': "run_feeds ex_detect ex_feeds (rolling_new 8 2 1 100000 [0] 1) = Some (r, fps)"
    by (rule ex_runs)
  define t where "t = \<lparr>tr_id = 0, tr_abs_start = 1, tr_abs_end = 3, tr_lo = 0, tr_hi = 0, tr_center = 0,
    tr_peak_db = 0, tr_peak_freq = 0, tr_last_eval = 1, tr_growing = False, tr_emitted = False\<rparr>"
  have t: "tr_abs_start t = 1" "tr_abs_end t = 3" by (simp_all add: t_def)
  have "ro_total (fst (the (run_feeds ex_detect ex_feeds ex_rolling))) = 8" by code_simp
  moreover have "\<not> Option.is_none (ro_slice_samples (fst (the (run_feeds ex_detect ex_feeds ex_rolling))))"
    by code_simp
  ultimately have "ro_total r = 8" "ro_slice_samples r \<noteq> None" by (auto simp: run Option.is_none_def)
  with fingerprint_sample_positions [OF run', of t 14] t
  have "fp_start_sample (to_fingerprint r 14 t) = Some 1100"
    by (simp add: ex_feeds_def row_positions_def split: if_splits)
  with run' t show ?thesis by blast
qed

end
