(* ===== verification/Grid_PreBuffer.thy ===== *)
theory Grid_PreBuffer
  imports Burst
begin

text \<open>
  \<open>capture/buffer.py\<close>: the rolling buffer of PSD grids that a recording takes its
  pre-trigger rows from (\<open>GridPreBuffer\<close>), and \<open>trim_grid_rows\<close>. Every row of a grid
  stands for \<open>slice_samples\<close> samples of the receiver's stream, from the position the
  grid is tagged with; the specification is the list of tagged rows. Each method
  runs under the buffer's lock, so it is one step.
\<close>

section \<open>Rows inside a recording\<close>

definition trim_grid_rows :: "grid \<Rightarrow> int \<Rightarrow> int \<Rightarrow> int \<Rightarrow> int \<Rightarrow> grid \<times> int" where
  "trim_grid_rows g chunk_start slice_samples start_sample end_sample =
     (let rows = int (length g)
      in if rows = 0 \<or> slice_samples \<le> 0 \<or> end_sample \<le> start_sample then ([], -1)
         else
           let first = (if chunk_start < start_sample
                  then (start_sample - chunk_start + slice_samples - 1) div slice_samples else 0);
               last = min ((end_sample - chunk_start) div slice_samples) rows
           in if last \<le> first then ([], -1)
              else (slice first last g, chunk_start + first * slice_samples))"

text \<open>The rows of a grid with the stream position of their first sample.\<close>

definition tagged_rows :: "grid \<Rightarrow> int \<Rightarrow> int \<Rightarrow> (int \<times> rat list) list" where
  "tagged_rows g chunk_start slice_samples =
     map (\<lambda>k. (chunk_start + int k * slice_samples, g ! k)) [0..<length g]"

lemma length_tagged_rows [simp]: "length (tagged_rows g cs ss) = length g"
  by (simp add: tagged_rows_def)

lemma map_snd_tagged_rows [simp]: "map snd (tagged_rows g cs ss) = g"
  by (simp add: tagged_rows_def comp_def map_nth)

lemma nth_tagged_rows [simp]: "k < length g \<Longrightarrow> tagged_rows g cs ss ! k = (cs + int k * ss, g ! k)"
  by (simp add: tagged_rows_def)

text \<open>A predicate that holds on an interval of indices filters a slice.\<close>

lemma filter_interval:
  assumes "\<And>k. k < length xs \<Longrightarrow> P (xs ! k) \<longleftrightarrow> a \<le> k \<and> k < b"
  shows "filter P xs = take (b - a) (drop a xs)"
  using assms
proof (induction xs arbitrary: a b)
  case (Cons x xs)
  have tl: "P (xs ! k) \<longleftrightarrow> a - 1 \<le> k \<and> k < b - 1" if "k < length xs" "0 < b" for k
    using Cons.prems [of "Suc k"] that by auto
  have x: "P x \<longleftrightarrow> a = 0 \<and> 0 < b" using Cons.prems [of 0] by auto
  show ?case
  proof (cases "b = 0")
    case True
    then have "\<not> P y" if "y \<in> set (x # xs)" for y
      using Cons.prems that by (metis in_set_conv_nth not_less_zero)
    then show ?thesis using True by (auto simp: filter_empty_conv)
  next
    case False
    then have IH: "filter P xs = take (b - 1 - (a - 1)) (drop (a - 1) xs)"
      using Cons.IH [OF tl] by simp
    show ?thesis using False x IH by (cases a) (auto simp: take_Cons' )
  qed
qed simp

lemma first_row_iff:
  assumes "0 < (ss::int)"
  shows "start \<le> cs + k * ss \<longleftrightarrow> (start - cs + ss - 1) div ss \<le> k"
proof -
  have "(start - cs + ss - 1) div ss \<le> k \<longleftrightarrow> \<not> (k + 1) \<le> (start - cs + ss - 1) div ss" by linarith
  also have "\<dots> \<longleftrightarrow> \<not> (k + 1) * ss \<le> start - cs + ss - 1" using assms by (simp add: le_div_iff_mult_le)
  finally show ?thesis by (auto simp: distrib_right)
qed

lemma last_row_iff:
  assumes "0 < (ss::int)"
  shows "cs + (k + 1) * ss \<le> end' \<longleftrightarrow> k < (end' - cs) div ss"
proof -
  have "k < (end' - cs) div ss \<longleftrightarrow> k + 1 \<le> (end' - cs) div ss" by linarith
  then show ?thesis using assms by (auto simp: le_div_iff_mult_le)
qed

definition first_of :: "int \<Rightarrow> int \<Rightarrow> int \<Rightarrow> int" where
  "first_of cs ss start = (if cs < start then (start - cs + ss - 1) div ss else 0)"

lemma first_of_iff:
  assumes "0 < ss" "0 \<le> k"
  shows "start \<le> cs + k * ss \<longleftrightarrow> first_of cs ss start \<le> k"
  using assms first_row_iff [OF assms(1), of start cs k]
  by (auto simp: first_of_def intro: order_trans [OF _ le_add_same_cancel1 [THEN iffD2]])

lemma first_of_nonneg: "0 < ss \<Longrightarrow> 0 \<le> first_of cs ss start"
  by (auto simp: first_of_def intro!: pos_imp_zdiv_nonneg_iff [THEN iffD2])

text \<open>
  \<open>trim_grid_rows\<close> keeps exactly the rows whose samples all lie inside the
  recording, and the position it returns is that of the first of them.
\<close>

theorem trim_grid_rows_exact:
  fixes g :: grid and chunk_start slice_samples start_sample end_sample :: int
  assumes "0 < slice_samples"
  defines "inside \<equiv> filter (\<lambda>(p, row). start_sample \<le> p \<and> p + slice_samples \<le> end_sample)
    (tagged_rows g chunk_start slice_samples)"
  shows "trim_grid_rows g chunk_start slice_samples start_sample end_sample =
    (map snd inside, if inside = [] then -1 else fst (hd inside))"
proof -
  define a b where "a = first_of chunk_start slice_samples start_sample"
    and "b = min ((end_sample - chunk_start) div slice_samples) (int (length g))"
  have a0: "0 \<le> a" by (simp add: a_def first_of_nonneg [OF assms(1)])
  have ins: "inside = take (nat b - nat a) (drop (nat a) (tagged_rows g chunk_start slice_samples))"
    unfolding inside_def
  proof (rule filter_interval)
    fix k assume k: "k < length (tagged_rows g chunk_start slice_samples)"
    have "(case tagged_rows g chunk_start slice_samples ! k of
        (p, row) \<Rightarrow> start_sample \<le> p \<and> p + slice_samples \<le> end_sample) \<longleftrightarrow>
      start_sample \<le> chunk_start + int k * slice_samples \<and>
      chunk_start + (int k + 1) * slice_samples \<le> end_sample"
      using k by (simp add: distrib_right add.assoc)
    also have "\<dots> \<longleftrightarrow> a \<le> int k \<and> int k < b"
      using k first_of_iff [OF assms(1), of "int k"] last_row_iff [OF assms(1), of chunk_start "int k"]
      by (auto simp: a_def b_def)
    also have "\<dots> \<longleftrightarrow> nat a \<le> k \<and> k < nat b" using a0 by linarith
    finally show "(case tagged_rows g chunk_start slice_samples ! k of
        (p, row) \<Rightarrow> start_sample \<le> p \<and> p + slice_samples \<le> end_sample) \<longleftrightarrow> nat a \<le> k \<and> k < nat b" .
  qed
  show ?thesis
  proof (cases "length g = 0 \<or> end_sample \<le> start_sample \<or> b \<le> a")
    case True
    have "inside = []"
    proof (cases "b \<le> a")
      case False
      then have "length g = 0 \<or> end_sample \<le> start_sample" using True by simp
      then show ?thesis unfolding inside_def
        using assms(1) by (auto simp: filter_empty_conv tagged_rows_def)
    qed (use a0 in \<open>simp add: ins\<close>)
    moreover have "trim_grid_rows g chunk_start slice_samples start_sample end_sample = ([], -1)"
      using True by (auto simp: trim_grid_rows_def Let_def a_def b_def first_of_def)
    ultimately show ?thesis by simp
  next
    case False
    then have b: "a < b" "b \<le> int (length g)" by (auto simp: b_def)
    have "trim_grid_rows g chunk_start slice_samples start_sample end_sample =
        (slice a b g, chunk_start + a * slice_samples)"
      using False assms(1) by (simp add: trim_grid_rows_def Let_def a_def b_def first_of_def)
    moreover have "map snd inside = slice a b g"
      using a0 b by (simp add: ins slice_def take_map [symmetric] drop_map [symmetric] nat_diff_distrib)
    moreover have "\<not> nat b \<le> nat a" "\<not> length g \<le> nat a" using b a0 by linarith+
    then have "inside \<noteq> []" by (simp add: ins)
    moreover have "hd inside = tagged_rows g chunk_start slice_samples ! nat a"
      using b a0 by (simp add: ins hd_drop_conv_nth)
    ultimately show ?thesis using b a0 by simp
  qed
qed

theorem trim_grid_rows_exact_witness:
  "trim_grid_rows [[1], [2], [3], [4]] 1000 100 1050 1390 = ([[2], [3]], 1100)"
  using trim_grid_rows_exact [of 100 "[[1], [2], [3], [4]]" 1000 1050 1390] by (simp add: tagged_rows_def upt_rec)

section \<open>The pre-trigger buffer\<close>

type_synonym chunk_grid = "grid \<times> rat \<times> int \<times> int"

record pre_roll =
  pr_grids :: "grid list"
  pr_freq_axis :: "rat list"
  pr_time_res :: rat
  pr_rows :: int
  pr_grid_min :: rat
  pr_grid_max :: rat
  pr_start_sample :: int

record pre_buffer =
  pb_max_seconds :: rat
  pb_grids :: "chunk_grid list"
  pb_freq_axis :: "rat list option"
  pb_rows :: int
  pb_span :: rat

definition pre_new :: "rat \<Rightarrow> pre_buffer" where
  "pre_new max_seconds = \<lparr>pb_max_seconds = max 0 max_seconds, pb_grids = [], pb_freq_axis = None,
     pb_rows = 0, pb_span = 0\<rparr>"

text \<open>The loop that drops the oldest grids while over budget, keeping the last one.\<close>

fun trim_oldest :: "rat \<Rightarrow> chunk_grid list \<Rightarrow> int \<Rightarrow> rat \<Rightarrow> chunk_grid list \<times> int \<times> rat" where
  "trim_oldest max_seconds ((g, tr, cs, ss) # c # gs) rows span_s =
     (if max_seconds < span_s
      then trim_oldest max_seconds (c # gs) (rows - int (length g)) (span_s - of_nat (length g) * tr)
      else ((g, tr, cs, ss) # c # gs, rows, span_s))"
| "trim_oldest max_seconds gs rows span_s = (gs, rows, span_s)"

definition pre_write :: "grid \<Rightarrow> rat list \<Rightarrow> rat \<Rightarrow> int \<Rightarrow> int \<Rightarrow> pre_buffer \<Rightarrow> pre_buffer" where
  "pre_write g freq_axis time_res chunk_start slice_samples b =
     (if concat g = [] \<or> time_res \<le> 0 \<or> slice_samples \<le> 0 then b
      else
        let rows = pb_rows b + int (length g);
            span_s = pb_span b + of_nat (length g) * time_res;
            (gs, rows, span_s) = trim_oldest (pb_max_seconds b)
              (pb_grids b @ [(g, time_res, chunk_start, slice_samples)]) rows span_s
        in b\<lparr>pb_grids := gs, pb_freq_axis := Some freq_axis, pb_rows := rows, pb_span := span_s\<rparr>)"

definition pre_clear :: "pre_buffer \<Rightarrow> pre_buffer" where
  "pre_clear b = b\<lparr>pb_grids := [], pb_freq_axis := None, pb_rows := 0, pb_span := 0\<rparr>"

text \<open>The kept part of each grid and the position of the first kept row.\<close>

fun drain_loop :: "int option \<Rightarrow> chunk_grid list \<Rightarrow> grid list \<Rightarrow> int \<Rightarrow> grid list \<times> int" where
  "drain_loop from_sample [] kept start_sample = (kept, start_sample)"
| "drain_loop from_sample ((g, tr, cs, ss) # gs) kept start_sample =
     (let first = (case from_sample of None \<Rightarrow> 0
                   | Some f \<Rightarrow> if cs < f then (f - cs + ss - 1) div ss else 0)
      in if int (length g) \<le> first then drain_loop from_sample gs kept start_sample
         else drain_loop from_sample gs (kept @ [drop (nat first) g])
                (if start_sample < 0 then cs + first * ss else start_sample))"

definition pre_drain :: "int option \<Rightarrow> pre_buffer \<Rightarrow> pre_roll option \<times> pre_buffer" where
  "pre_drain from_sample b =
     (case (pb_grids b, pb_freq_axis b) of
        (_ # _, Some freq_axis) \<Rightarrow>
          (let (kept, start_sample) = drain_loop from_sample (pb_grids b) [] (-1);
               (g, time_res, cs, ss) = last (pb_grids b)
           in (if kept = [] then None
               else Some \<lparr>pr_grids = kept, pr_freq_axis = freq_axis, pr_time_res = time_res,
                 pr_rows = int (length (concat kept)), pr_grid_min = list_min (concat (concat kept)),
                 pr_grid_max = list_max (concat (concat kept)), pr_start_sample = start_sample\<rparr>,
               pre_clear b))
      | _ \<Rightarrow> (None, pre_clear b))"

section \<open>What the buffer retains\<close>

text \<open>
  The buffer holds the newest grids written since it was created or drained: the
  longest run of them whose time span is at most \<open>max_seconds\<close>, and the last one
  in any case.
\<close>

definition span_of :: "chunk_grid list \<Rightarrow> rat" where
  "span_of gs = sum_list (map (\<lambda>(g, tr, cs, ss). of_nat (length g) * tr) gs)"

definition rows_of :: "chunk_grid list \<Rightarrow> int" where
  "rows_of gs = sum_list (map (\<lambda>(g, tr, cs, ss). int (length g)) gs)"

definition usable :: "chunk_grid \<Rightarrow> bool" where
  "usable = (\<lambda>(g, tr, cs, ss). concat g \<noteq> [] \<and> 0 < tr \<and> 0 < ss)"

definition newest_within :: "rat \<Rightarrow> chunk_grid list \<Rightarrow> nat \<Rightarrow> bool" where
  "newest_within max_seconds ws k \<longleftrightarrow> k \<le> length ws \<and>
     (1 < length ws - k \<longrightarrow> span_of (drop k ws) \<le> max_seconds) \<and>
     (\<forall>j < k. max_seconds < span_of (drop j ws)) \<and> (ws \<noteq> [] \<longrightarrow> k < length ws)"

lemma span_of_simps [simp]:
  "span_of [] = 0" "span_of ((g, tr, cs, ss) # gs) = of_nat (length g) * tr + span_of gs"
  "span_of (gs @ hs) = span_of gs + span_of hs"
  by (simp_all add: span_of_def)

lemma rows_of_simps [simp]:
  "rows_of [] = 0" "rows_of ((g, tr, cs, ss) # gs) = int (length g) + rows_of gs"
  "rows_of (gs @ hs) = rows_of gs + rows_of hs"
  by (simp_all add: rows_of_def)

lemma trim_oldest_newest:
  assumes "\<forall>w \<in> set ws. usable w" "span_s = span_of ws" "rows = rows_of ws"
  shows "\<exists>k. trim_oldest m ws rows span_s = (drop k ws, rows_of (drop k ws), span_of (drop k ws)) \<and>
    newest_within m ws k"
  using assms
proof (induction m ws rows span_s rule: trim_oldest.induct)
  case (1 m g tr cs ss c gs rows span_s)
  show ?case
  proof (cases "m < span_s")
    case True
    have "\<exists>k. trim_oldest m (c # gs) (rows - int (length g)) (span_s - of_nat (length g) * tr) =
        (drop k (c # gs), rows_of (drop k (c # gs)), span_of (drop k (c # gs))) \<and> newest_within m (c # gs) k"
      using 1 True by simp
    then obtain k where k: "trim_oldest m (c # gs) (rows - int (length g)) (span_s - of_nat (length g) * tr) =
        (drop k (c # gs), rows_of (drop k (c # gs)), span_of (drop k (c # gs)))" "newest_within m (c # gs) k"
      by blast
    have "newest_within m ((g, tr, cs, ss) # c # gs) (Suc k)"
      using k(2) True 1(3) by (auto simp: newest_within_def less_Suc_eq_0_disj)
    then show ?thesis using k(1) True by (intro exI [of _ "Suc k"]) simp
  next
    case False
    then show ?thesis using 1(3,4) by (intro exI [of _ 0]) (simp add: newest_within_def)
  qed
qed (auto simp: newest_within_def intro: exI [of _ 0])

text \<open>The writes since the last drain.\<close>

datatype pre_op = PWrite grid "rat list" rat int int | PDrain "int option" | PClear

fun pre_step :: "pre_op \<Rightarrow> pre_buffer \<Rightarrow> pre_buffer" where
  "pre_step (PWrite g fa tr cs ss) b = pre_write g fa tr cs ss b"
| "pre_step (PDrain f) b = snd (pre_drain f b)"
| "pre_step PClear b = pre_clear b"

fun writes_since :: "pre_op list \<Rightarrow> chunk_grid list \<Rightarrow> chunk_grid list" where
  "writes_since [] ws = ws"
| "writes_since (PWrite g fa tr cs ss # ops) ws =
     writes_since ops (if usable (g, tr, cs, ss) then ws @ [(g, tr, cs, ss)] else ws)"
| "writes_since (_ # ops) ws = writes_since ops []"

definition pre_holds :: "pre_buffer \<Rightarrow> chunk_grid list \<Rightarrow> bool" where
  "pre_holds b ws \<longleftrightarrow> (\<forall>w \<in> set ws. usable w) \<and> pb_rows b = rows_of (pb_grids b) \<and>
     pb_span b = span_of (pb_grids b) \<and> (pb_freq_axis b = None \<longleftrightarrow> pb_grids b = []) \<and>
     (\<exists>k. pb_grids b = drop k ws \<and> newest_within (pb_max_seconds b) ws k)"

lemma span_of_nonneg: "\<forall>w \<in> set ws. usable w \<Longrightarrow> 0 \<le> span_of ws"
  by (induction ws) (auto simp: usable_def)

lemma newest_within_append:
  assumes k: "newest_within m ws k" and j: "newest_within m (drop k ws @ [w]) j"
    and u: "\<forall>v \<in> set (ws @ [w]). usable v"
  shows "newest_within m (ws @ [w]) (k + j)"
proof -
  have kl: "k \<le> length ws" using k by (simp add: newest_within_def)
  have drops: "drop (k + i) (ws @ [w]) = drop i (drop k ws @ [w])" for i
    using kl by (simp add: add.commute)
  have "m < span_of (drop i (ws @ [w]))" if "i < k + j" for i
  proof (cases "i < k")
    case True
    then have "m < span_of (drop i ws)" using k by (simp add: newest_within_def)
    moreover have "0 \<le> span_of [w]" using u by (intro span_of_nonneg) simp
    moreover have "drop i (ws @ [w]) = drop i ws @ [w]" using True kl by simp
    ultimately show ?thesis by simp
  next
    case False
    then have i: "k + (i - k) = i" "i - k < j" using that by linarith+
    then have "m < span_of (drop (i - k) (drop k ws @ [w]))" using j unfolding newest_within_def by blast
    then show ?thesis using drops [of "i - k"] i(1) by (simp only:)
  qed
  then show ?thesis
    using j kl drops [of j] unfolding newest_within_def by auto
qed

lemma pre_holds_write:
  assumes h: "pre_holds b ws"
  shows "pre_holds (pre_write g fa tr cs ss b)
    (if usable (g, tr, cs, ss) then ws @ [(g, tr, cs, ss)] else ws)"
proof (cases "usable (g, tr, cs, ss)")
  case True
  obtain k where k: "pb_grids b = drop k ws" "newest_within (pb_max_seconds b) ws k"
    using h by (auto simp: pre_holds_def)
  let ?gs = "pb_grids b @ [(g, tr, cs, ss)]"
  have u: "\<forall>w \<in> set (ws @ [(g, tr, cs, ss)]). usable w" using h True by (auto simp: pre_holds_def)
  have "\<forall>w \<in> set ?gs. usable w" using u k(1) by (auto dest: in_set_dropD)
  from trim_oldest_newest [OF this, of "pb_span b + of_nat (length g) * tr" "pb_rows b + int (length g)"] h
  obtain j where j: "trim_oldest (pb_max_seconds b) ?gs (pb_rows b + int (length g))
        (pb_span b + of_nat (length g) * tr) = (drop j ?gs, rows_of (drop j ?gs), span_of (drop j ?gs))"
      "newest_within (pb_max_seconds b) ?gs j"
    by (auto simp: pre_holds_def)
  have w: "pre_write g fa tr cs ss b = b\<lparr>pb_grids := drop j ?gs, pb_freq_axis := Some fa,
      pb_rows := rows_of (drop j ?gs), pb_span := span_of (drop j ?gs)\<rparr>"
    using True by (auto simp: pre_write_def usable_def Let_def j(1))
  have "k \<le> length ws" using k(2) by (simp add: newest_within_def)
  then have "drop j ?gs = drop (k + j) (ws @ [(g, tr, cs, ss)])" by (simp add: k(1) add.commute)
  moreover have "drop j ?gs \<noteq> []" using j(2) by (simp add: newest_within_def)
  ultimately show ?thesis
    using True u newest_within_append [OF k(2) _ u, of j] j(2) k(1)
    unfolding pre_holds_def w by auto
next
  case False
  then have "pre_write g fa tr cs ss b = b" by (auto simp: pre_write_def usable_def)
  then show ?thesis using h False by simp
qed

lemma pre_holds_clear: "pre_holds (pre_clear b) []"
  by (simp add: pre_holds_def pre_clear_def newest_within_def)

lemma snd_pre_drain [simp]: "snd (pre_drain f b) = pre_clear b"
  by (auto simp: pre_drain_def Let_def split: list.splits option.splits prod.splits)

lemma pre_holds_run:
  "pre_holds b ws \<Longrightarrow> pre_holds (fold pre_step ops b) (writes_since ops ws)"
proof (induction ops arbitrary: b ws)
  case (Cons op ops)
  show ?case
    by (cases op) (use Cons pre_holds_write pre_holds_clear in \<open>auto simp: if_distrib\<close>)
qed simp

lemma pre_step_max [simp]: "pb_max_seconds (pre_step op b) = pb_max_seconds b"
  by (cases op) (auto simp: pre_write_def pre_clear_def Let_def split: prod.splits)

lemma pre_run_max [simp]: "pb_max_seconds (fold pre_step ops b) = pb_max_seconds b"
  by (induction ops arbitrary: b) simp_all

section \<open>What a drain returns\<close>

definition tagged_all :: "chunk_grid list \<Rightarrow> (int \<times> rat list) list" where
  "tagged_all gs = concat (map (\<lambda>(g, tr, cs, ss). tagged_rows g cs ss) gs)"

definition from_position :: "int option \<Rightarrow> int \<times> rat list \<Rightarrow> bool" where
  "from_position f = (\<lambda>(p, row). case f of None \<Rightarrow> True | Some a \<Rightarrow> a \<le> p)"

lemma filter_tagged_rows:
  fixes cs ss :: int and f :: "int option"
  assumes "0 < ss"
  defines "first \<equiv> case f of None \<Rightarrow> 0 | Some a \<Rightarrow> first_of cs ss a"
  shows "filter (from_position f) (tagged_rows g cs ss) = drop (nat first) (tagged_rows g cs ss)"
proof -
  have "filter (from_position f) (tagged_rows g cs ss) =
      take (length g - nat first) (drop (nat first) (tagged_rows g cs ss))"
  proof (rule filter_interval)
    fix k assume "k < length (tagged_rows g cs ss)"
    then show "from_position f (tagged_rows g cs ss ! k) \<longleftrightarrow> nat first \<le> k \<and> k < length g"
      using first_of_iff [OF assms(1), of "int k"] by (auto simp: from_position_def first_def split: option.splits)
  qed
  then show ?thesis by simp
qed

lemma drain_loop_exact:
  assumes "\<forall>(g, tr, cs, ss) \<in> set gs. 0 < ss \<and> 0 \<le> cs"
  shows "\<exists>ks. drain_loop f gs kept start =
      (kept @ ks, if start < 0 \<and> ks \<noteq> [] then fst (hd (filter (from_position f) (tagged_all gs))) else start) \<and>
    concat ks = map snd (filter (from_position f) (tagged_all gs)) \<and>
    (ks = [] \<longleftrightarrow> filter (from_position f) (tagged_all gs) = [])"
  using assms
proof (induction gs arbitrary: kept start)
  case (Cons w gs)
  obtain g tr cs ss where w: "w = (g, tr, cs, ss)" by (cases w)
  have ss: "0 < ss" "0 \<le> cs" using Cons.prems by (auto simp: w)
  define first where "first = (case f of None \<Rightarrow> 0 | Some a \<Rightarrow> first_of cs ss a)"
  have f0: "0 \<le> first" using first_of_nonneg [OF ss(1)] by (simp add: first_def split: option.splits)
  have first: "(case f of None \<Rightarrow> 0 | Some f \<Rightarrow> if cs < f then (f - cs + ss - 1) div ss else 0) = first"
    by (cases f) (simp_all add: first_def first_of_def)
  have here: "filter (from_position f) (tagged_rows g cs ss) = drop (nat first) (tagged_rows g cs ss)"
    using filter_tagged_rows [OF ss(1)] by (simp add: first_def)
  have all: "filter (from_position f) (tagged_all (w # gs)) =
      drop (nat first) (tagged_rows g cs ss) @ filter (from_position f) (tagged_all gs)"
    by (simp add: tagged_all_def w here)
  define start' where "start' = (if start < 0 then cs + first * ss else start)"
  define kept' where "kept' = (if int (length g) \<le> first then kept else kept @ [drop (nat first) g])"
  show ?case
  proof (cases "int (length g) \<le> first")
    case True
    have IH: "\<exists>ks. drain_loop f gs kept start =
      (kept @ ks, if start < 0 \<and> ks \<noteq> [] then fst (hd (filter (from_position f) (tagged_all gs))) else start) \<and>
    concat ks = map snd (filter (from_position f) (tagged_all gs)) \<and>
    (ks = [] \<longleftrightarrow> filter (from_position f) (tagged_all gs) = [])"
      by (rule Cons.IH) (use Cons.prems in simp)
    have same: "filter (from_position f) (tagged_all (w # gs)) = filter (from_position f) (tagged_all gs)"
      using True by (simp add: all)
    have "drain_loop f (w # gs) kept start = drain_loop f gs kept start"
      using True by (simp only: w drain_loop.simps first Let_def if_True)
    then show ?thesis using IH by (simp only: same)
  next
    case False
    have IH: "\<exists>ks. drain_loop f gs (kept @ [drop (nat first) g]) start' =
      ((kept @ [drop (nat first) g]) @ ks,
       if start' < 0 \<and> ks \<noteq> [] then fst (hd (filter (from_position f) (tagged_all gs))) else start') \<and>
    concat ks = map snd (filter (from_position f) (tagged_all gs)) \<and>
    (ks = [] \<longleftrightarrow> filter (from_position f) (tagged_all gs) = [])"
      by (rule Cons.IH) (use Cons.prems in simp)
    then obtain ks where ks: "drain_loop f gs (kept @ [drop (nat first) g]) start' =
      ((kept @ [drop (nat first) g]) @ ks,
       if start' < 0 \<and> ks \<noteq> [] then fst (hd (filter (from_position f) (tagged_all gs))) else start')"
      "concat ks = map snd (filter (from_position f) (tagged_all gs))" by blast
    have pos: "nat first < length g" using False f0 by linarith
    have "0 \<le> first * ss" using f0 ss by simp
    then have st: "\<not> start' < 0" using ss by (auto simp: start'_def)
    have "hd (drop (nat first) (tagged_rows g cs ss)) = (cs + first * ss, g ! nat first)"
      using pos f0 by (simp add: hd_drop_conv_nth)
    then have hd: "fst (hd (filter (from_position f) (tagged_all (w # gs)))) = cs + first * ss"
      using pos by (simp add: all)
    have "drain_loop f (w # gs) kept start = drain_loop f gs (kept @ [drop (nat first) g]) start'"
      using False by (simp only: w drain_loop.simps first Let_def if_False start'_def)
    moreover have "map snd (drop (nat first) (tagged_rows g cs ss)) = drop (nat first) g"
      by (simp add: drop_map [symmetric])
    ultimately show ?thesis
      using ks st pos hd by (intro exI [of _ "drop (nat first) g # ks"]) (simp add: all start'_def)
  qed
qed (simp add: tagged_all_def)

text \<open>
  C18: a recording takes exactly the rows that cover it. After any sequence of writes,
  drains and clears the buffer holds the newest grids written since the last drain,
  as many as fit in \<open>max_seconds\<close> (and the last one always), and a drain from a
  sample position returns exactly their rows that start at or after it, in order,
  with the true position of the first one, or nothing when no row qualifies.
\<close>

theorem pre_drain_exact:
  fixes ops :: "pre_op list" and m :: rat
  assumes "\<forall>(g, tr, cs, ss) \<in> set (writes_since ops []). 0 \<le> cs"
  defines "ws \<equiv> writes_since ops []" and "b \<equiv> fold pre_step ops (pre_new m)"
  shows "\<exists>k. newest_within (max 0 m) ws k \<and>
    (let sel = filter (from_position f) (tagged_all (drop k ws))
     in case fst (pre_drain f b) of None \<Rightarrow> sel = []
        | Some pr \<Rightarrow> sel \<noteq> [] \<and> concat (pr_grids pr) = map snd sel \<and> pr_rows pr = int (length sel) \<and>
            pr_start_sample pr = fst (hd sel))"
proof -
  have "pre_holds (pre_new m) []" by (simp add: pre_holds_def pre_new_def newest_within_def)
  from pre_holds_run [OF this, of ops] have h: "pre_holds b ws" by (simp add: ws_def b_def)
  then obtain k where k: "pb_grids b = drop k ws" "newest_within (max 0 m) ws k"
    by (auto simp: pre_holds_def b_def pre_new_def)
  define sel where "sel = filter (from_position f) (tagged_all (drop k ws))"
  have "\<forall>(g, tr, cs, ss) \<in> set (pb_grids b). 0 < ss \<and> 0 \<le> cs"
    using h assms(1) unfolding k(1) by (fastforce simp: pre_holds_def usable_def ws_def [symmetric] dest: in_set_dropD)
  from drain_loop_exact [OF this, of f "[]" "-1"] obtain ks where
    ks: "drain_loop f (pb_grids b) [] (-1) = (ks, if ks \<noteq> [] then fst (hd sel) else -1)"
      "concat ks = map snd sel" "ks = [] \<longleftrightarrow> sel = []"
    by (auto simp: sel_def k(1))
  have len: "length (concat ks) = length sel" using arg_cong [OF ks(2), of length] by simp
  have "case fst (pre_drain f b) of None \<Rightarrow> sel = []
        | Some pr \<Rightarrow> sel \<noteq> [] \<and> concat (pr_grids pr) = map snd sel \<and> pr_rows pr = int (length sel) \<and>
            pr_start_sample pr = fst (hd sel)"
  proof (cases "pb_grids b = []")
    case True
    then show ?thesis using ks by (simp add: pre_drain_def)
  next
    case False
    then obtain fa where fa: "pb_freq_axis b = Some fa" using h by (auto simp: pre_holds_def)
    obtain w gs where w: "pb_grids b = w # gs" using False by (cases "pb_grids b") auto
    show ?thesis
      using ks len unfolding pre_drain_def fa w Let_def by (auto split: prod.splits)
  qed
  then show ?thesis using k(2) unfolding sel_def Let_def by blast
qed

definition ex_ops :: "pre_op list" where
  "ex_ops = [PWrite [[1], [2]] [0] 1 0 100, PWrite [[3], [4]] [0] 1 200 100]"

theorem pre_drain_exact_witness:
  "\<exists>k. newest_within 5 (writes_since ex_ops []) k \<and>
    (let sel = filter (from_position (Some 150)) (tagged_all (drop k (writes_since ex_ops [])))
     in case fst (pre_drain (Some 150) (fold pre_step ex_ops (pre_new 5))) of None \<Rightarrow> sel = []
        | Some pr \<Rightarrow> sel \<noteq> [] \<and> concat (pr_grids pr) = map snd sel \<and> pr_rows pr = int (length sel) \<and>
            pr_start_sample pr = fst (hd sel))"
proof -
  have "\<forall>(g, tr, cs, ss) \<in> set (writes_since ex_ops []). 0 \<le> cs"
    by (simp add: ex_ops_def usable_def)
  from pre_drain_exact [OF this, of 5 "Some 150"] show ?thesis by simp
qed

end
