(* ===== verification/Receiver.thy ===== *)
theory Receiver
  imports Run_Cutter
begin

text \<open>
  \<open>capture/receiver.py: Receiver\<close>, the streaming part: \<open>recv_chunk\<close> fills a buffer
  from the packets of the hardware and accounts for the samples an overflow lost.
  A packet is what one \<open>rx_streamer.recv\<close> returned: its samples, the tick (sample
  number at the stream rate) of its time specification, and its error code. The
  driver and the tuning are not modelled. The specification is the device's time
  line, which has a zero for every tick that no packet covers.
\<close>

section \<open>Receiving a chunk\<close>

datatype rx_error = Rx_None | Rx_Overflow | Rx_Other

record packet =
  pk_samples :: iq
  pk_tick :: "int option"
  pk_error :: rx_error

record receiver =
  rv_stream_rate :: rat
  rv_next_tick :: "int option"
  rv_last_gaps :: "gap list"
  rv_overflow_events :: nat
  rv_overflow_lost_samples :: int
  rv_last_device_time :: "rat option"
  rv_streaming :: bool

definition receiver_new :: "rat \<Rightarrow> receiver" where
  "receiver_new bandwidth_hz = \<lparr>rv_stream_rate = bandwidth_hz, rv_next_tick = None, rv_last_gaps = [],
     rv_overflow_events = 0, rv_overflow_lost_samples = 0, rv_last_device_time = None,
     rv_streaming = False\<rparr>"

definition reset_gap_tracking :: "receiver \<Rightarrow> receiver" where
  "reset_gap_tracking v = v\<lparr>rv_next_tick := None\<rparr>"

definition start_streaming :: "receiver \<Rightarrow> receiver" where
  "start_streaming v = (reset_gap_tracking v)\<lparr>rv_streaming := True\<rparr>"

definition stop_streaming :: "receiver \<Rightarrow> receiver" where
  "stop_streaming v = reset_gap_tracking (v\<lparr>rv_streaming := False\<rparr>)"

text \<open>A packet with samples: its gap, the counters, and the tick expected next.\<close>

definition note_gap :: "int \<Rightarrow> packet \<Rightarrow> receiver \<times> gap list \<Rightarrow> receiver \<times> gap list" where
  "note_gap filled p = (\<lambda>(v, gaps). case pk_tick p of
       None \<Rightarrow> (v\<lparr>rv_next_tick := None\<rparr>, gaps)
     | Some tick \<Rightarrow>
         (let (v, gaps) = (case rv_next_tick v of
                Some due \<Rightarrow> if due < tick
                  then (v\<lparr>rv_overflow_events := rv_overflow_events v + 1,
                          rv_overflow_lost_samples := rv_overflow_lost_samples v + (tick - due)\<rparr>,
                        gaps @ [(filled, tick - due)])
                  else (v, gaps)
              | None \<Rightarrow> (v, gaps))
          in (v\<lparr>rv_next_tick := Some (tick + int (length (pk_samples p)))\<rparr>, gaps)))"

definition first_time_of :: "rat \<Rightarrow> int \<Rightarrow> packet \<Rightarrow> rat option \<Rightarrow> rat option" where
  "first_time_of rate filled p first_time = (case pk_tick p of
       Some tick \<Rightarrow> if filled = 0 then Some (of_int tick / rate) else first_time
     | None \<Rightarrow> first_time)"

text \<open>
  The loop of \<open>recv_chunk\<close> on the packets to come: the buffer filled so far, the
  gaps, the time of the first sample, the receiver and the packets left;
  \<open>None\<close> when the packets run out before the call returns.
\<close>

fun recv_loop ::
  "int \<Rightarrow> iq \<Rightarrow> gap list \<Rightarrow> rat option \<Rightarrow> receiver \<Rightarrow> packet list \<Rightarrow>
   (iq \<times> gap list \<times> rat option \<times> receiver \<times> packet list) option" where
  "recv_loop target out gaps first v [] =
     (if target \<le> int (length out) then Some (out, gaps, first, v, []) else None)"
| "recv_loop target out gaps first v (p # ps) =
     (if target \<le> int (length out) then Some (out, gaps, first, v, p # ps)
      else if pk_error p = Rx_Other then Some (out, gaps, first, v, ps)
      else if pk_samples p = [] then recv_loop target out gaps first v ps
      else
        let filled = int (length out);
            first = first_time_of (rv_stream_rate v) filled p first;
            (v, gaps) = note_gap filled p (v, gaps)
        in recv_loop target (out @ pk_samples p) gaps first v ps)"

definition recv_chunk :: "int \<Rightarrow> receiver \<Rightarrow> packet list \<Rightarrow> (iq \<times> receiver \<times> packet list) option" where
  "recv_chunk target v ps = (case recv_loop target [] [] None v ps of None \<Rightarrow> None
     | Some (out, gaps, first, v, ps) \<Rightarrow>
         Some (out, v\<lparr>rv_last_gaps := gaps, rv_last_device_time := first\<rparr>, ps))"

text \<open>Chunk after chunk, as the receiver thread reads: each chunk with its gaps.\<close>

fun recv_chunks :: "int list \<Rightarrow> receiver \<Rightarrow> packet list \<Rightarrow> ((iq \<times> gap list) list \<times> receiver \<times> packet list) option" where
  "recv_chunks [] v ps = Some ([], v, ps)"
| "recv_chunks (n # ns) v ps = (case recv_chunk n v ps of None \<Rightarrow> None
     | Some (out, v, ps) \<Rightarrow> map_option (\<lambda>(cs, r). ((out, rv_last_gaps v) # cs, r)) (recv_chunks ns v ps))"

section \<open>The device's time line\<close>

text \<open>
  The samples of the packets at their ticks, from tick \<open>k\<close> on, zeros in between; and
  what a driver promises: each packet with samples is timed and starts no earlier
  than the one before it ended.
\<close>

fun device_line :: "int \<Rightarrow> packet list \<Rightarrow> iq" where
  "device_line k [] = []"
| "device_line k (p # ps) = (if pk_error p = Rx_Other \<or> pk_samples p = [] then device_line k ps
     else zeros (the (pk_tick p) - k) @ pk_samples p @
       device_line (the (pk_tick p) + int (length (pk_samples p))) ps)"

fun timed :: "int option \<Rightarrow> packet list \<Rightarrow> bool" where
  "timed k [] = True"
| "timed k (p # ps) = (if pk_error p = Rx_Other \<or> pk_samples p = [] then timed k ps
     else (case pk_tick p of None \<Rightarrow> False
       | Some tick \<Rightarrow> (case k of None \<Rightarrow> True | Some k \<Rightarrow> k \<le> tick) \<and>
           timed (Some (tick + int (length (pk_samples p)))) ps))"

text \<open>The tick the line starts at: the one expected, or that of the first packet.\<close>

fun line_start :: "int option \<Rightarrow> packet list \<Rightarrow> int" where
  "line_start (Some k) ps = k"
| "line_start None [] = 0"
| "line_start None (p # ps) = (if pk_error p = Rx_Other \<or> pk_samples p = [] then line_start None ps
     else the (pk_tick p))"

definition dev :: "int option \<Rightarrow> packet list \<Rightarrow> iq" where
  "dev k ps = device_line (line_start k ps) ps"

text \<open>Appending to the time line of a chunk.\<close>

lemma lost_at_no: "\<forall>(off, l) \<in> set gaps. off < k \<Longrightarrow> lost_at gaps k = 0"
  by (induction gaps) (auto simp: lost_at_def)

lemma lost_from_no: "\<forall>(off, l) \<in> set gaps. off < k \<Longrightarrow> lost_from gaps k = 0"
  by (induction gaps) (auto simp: lost_from_def)

lemma lost_at_append [simp]: "lost_at (gs @ hs) k = lost_at gs k + lost_at hs k"
  by (simp add: lost_at_def)

lemma lost_from_append [simp]: "lost_from (gs @ hs) k = lost_from gs k + lost_from hs k"
  by (simp add: lost_from_def)

lemma time_line_past_gaps: "\<forall>(off, l) \<in> set gaps. off < k \<Longrightarrow> time_line k ys gaps = ys"
proof (induction ys arbitrary: k)
  case (Cons y ys)
  have "\<forall>(off, l) \<in> set gaps. off < k + 1" using Cons.prems by fastforce
  with Cons show ?case by (simp add: lost_at_no)
qed (simp add: lost_from_no)

lemma time_line_append:
  assumes "\<forall>(off, l) \<in> set gaps. off < k + int (length xs)"
  shows "time_line k (xs @ ys) gaps = time_line k xs gaps @ ys"
  using assms
proof (induction xs arbitrary: k)
  case (Cons x xs)
  then show ?case by (simp add: algebra_simps)
qed (simp add: time_line_past_gaps lost_from_no)

lemma time_line_append_gap:
  assumes "\<forall>(off, l) \<in> set gaps. off < k + int (length xs)" "ys \<noteq> []"
  shows "time_line k (xs @ ys) (gaps @ [(k + int (length xs), lost)]) = time_line k xs gaps @ zeros lost @ ys"
  using assms
proof (induction xs arbitrary: k)
  case Nil
  then obtain y ys' where y: "ys = y # ys'" by (cases ys) auto
  have later: "\<forall>(off, l) \<in> set (gaps @ [(k, lost)]). off < k + 1" using Nil.prems by fastforce
  have "lost_at (gaps @ [(k, lost)]) k = lost" using Nil.prems by (simp add: lost_at_no)
  then show ?case
    using Nil.prems by (simp add: y time_line_past_gaps [OF later] lost_from_no)
next
  case (Cons x xs)
  have "time_line (k + 1) (xs @ ys) (gaps @ [(k + 1 + int (length xs), lost)]) =
      time_line (k + 1) xs gaps @ zeros lost @ ys"
    using Cons.IH [of "k + 1"] Cons.prems by (simp add: algebra_simps)
  then show ?case using Cons.prems by (simp add: lost_at_def algebra_simps)
qed

text \<open>
  The gaps of a buffer being filled: at increasing offsets inside it, none empty.
\<close>

definition gaps_inside :: "iq \<Rightarrow> gap list \<Rightarrow> bool" where
  "gaps_inside out gaps \<longleftrightarrow> increasing gaps \<and> (\<forall>(off, l) \<in> set gaps. 0 \<le> off \<and> off < int (length out) \<and> 0 < l)"

lemma gaps_inside_Nil: "gaps_inside [] gaps \<Longrightarrow> gaps = []"
  by (cases gaps) (auto simp: gaps_inside_def)

lemma gaps_inside_append:
  "gaps_inside out gaps \<Longrightarrow> gaps_inside (out @ xs) gaps"
  "gaps_inside out gaps \<Longrightarrow> xs \<noteq> [] \<Longrightarrow> 0 < l \<Longrightarrow> gaps_inside (out @ xs) (gaps @ [(int (length out), l)])"
  by (fastforce simp: gaps_inside_def sorted_wrt_append)+

lemma gaps_inside_ok: "gaps_inside out gaps \<Longrightarrow> gaps_ok (int (length out)) gaps"
  unfolding gaps_inside_def gaps_ok_def
  by (auto simp: sorted_wrt_map [symmetric] strict_sorted_iff [THEN iffD1])

lemma chunk_line_append:
  assumes "gaps_inside out gaps"
  shows "chunk_line (out @ xs) gaps = chunk_line out gaps @ xs"
  using assms by (auto simp: chunk_line_def inner_line_def gaps_inside_def intro!: time_line_append)

lemma chunk_line_append_gap:
  assumes g: "gaps_inside out gaps" and "xs \<noteq> []" "0 < l"
  shows "chunk_line (out @ xs) (gaps @ [(int (length out), l)]) = chunk_line out gaps @ zeros l @ xs"
proof (cases "out = []")
  case True
  then have "gaps = []" using g gaps_inside_Nil by simp
  then show ?thesis using True by (simp add: chunk_line_def inner_line_def lost_before_def time_line_no_gaps lost_from_def)
next
  case False
  let ?gs = "filter (\<lambda>(off, _). 0 < off) gaps"
  have "\<forall>(off, l) \<in> set ?gs. off < 0 + int (length out)" using g by (auto simp: gaps_inside_def)
  from time_line_append_gap [OF this assms(2), of l] False show ?thesis
    by (simp add: chunk_line_def inner_line_def lost_before_def)
qed

lemma note_gap_step:
  assumes n: "note_gap (int (length out)) p (v, gaps) = (v', gaps')" and p: "pk_samples p \<noteq> []" "pk_error p \<noteq> Rx_Other"
    and t: "timed (rv_next_tick v) (p # ps)" and g: "gaps_inside out gaps"
  shows "chunk_line (out @ pk_samples p) gaps' @ dev (rv_next_tick v') ps =
      chunk_line out gaps @ dev (rv_next_tick v) (p # ps) \<and>
    timed (rv_next_tick v') ps \<and> gaps_inside (out @ pk_samples p) gaps' \<and>
    rv_overflow_lost_samples v' - (\<Sum>(off, l) \<leftarrow> gaps'. l) = rv_overflow_lost_samples v - (\<Sum>(off, l) \<leftarrow> gaps. l) \<and>
    int (rv_overflow_events v') - int (length gaps') = int (rv_overflow_events v) - int (length gaps) \<and>
    rv_stream_rate v' = rv_stream_rate v"
proof -
  obtain tick where tick: "pk_tick p = Some tick" using t p by (auto split: option.splits)
  show ?thesis
  proof (cases "rv_next_tick v")
    case None
    then have "v' = v\<lparr>rv_next_tick := Some (tick + int (length (pk_samples p)))\<rparr>" "gaps' = gaps"
      using n by (auto simp: note_gap_def tick)
    then show ?thesis
      using None t p g tick by (auto simp: chunk_line_append dev_def gaps_inside_append)
  next
    case (Some k)
    then have k: "k \<le> tick" "timed (Some (tick + int (length (pk_samples p)))) ps"
      using t p tick by auto
    show ?thesis
    proof (cases "k < tick")
      case True
      then have "v' = v\<lparr>rv_overflow_events := rv_overflow_events v + 1,
          rv_overflow_lost_samples := rv_overflow_lost_samples v + (tick - k),
          rv_next_tick := Some (tick + int (length (pk_samples p)))\<rparr>"
        "gaps' = gaps @ [(int (length out), tick - k)]"
        using n Some by (auto simp: note_gap_def tick)
      then show ?thesis
        using k p g tick Some True
        by (simp add: chunk_line_append_gap dev_def gaps_inside_append)
    next
      case False
      then have "v' = v\<lparr>rv_next_tick := Some (tick + int (length (pk_samples p)))\<rparr>" "gaps' = gaps" "tick = k"
        using n Some k by (auto simp: note_gap_def tick)
      then show ?thesis using k p g tick Some by (simp add: chunk_line_append dev_def gaps_inside_append)
    qed
  qed
qed

lemma recv_loop_line:
  assumes "recv_loop target out gaps first v ps = Some (out', gaps', first', v', ps')"
    and "timed (rv_next_tick v) ps" "gaps_inside out gaps"
  shows "chunk_line out' gaps' @ dev (rv_next_tick v') ps' = chunk_line out gaps @ dev (rv_next_tick v) ps \<and>
    timed (rv_next_tick v') ps' \<and> gaps_inside out' gaps' \<and>
    rv_overflow_lost_samples v' - (\<Sum>(off, l) \<leftarrow> gaps'. l) = rv_overflow_lost_samples v - (\<Sum>(off, l) \<leftarrow> gaps. l) \<and>
    int (rv_overflow_events v') - int (length gaps') = int (rv_overflow_events v) - int (length gaps)"
  using assms
proof (induction target out gaps first v ps rule: recv_loop.induct)
  case (1 target out gaps first v)
  then show ?case by (auto split: if_splits)
next
  case (2 target out gaps first v p ps)
  have skip: "dev k (p # ps) = dev k ps" "timed k (p # ps) = timed k ps"
    if "pk_error p = Rx_Other \<or> pk_samples p = []" for k
    using that by (cases k; simp add: dev_def)+
  consider "target \<le> int (length out)" | "\<not> target \<le> int (length out)" "pk_error p = Rx_Other"
    | "\<not> target \<le> int (length out)" "pk_error p \<noteq> Rx_Other" "pk_samples p = []"
    | "\<not> target \<le> int (length out)" "pk_error p \<noteq> Rx_Other" "pk_samples p \<noteq> []"
    by blast
  then show ?case
  proof cases
    case 1
    then show ?thesis using "2.prems" by simp
  next
    case 2
    then show ?thesis using "2.prems" skip by simp
  next
    case 3
    then show ?thesis using "2.prems" "2.IH"(1) skip by simp
  next
    case 4
    obtain v1 gaps1 where n: "note_gap (int (length out)) p (v, gaps) = (v1, gaps1)" by fastforce
    note st = note_gap_step [OF n 4(3,2) "2.prems"(2,3)]
    have "recv_loop target (out @ pk_samples p) gaps1 (first_time_of (rv_stream_rate v) (int (length out)) p first) v1 ps =
        Some (out', gaps', first', v', ps')"
      using "2.prems"(1) 4 n by (simp add: Let_def)
    from "2.IH"(2) [OF 4 refl refl n [symmetric] refl this] st show ?thesis by simp
  qed
qed

lemma recv_chunk_line:
  assumes "recv_chunk n v ps = Some (out, v', ps')" "timed (rv_next_tick v) ps"
  shows "chunk_line out (rv_last_gaps v') @ dev (rv_next_tick v') ps' = dev (rv_next_tick v) ps \<and>
    timed (rv_next_tick v') ps' \<and> gaps_ok (int (length out)) (rv_last_gaps v') \<and>
    rv_overflow_lost_samples v' = rv_overflow_lost_samples v + (\<Sum>(off, l) \<leftarrow> rv_last_gaps v'. l) \<and>
    rv_overflow_events v' = rv_overflow_events v + length (rv_last_gaps v')"
proof -
  obtain gaps first v1 where l: "recv_loop n [] [] None v ps = Some (out, gaps, first, v1, ps')"
    and v': "v' = v1\<lparr>rv_last_gaps := gaps, rv_last_device_time := first\<rparr>"
    using assms(1) by (auto simp: recv_chunk_def split: option.splits)
  have "gaps_inside [] []" by (simp add: gaps_inside_def)
  from recv_loop_line [OF l assms(2) this]
  show ?thesis
    by (auto simp: v' chunk_line_def inner_line_def lost_before_def lost_from_def intro: gaps_inside_ok)
qed

lemma recv_chunks_line:
  assumes "recv_chunks ns v ps = Some (cs, v', ps')" "timed (rv_next_tick v) ps"
  shows "concat (map (\<lambda>(out, gaps). chunk_line out gaps) cs) @ dev (rv_next_tick v') ps' = dev (rv_next_tick v) ps \<and>
    (\<forall>(out, gaps) \<in> set cs. gaps_ok (int (length out)) gaps) \<and>
    rv_overflow_lost_samples v' = rv_overflow_lost_samples v + (\<Sum>(out, gaps) \<leftarrow> cs. \<Sum>(off, l) \<leftarrow> gaps. l) \<and>
    rv_overflow_events v' = rv_overflow_events v + (\<Sum>(out, gaps) \<leftarrow> cs. length gaps)"
  using assms
proof (induction ns arbitrary: v ps cs)
  case (Cons n ns)
  from Cons.prems(1) obtain out v1 ps1 cs1 where c: "recv_chunk n v ps = Some (out, v1, ps1)"
    and r: "recv_chunks ns v1 ps1 = Some (cs1, v', ps')" and cs: "cs = (out, rv_last_gaps v1) # cs1"
    by (auto split: option.splits)
  from recv_chunk_line [OF c Cons.prems(2)] Cons.IH [OF r] show ?case by (simp add: cs)
qed simp

section \<open>Properties\<close>

text \<open>
  C5: no lost sample goes unaccounted. Over any number of chunks read after the
  stream is started, from packets that are timed and in order, the chunks with a
  zero for every sample of their gaps are the device's time line without a shift,
  the gaps are what the run cutter requires of them, and the overflow counters
  count them exactly, whichever packets the chunk boundaries fall on and whichever
  calls an error ends early.
\<close>

theorem received_chunks_are_time_line:
  assumes "recv_chunks ns (start_streaming v) ps = Some (cs, v', rest)" and "timed None ps"
  shows "concat (map (\<lambda>(out, gaps). chunk_line out gaps) cs) @ dev (rv_next_tick v') rest = dev None ps \<and>
    (\<forall>(out, gaps) \<in> set cs. gaps_ok (int (length out)) gaps) \<and>
    rv_overflow_lost_samples v' = rv_overflow_lost_samples v + (\<Sum>(out, gaps) \<leftarrow> cs. \<Sum>(off, l) \<leftarrow> gaps. l) \<and>
    rv_overflow_events v' = rv_overflow_events v + (\<Sum>(out, gaps) \<leftarrow> cs. length gaps)"
  using recv_chunks_line [OF assms(1)] assms(2) by (simp add: start_streaming_def reset_gap_tracking_def)

definition ex_packets :: "packet list" where
  "ex_packets = [\<lparr>pk_samples = [1, 2], pk_tick = Some 100, pk_error = Rx_None\<rparr>,
     \<lparr>pk_samples = [3], pk_tick = Some 104, pk_error = Rx_None\<rparr>,
     \<lparr>pk_samples = [4], pk_tick = Some 105, pk_error = Rx_Other\<rparr>,
     \<lparr>pk_samples = [5, 6], pk_tick = Some 106, pk_error = Rx_None\<rparr>]"

definition ex_chunks :: "(iq \<times> gap list) list \<times> receiver \<times> packet list" where
  "ex_chunks = the (recv_chunks [3, 2, 2] (start_streaming (receiver_new 1000)) ex_packets)"

theorem received_chunks_are_time_line_witness:
  "fst ex_chunks = [([1, 2, 3], [(2, 2)]), ([], []), ([5, 6], [(0, 1)])] \<and>
   [1, 2, 0, 0, 3, 0, 5, 6] @ dev (rv_next_tick (fst (snd ex_chunks))) (snd (snd ex_chunks)) = dev None ex_packets"
proof -
  have "recv_chunks [3, 2, 2] (start_streaming (receiver_new 1000)) ex_packets \<noteq> None"
    unfolding ex_packets_def by code_simp
  then have run: "recv_chunks [3, 2, 2] (start_streaming (receiver_new 1000)) ex_packets =
      Some (fst ex_chunks, fst (snd ex_chunks), snd (snd ex_chunks))"
    by (auto simp: ex_chunks_def)
  have cs: "fst ex_chunks = [([1, 2, 3], [(2, 2)]), ([], []), ([5, 6], [(0, 1)])]"
    by code_simp
  have "timed None ex_packets" by code_simp
  moreover have "concat (map (\<lambda>(out, gaps). chunk_line out gaps) (fst ex_chunks)) = [1, 2, 0, 0, 3, 0, 5, 6]"
    unfolding cs by code_simp
  ultimately show ?thesis using received_chunks_are_time_line [OF run] cs by simp
qed

end
