(* ===== verification/Sched_Model.thy ===== *)
theory Sched_Model
  imports Iso_Time
begin

text \<open>
  \<open>schedules/model.py\<close>: a schedule (one window, or a repeating one), its checks
  when it comes in over the API, the instants of its runs and its JSON form. All
  times are integer epoch milliseconds. The source divides integers as floats
  before \<open>math.ceil\<close>; the quotient is exact enough for \<open>ceil_div\<close> up to spans
  of 2 to the power 53 milliseconds. \<open>ScheduleError\<close> messages are constructors
  carrying what the message shows.
\<close>

section \<open>The schedule and its errors\<close>

record schedule =
  sch_id :: string
  sch_start_ms :: int
  sch_duration_ms :: int
  sch_every_ms :: "int option"
  sch_count :: "int option"
  sch_until_ms :: "int option"
  sch_label :: string
  sch_source :: string
  sch_created_ms :: int

datatype schedule_error =
  NotAnInstant string
| NotWhole string
| BelowMinimum string int
| BadId
| StartRequired
| DurationRequired
| DurationTooLong
| NeedsEvery
| EveryTooShort
| EveryNotLonger
| CountOrUntil
| UntilNotAfterStart
| LabelNotText
| TooManyRuns
| StartInPast int int
| EveryRunInPast

definition MAX_DURATION_MS :: int where "MAX_DURATION_MS = 600000"
definition MIN_EVERY_MS :: int where "MIN_EVERY_MS = 1000"
definition MAX_RUNS :: int where "MAX_RUNS = 100000"
definition LABEL_MAX :: nat where "LABEL_MAX = 200"

lemmas schedule_limits = MAX_DURATION_MS_def MIN_EVERY_MS_def MAX_RUNS_def LABEL_MAX_def

text \<open>
  The id pattern \<open>^[A-Za-z0-9_-]{1,64}$\<close> under \<open>re.match\<close>: the dollar also
  matches before one newline at the end of the text.
\<close>

definition id_char :: "char \<Rightarrow> bool" where
  "id_char c = (let k = (of_char c :: nat) in
     (48 \<le> k \<and> k \<le> 57) \<or> (65 \<le> k \<and> k \<le> 90) \<or> (97 \<le> k \<and> k \<le> 122) \<or> k = 95 \<or> k = 45)"

definition id_core :: "string \<Rightarrow> bool" where
  "id_core s \<longleftrightarrow> 1 \<le> length s \<and> length s \<le> 64 \<and> list_all id_char s"

definition id_matches :: "string \<Rightarrow> bool" where
  "id_matches s \<longleftrightarrow> id_core s \<or> (s \<noteq> [] \<and> last s = char_of (10::nat) \<and> id_core (butlast s))"

section \<open>Reading an API body\<close>

definition iso_ms :: "int \<Rightarrow> string" where
  "iso_ms ms = show_seconds (ms div 1000) @ ''.'' @ show_nat 3 (nat (ms mod 1000)) @ ''Z''"

definition parse_instant :: "json \<Rightarrow> string \<Rightarrow> schedule_error + int" where
  "parse_instant v name = (case v of
     JStr s \<Rightarrow>
       (let t = strip s;
            t = (if t \<noteq> [] \<and> last t \<in> {CHR ''Z'', CHR ''z''} then butlast t @ ''+00:00'' else t)
        in case fromisoformat t of
             Some (Some us) \<Rightarrow> Inr (py_round (of_int us / 1000))
           | _ \<Rightarrow> Inl (NotAnInstant name))
   | _ \<Rightarrow> Inl (NotAnInstant name))"

definition read_int :: "json_obj \<Rightarrow> string \<Rightarrow> int \<Rightarrow> schedule_error + int option" where
  "read_int body name minimum = (case jget body name of
     JNull \<Rightarrow> Inr None
   | JInt n \<Rightarrow> if n < minimum then Inl (BelowMinimum name minimum) else Inr (Some n)
   | _ \<Rightarrow> Inl (NotWhole name))"

section \<open>The runs of a schedule\<close>

definition run_start_ms :: "schedule \<Rightarrow> int \<Rightarrow> int" where
  "run_start_ms s k = sch_start_ms s + k * (case sch_every_ms s of None \<Rightarrow> 0 | Some e \<Rightarrow> e)"

definition total_runs :: "schedule \<Rightarrow> int" where
  "total_runs s = (case sch_every_ms s of None \<Rightarrow> 1 | Some e \<Rightarrow>
     (case sch_count s of Some c \<Rightarrow> c
      | None \<Rightarrow> max 0 (ceil_div (the (sch_until_ms s) - sch_start_ms s) e)))"

definition first_run_from :: "schedule \<Rightarrow> int \<Rightarrow> int option" where
  "first_run_from s t_ms =
     (let pick = (\<lambda>k. if k < total_runs s then Some k else None) in
      if t_ms \<le> sch_start_ms s then pick 0
      else case sch_every_ms s of None \<Rightarrow> None
           | Some e \<Rightarrow> pick (ceil_div (t_ms - sch_start_ms s) e))"

definition runs_between :: "schedule \<Rightarrow> int \<Rightarrow> int \<Rightarrow> int \<Rightarrow> int list" where
  "runs_between s t0_ms t1_ms limit = (case first_run_from s t0_ms of None \<Rightarrow> []
     | Some first \<Rightarrow>
       (let last = (case first_run_from s t1_ms of None \<Rightarrow> total_runs s | Some e \<Rightarrow> e) - 1
        in if last < first then [] else [max first (last - limit + 1) .. last]))"

definition schedule_bytes :: "schedule \<Rightarrow> rat \<Rightarrow> int" where
  "schedule_bytes s rate_hz =
     total_runs s * py_round (of_int (sch_duration_ms s) / 1000 * rate_hz) * 4"

section \<open>Accepting a schedule\<close>

text \<open>\<open>new_id\<close> is the fresh id the caller's generator would return.\<close>

definition parse_id :: "json_obj \<Rightarrow> string \<Rightarrow> schedule_error + string" where
  "parse_id body new_id = (case (case jget body ''id'' of JNull \<Rightarrow> JStr new_id | v \<Rightarrow> v) of
     JStr s \<Rightarrow> if id_matches s then Inr s else Inl BadId
   | _ \<Rightarrow> Inl BadId)"

definition parse_start :: "json_obj \<Rightarrow> schedule_error + int" where
  "parse_start body =
     (if jget body ''start_ms'' \<noteq> JNull then
        bindE (read_int body ''start_ms'' 0) (\<lambda>v. Inr (the v))
      else if jget body ''start'' \<noteq> JNull then parse_instant (jget body ''start'') ''start''
      else Inl StartRequired)"

definition parse_until :: "json_obj \<Rightarrow> schedule_error + int option" where
  "parse_until body = (case jget body ''until'' of JNull \<Rightarrow> Inr None
     | v \<Rightarrow> bindE (parse_instant v ''until'') (\<lambda>u. Inr (Some u)))"

definition check_repeat ::
  "int \<Rightarrow> int \<Rightarrow> int option \<Rightarrow> int option \<Rightarrow> int option \<Rightarrow> schedule_error + unit" where
  "check_repeat start duration every count until = (case every of
     None \<Rightarrow> guardE (count = None \<and> until = None) NeedsEvery
   | Some e \<Rightarrow>
       bindE (guardE (\<not> e < MIN_EVERY_MS) EveryTooShort) (\<lambda>_.
       bindE (guardE (\<not> e \<le> duration) EveryNotLonger) (\<lambda>_.
       bindE (guardE ((count = None) \<noteq> (until = None)) CountOrUntil) (\<lambda>_.
       case until of None \<Rightarrow> Inr () | Some u \<Rightarrow> guardE (\<not> u \<le> start) UntilNotAfterStart))))"

definition parse_label :: "json_obj \<Rightarrow> schedule_error + string" where
  "parse_label body = (let v = jget body ''label''; v = (if jtruthy v then v else JStr []) in
     case v of JStr s \<Rightarrow> Inr (take LABEL_MAX (strip s)) | _ \<Rightarrow> Inl LabelNotText)"

definition parse_schedule ::
  "json_obj \<Rightarrow> int \<Rightarrow> int \<Rightarrow> string \<Rightarrow> string \<Rightarrow> bool \<Rightarrow> schedule_error + schedule" where
  "parse_schedule body now_ms grace_ms source new_id allow_past =
     bindE (parse_id body new_id) (\<lambda>sid.
     bindE (parse_start body) (\<lambda>start.
     bindE (read_int body ''duration_ms'' 1) (\<lambda>duration_opt. case duration_opt of
       None \<Rightarrow> Inl DurationRequired
     | Some duration \<Rightarrow>
     bindE (guardE (\<not> MAX_DURATION_MS < duration) DurationTooLong) (\<lambda>_.
     bindE (read_int body ''every_ms'' 1) (\<lambda>every.
     bindE (read_int body ''count'' 1) (\<lambda>count.
     bindE (parse_until body) (\<lambda>until.
     bindE (check_repeat start duration every count until) (\<lambda>_.
     bindE (parse_label body) (\<lambda>label.
     let s = \<lparr>sch_id = sid, sch_start_ms = start, sch_duration_ms = duration,
              sch_every_ms = every, sch_count = count, sch_until_ms = until,
              sch_label = label, sch_source = source, sch_created_ms = now_ms\<rparr> in
     bindE (guardE (\<not> MAX_RUNS < total_runs s) TooManyRuns) (\<lambda>_.
     if \<not> allow_past \<and> first_run_from s (now_ms - grace_ms) = None
     then Inl (if every = None then StartInPast (now_ms - start) grace_ms else EveryRunInPast)
     else Inr s))))))))))"

section \<open>The JSON form\<close>

definition jopt :: "int option \<Rightarrow> json" where
  "jopt v = (case v of None \<Rightarrow> JNull | Some n \<Rightarrow> JInt n)"

definition to_json :: "schedule \<Rightarrow> json_obj" where
  "to_json s =
     [(''id'', JStr (sch_id s)), (''start_ms'', JInt (sch_start_ms s)),
      (''duration_ms'', JInt (sch_duration_ms s)), (''every_ms'', jopt (sch_every_ms s)),
      (''count'', jopt (sch_count s)), (''until_ms'', jopt (sch_until_ms s)),
      (''label'', JStr (sch_label s)), (''source'', JStr (sch_source s)),
      (''created_ms'', JInt (sch_created_ms s)),
      (''start'', JStr (iso_ms (sch_start_ms s))),
      (''until'', case sch_until_ms s of None \<Rightarrow> JNull | Some u \<Rightarrow> JStr (iso_ms u)),
      (''runs'', JInt (total_runs s))]"

datatype json_error = KeyError string | TypeError string

definition field_int :: "json_obj \<Rightarrow> string \<Rightarrow> json_error + int" where
  "field_int d k = (case map_of d k of None \<Rightarrow> Inl (KeyError k) | Some (JInt n) \<Rightarrow> Inr n
     | Some (JBool b) \<Rightarrow> Inr (of_bool b) | Some (JFloat x) \<Rightarrow> Inr (py_int x)
     | Some _ \<Rightarrow> Inl (TypeError k))"

definition field_opt :: "json_obj \<Rightarrow> string \<Rightarrow> json_error + int option" where
  "field_opt d k = (case jget d k of JNull \<Rightarrow> Inr None | JInt n \<Rightarrow> Inr (Some n)
     | _ \<Rightarrow> Inl (TypeError k))"

definition field_text :: "json_obj \<Rightarrow> string \<Rightarrow> string \<Rightarrow> json_error + string" where
  "field_text d k dflt = (let v = jget d k in
     if jtruthy v then (case v of JStr s \<Rightarrow> Inr s | _ \<Rightarrow> Inl (TypeError k)) else Inr dflt)"

text \<open>
  Fields whose stored JSON type is not the one \<open>to_json\<close> writes are errors here;
  Python would carry the odd value along until its first use.
\<close>

definition from_json :: "json_obj \<Rightarrow> json_error + schedule" where
  "from_json d =
     bindE (case map_of d ''id'' of None \<Rightarrow> Inl (KeyError ''id'') | Some (JStr s) \<Rightarrow> Inr s
            | Some _ \<Rightarrow> Inl (TypeError ''id'')) (\<lambda>sid.
     bindE (field_int d ''start_ms'') (\<lambda>start.
     bindE (field_int d ''duration_ms'') (\<lambda>duration.
     bindE (field_opt d ''every_ms'') (\<lambda>every.
     bindE (field_opt d ''count'') (\<lambda>count.
     bindE (field_opt d ''until_ms'') (\<lambda>until.
     bindE (field_text d ''label'' []) (\<lambda>label.
     bindE (field_text d ''source'' ''api'') (\<lambda>source.
     bindE (if jtruthy (jget d ''created_ms'') then field_int d ''created_ms'' else Inr 0) (\<lambda>created.
     Inr \<lparr>sch_id = sid, sch_start_ms = start, sch_duration_ms = duration,
          sch_every_ms = every, sch_count = count, sch_until_ms = until,
          sch_label = label, sch_source = source, sch_created_ms = created\<rparr>)))))))))"

section \<open>Well-formed schedules\<close>

definition sched_wf :: "schedule \<Rightarrow> bool" where
  "sched_wf s \<longleftrightarrow> id_matches (sch_id s) \<and> length (sch_label s) \<le> LABEL_MAX \<and>
     1 \<le> sch_duration_ms s \<and> sch_duration_ms s \<le> MAX_DURATION_MS \<and>
     (case sch_every_ms s of
        None \<Rightarrow> sch_count s = None \<and> sch_until_ms s = None
      | Some e \<Rightarrow> MIN_EVERY_MS \<le> e \<and> sch_duration_ms s < e \<and>
          (case sch_count s of
             Some c \<Rightarrow> 1 \<le> c \<and> sch_until_ms s = None
           | None \<Rightarrow> (\<exists>u. sch_until_ms s = Some u \<and> sch_start_ms s < u))) \<and>
     total_runs s \<le> MAX_RUNS"

lemma sched_wf_every: "sched_wf s \<Longrightarrow> sch_every_ms s = Some e \<Longrightarrow> 0 < e"
  by (auto simp: sched_wf_def schedule_limits)

lemma sched_wf_cases [consumes 1, case_names one_shot repeating]:
  assumes "sched_wf s"
  obtains "sch_every_ms s = None" "total_runs s = 1"
  | e where "sch_every_ms s = Some e" "0 < e" "sch_duration_ms s < e" "1 \<le> total_runs s"
proof (cases "sch_every_ms s")
  case None
  then show ?thesis using that(1) by (simp add: total_runs_def)
next
  case (Some e)
  have e: "0 < e" by (rule sched_wf_every [OF assms Some])
  have "1 \<le> total_runs s"
  proof (cases "sch_count s")
    case None
    with assms Some obtain u where u: "sch_until_ms s = Some u" "sch_start_ms s < u"
      by (auto simp: sched_wf_def)
    then have "0 < ceil_div (u - sch_start_ms s) e" using e by (simp add: less_ceil_div_iff)
    then show ?thesis using Some None u by (simp add: total_runs_def)
  next
    case (Some c)
    with assms \<open>sch_every_ms s = Some e\<close> show ?thesis by (simp add: total_runs_def sched_wf_def)
  qed
  then show ?thesis using that(2) Some e assms by (auto simp: sched_wf_def)
qed

lemma read_int_Some: "read_int body name m = Inr (Some n) \<Longrightarrow> m \<le> n"
  by (auto simp: read_int_def split: json.splits if_splits)

lemma check_repeat_Inr:
  "check_repeat start d every count until = Inr u \<longleftrightarrow> (case every of
     None \<Rightarrow> count = None \<and> until = None
   | Some e \<Rightarrow> MIN_EVERY_MS \<le> e \<and> d < e \<and> ((count = None) \<noteq> (until = None)) \<and>
       (\<forall>v. until = Some v \<longrightarrow> start < v))"
  by (auto simp: check_repeat_def split: option.splits)

lemma parse_label_length: "parse_label body = Inr l \<Longrightarrow> length l \<le> LABEL_MAX"
  by (auto simp: parse_label_def Let_def split: json.splits)

lemma parse_id_matches: "parse_id body new_id = Inr i \<Longrightarrow> id_matches i"
  by (auto simp: parse_id_def split: json.splits if_splits)

lemma parse_schedule_InrE:
  assumes "parse_schedule body now_ms grace_ms source new_id allow_past = Inr s"
  obtains sid start duration every count until label where
    "parse_id body new_id = Inr sid" "parse_start body = Inr start"
    "read_int body ''duration_ms'' 1 = Inr (Some duration)" "duration \<le> MAX_DURATION_MS"
    "read_int body ''every_ms'' 1 = Inr every" "read_int body ''count'' 1 = Inr count"
    "parse_until body = Inr until" "check_repeat start duration every count until = Inr ()"
    "parse_label body = Inr label" "total_runs s \<le> MAX_RUNS"
    "allow_past \<or> first_run_from s (now_ms - grace_ms) \<noteq> None"
    "s = \<lparr>sch_id = sid, sch_start_ms = start, sch_duration_ms = duration,
       sch_every_ms = every, sch_count = count, sch_until_ms = until,
       sch_label = label, sch_source = source, sch_created_ms = now_ms\<rparr>"
  using assms unfolding parse_schedule_def Let_def
  by (elim raise_elims) (rule that; (assumption | erule sym | auto))

text \<open>
  C37: an accepted schedule is well formed (its id and label fit, its duration
  and period are within the limits, it repeats by count or until but not both
  and it has at most MAX_RUNS runs), carries the caller's source and receipt
  time, and, unless past schedules are allowed, still has a run to record.
\<close>

theorem parse_schedule_accepts:
  assumes "parse_schedule body now_ms grace_ms source new_id allow_past = Inr s"
  shows "sched_wf s \<and> 1 \<le> total_runs s \<and> sch_source s = source \<and> sch_created_ms s = now_ms \<and>
    (allow_past \<or> first_run_from s (now_ms - grace_ms) \<noteq> None)"
  using assms
proof (rule parse_schedule_InrE)
  fix sid start duration every count until label
  assume *: "parse_id body new_id = Inr sid" "read_int body ''duration_ms'' 1 = Inr (Some duration)"
    "duration \<le> MAX_DURATION_MS" "read_int body ''count'' 1 = Inr count"
    "check_repeat start duration every count until = Inr ()" "parse_label body = Inr label"
    "total_runs s \<le> MAX_RUNS" "allow_past \<or> first_run_from s (now_ms - grace_ms) \<noteq> None"
    and s: "s = \<lparr>sch_id = sid, sch_start_ms = start, sch_duration_ms = duration,
       sch_every_ms = every, sch_count = count, sch_until_ms = until,
       sch_label = label, sch_source = source, sch_created_ms = now_ms\<rparr>"
  have "sched_wf s"
    using *(3,7) parse_id_matches [OF *(1)] parse_label_length [OF *(6)] read_int_Some [OF *(2)]
      *(5) read_int_Some [of body "''count''" 1] *(4)
    unfolding sched_wf_def check_repeat_Inr s
    by (cases every; cases count; cases until) auto
  moreover from this have "1 \<le> total_runs s" by (cases rule: sched_wf_cases) auto
  ultimately show ?thesis using *(8) by (simp add: s)
qed

section \<open>The instants of the runs\<close>

lemma first_run_from_repeating:
  assumes "sch_every_ms s = Some e" "0 < e"
  shows "first_run_from s t = (let k = max 0 (ceil_div (t - sch_start_ms s) e) in
    if k < total_runs s then Some k else None)"
  using ceil_div_le_iff [OF assms(2), of "t - sch_start_ms s" 0] assms(1)
  by (auto simp: first_run_from_def Let_def max_def)

lemma run_start_ge_iff:
  assumes "sch_every_ms s = Some e" "0 < e"
  shows "t \<le> run_start_ms s k \<longleftrightarrow> ceil_div (t - sch_start_ms s) e \<le> k"
  using ceil_div_le_iff [OF assms(2), of "t - sch_start_ms s" k] assms(1)
  by (auto simp: run_start_ms_def)

lemma run_start_one_shot: "sch_every_ms s = None \<Longrightarrow> run_start_ms s k = sch_start_ms s"
  by (simp add: run_start_ms_def)

text \<open>
  The first run from an instant is the earliest run of the schedule that
  starts at or after it, and there is none exactly when every run starts
  before it.
\<close>

theorem first_run_from_least:
  assumes "sched_wf s"
  shows "(first_run_from s t = Some k \<longleftrightarrow>
      0 \<le> k \<and> k < total_runs s \<and> t \<le> run_start_ms s k \<and>
      (\<forall>j. 0 \<le> j \<and> j < k \<longrightarrow> run_start_ms s j < t)) \<and>
    (first_run_from s t = None \<longleftrightarrow> (\<forall>j. 0 \<le> j \<and> j < total_runs s \<longrightarrow> run_start_ms s j < t))"
  using assms
proof (cases rule: sched_wf_cases)
  case one_shot
  then show ?thesis
    by (auto simp: first_run_from_def Let_def run_start_one_shot)
next
  case (repeating e)
  let ?c = "ceil_div (t - sch_start_ms s) e"
  have lt: "run_start_ms s j < t \<longleftrightarrow> j < ?c" and ge: "t \<le> run_start_ms s j \<longleftrightarrow> ?c \<le> j" for j
    using run_start_ge_iff [OF repeating(1,2), of t j] by auto
  have fr: "first_run_from s t = (if max 0 ?c < total_runs s then Some (max 0 ?c) else None)"
    using first_run_from_repeating [OF repeating(1,2)] by (simp add: Let_def)
  have below: "(\<forall>j. 0 \<le> j \<and> j < n \<longrightarrow> j < ?c) \<longleftrightarrow> n \<le> max 0 ?c" for n
  proof
    assume "\<forall>j. 0 \<le> j \<and> j < n \<longrightarrow> j < ?c"
    then have "0 \<le> n - 1 \<longrightarrow> n - 1 < ?c" by auto
    then show "n \<le> max 0 ?c" by auto
  qed auto
  show ?thesis unfolding lt ge fr below by auto
qed

text \<open>
  The runs reported for an interval are the schedule's runs that start in
  it, in order, cut to the newest \<open>limit\<close> of them.
\<close>

theorem runs_between_newest:
  assumes "sched_wf s"
  shows "runs_between s t0 t1 limit =
    (let all = filter (\<lambda>k. t0 \<le> run_start_ms s k \<and> run_start_ms s k < t1) [0..total_runs s - 1]
     in drop (length all - nat limit) all)"
  using assms
proof (cases rule: sched_wf_cases)
  case one_shot
  then show ?thesis
    by (auto simp: runs_between_def first_run_from_def Let_def run_start_one_shot upto.simps)
next
  case (repeating e)
  let ?a = "ceil_div (t0 - sch_start_ms s) e" and ?b = "ceil_div (t1 - sch_start_ms s) e"
  let ?n = "total_runs s"
  have "(\<lambda>k. t0 \<le> run_start_ms s k \<and> run_start_ms s k < t1) = (\<lambda>k. ?a \<le> k \<and> k < ?b)"
    using run_start_ge_iff [OF repeating(1,2)] by (auto simp: not_le [symmetric])
  then have all: "filter (\<lambda>k. t0 \<le> run_start_ms s k \<and> run_start_ms s k < t1) [0..?n - 1]
      = [max 0 ?a..min (?b - 1) (?n - 1)]"
    by (simp add: filter_upto)
  have fr: "first_run_from s t0 = (if max 0 ?a < ?n then Some (max 0 ?a) else None)"
      "first_run_from s t1 = (if max 0 ?b < ?n then Some (max 0 ?b) else None)"
    using first_run_from_repeating [OF repeating(1,2)] by (simp_all add: Let_def)
  show ?thesis
  proof (cases "max 0 ?a \<le> min (?b - 1) (?n - 1)")
    case True
    then have "runs_between s t0 t1 limit =
        [max (max 0 ?a) (min (?b - 1) (?n - 1) - limit + 1)..min (?b - 1) (?n - 1)]"
      using fr by (auto simp: runs_between_def Let_def)
    also have "\<dots> = drop (length [max 0 ?a..min (?b - 1) (?n - 1)] - nat limit)
        [max 0 ?a..min (?b - 1) (?n - 1)]"
      by (rule newest_upto [OF True, symmetric])
    finally show ?thesis unfolding all Let_def .
  next
    case False
    then show ?thesis unfolding all Let_def using fr by (auto simp: runs_between_def Let_def)
  qed
qed

text \<open>
  Two runs of one schedule never overlap: a run ends before the next one
  starts.
\<close>

theorem runs_do_not_overlap:
  assumes "sched_wf s" "0 \<le> j" "j < k" "k < total_runs s"
  shows "run_start_ms s j + sch_duration_ms s < run_start_ms s k"
  using assms(1)
proof (cases rule: sched_wf_cases)
  case one_shot
  then show ?thesis using assms by simp
next
  case (repeating e)
  have "(j + 1) * e \<le> k * e" using assms repeating(2) by (intro mult_right_mono) auto
  with repeating show ?thesis by (simp add: run_start_ms_def algebra_simps)
qed

section \<open>Round trips\<close>

text \<open>The instants \<open>iso_ms\<close> prints with a four-digit year.\<close>

definition printable_ms :: "int \<Rightarrow> bool" where
  "printable_ms ms \<longleftrightarrow> 0 \<le> ms \<and> ms < 253402300800000"

lemma iso_ms_show_ms: "iso_ms ms = show_ms ms @ ''Z''"
  by (simp add: iso_ms_def show_ms_def)

lemma parse_instant_iso_ms_eq: "printable_ms ms \<Longrightarrow> parse_instant (JStr (iso_ms ms)) name = Inr ms"
  using fromisoformat_show_ms [of ms]
  by (simp add: parse_instant_def iso_ms_show_ms strip_show_ms Let_def printable_ms_def)

text \<open>Parsing a printed instant gives it back, for every instant up to the year 9999.\<close>

theorem parse_instant_iso_ms:
  assumes "printable_ms ms"
  shows "parse_instant (JStr (iso_ms ms)) name = Inr ms"
  using assms by (rule parse_instant_iso_ms_eq)

theorem parse_instant_iso_ms_witness:
  "parse_instant (JStr (iso_ms 1793212200250)) ''start'' = Inr 1793212200250"
  by (rule parse_instant_iso_ms) (simp add: printable_ms_def)

lemma jget_to_json:
  "jget (to_json s) ''id'' = JStr (sch_id s)"
  "jget (to_json s) ''start_ms'' = JInt (sch_start_ms s)"
  "jget (to_json s) ''duration_ms'' = JInt (sch_duration_ms s)"
  "jget (to_json s) ''every_ms'' = jopt (sch_every_ms s)"
  "jget (to_json s) ''count'' = jopt (sch_count s)"
  "jget (to_json s) ''until_ms'' = jopt (sch_until_ms s)"
  "jget (to_json s) ''label'' = JStr (sch_label s)"
  "jget (to_json s) ''source'' = JStr (sch_source s)"
  "jget (to_json s) ''created_ms'' = JInt (sch_created_ms s)"
  "jget (to_json s) ''until'' =
     (case sch_until_ms s of None \<Rightarrow> JNull | Some u \<Rightarrow> JStr (iso_ms u))"
  by (simp_all add: to_json_def)

lemma map_of_to_json:
  "map_of (to_json s) ''id'' = Some (JStr (sch_id s))"
  "map_of (to_json s) ''start_ms'' = Some (JInt (sch_start_ms s))"
  "map_of (to_json s) ''duration_ms'' = Some (JInt (sch_duration_ms s))"
  "map_of (to_json s) ''created_ms'' = Some (JInt (sch_created_ms s))"
  by (simp_all add: to_json_def)

lemma from_json_of_to_json:
  assumes "sch_source s \<noteq> []"
  shows "from_json (to_json s) = Inr s"
proof -
  have opt: "field_opt (to_json s) ''every_ms'' = Inr (sch_every_ms s)"
      "field_opt (to_json s) ''count'' = Inr (sch_count s)"
      "field_opt (to_json s) ''until_ms'' = Inr (sch_until_ms s)"
    by (auto simp: field_opt_def jget_to_json jopt_def split: option.splits)
  have strs: "field_text (to_json s) ''label'' [] = Inr (sch_label s)"
      "field_text (to_json s) ''source'' ''api'' = Inr (sch_source s)"
    using assms by (auto simp: field_text_def jget_to_json Let_def)
  have int: "field_int (to_json s) ''start_ms'' = Inr (sch_start_ms s)"
      "field_int (to_json s) ''duration_ms'' = Inr (sch_duration_ms s)"
      "field_int (to_json s) ''created_ms'' = Inr (sch_created_ms s)"
    by (simp_all add: field_int_def map_of_to_json)
  show ?thesis
    unfolding from_json_def opt strs int map_of_to_json jget_to_json by simp
qed

text \<open>A schedule stored as JSON is read back unchanged (its source is never empty).\<close>

theorem from_json_to_json:
  assumes "sch_source s \<noteq> []"
  shows "from_json (to_json s) = Inr s"
  using assms by (rule from_json_of_to_json)

lemma read_int_jopt:
  "jget b k = jopt v \<Longrightarrow> (\<forall>n. v = Some n \<longrightarrow> m \<le> n) \<Longrightarrow> read_int b k m = Inr v"
  by (auto simp: read_int_def jopt_def split: option.splits)

text \<open>
  Sending a stored schedule's own JSON again is accepted, and yields that
  schedule with the new sender's source and receipt time.
\<close>

theorem resend_to_json:
  assumes "sched_wf s" "0 \<le> sch_start_ms s" "strip (sch_label s) = sch_label s"
    and "case sch_until_ms s of None \<Rightarrow> True | Some u \<Rightarrow> printable_ms u"
  shows "parse_schedule (to_json s) now_ms grace_ms source new_id True =
    Inr (s\<lparr>sch_source := source, sch_created_ms := now_ms\<rparr>)"
proof -
  note wf = assms(1) [unfolded sched_wf_def]
  define s' where "s' = \<lparr>sch_id = sch_id s, sch_start_ms = sch_start_ms s,
      sch_duration_ms = sch_duration_ms s, sch_every_ms = sch_every_ms s,
      sch_count = sch_count s, sch_until_ms = sch_until_ms s, sch_label = sch_label s,
      sch_source = source, sch_created_ms = now_ms\<rparr>"
  have s': "s' = s\<lparr>sch_source := source, sch_created_ms := now_ms\<rparr>"
    by (simp add: s'_def)
  have "parse_id (to_json s) new_id = Inr (sch_id s)"
    using wf by (simp add: parse_id_def jget_to_json)
  moreover have "parse_start (to_json s) = Inr (sch_start_ms s)"
    using assms(2) by (simp add: parse_start_def jget_to_json read_int_def)
  moreover have "read_int (to_json s) ''duration_ms'' 1 = Inr (Some (sch_duration_ms s))"
    using wf by (simp add: jget_to_json read_int_def)
  moreover have "read_int (to_json s) ''every_ms'' 1 = Inr (sch_every_ms s)"
    using sched_wf_every [OF assms(1)] by (intro read_int_jopt jget_to_json) force
  moreover have "read_int (to_json s) ''count'' 1 = Inr (sch_count s)"
    using wf by (intro read_int_jopt jget_to_json) (auto split: option.splits)
  moreover have "parse_until (to_json s) = Inr (sch_until_ms s)"
    using assms(4) by (auto simp: parse_until_def jget_to_json parse_instant_iso_ms_eq
        split: option.splits)
  moreover have "check_repeat (sch_start_ms s) (sch_duration_ms s) (sch_every_ms s)
      (sch_count s) (sch_until_ms s) = Inr ()"
    using wf unfolding check_repeat_Inr by (auto split: option.splits)
  moreover have "parse_label (to_json s) = Inr (sch_label s)"
    using wf assms(3) by (auto simp: parse_label_def jget_to_json Let_def)
  moreover have "total_runs s' = total_runs s"
    by (simp add: total_runs_def s'_def split: option.split)
  ultimately show ?thesis
    using wf s' unfolding parse_schedule_def s'_def [symmetric] Let_def
    by (simp add: s'_def [symmetric] not_less)
qed

section \<open>Concrete schedules\<close>

text \<open>A one-second capture every minute, ten times, and the body that asks for it.\<close>

definition example_sched :: schedule where
  "example_sched = \<lparr>sch_id = ''night-1'', sch_start_ms = 1793212200000, sch_duration_ms = 1000,
     sch_every_ms = Some 60000, sch_count = Some 10, sch_until_ms = None,
     sch_label = ''night'', sch_source = ''api'', sch_created_ms = 1793212000000\<rparr>"

definition example_body :: json_obj where
  "example_body = [(''id'', JStr ''night-1''), (''start_ms'', JInt 1793212200000),
     (''duration_ms'', JInt 1000), (''every_ms'', JInt 60000), (''count'', JInt 10),
     (''label'', JStr '' night '')]"

lemma example_sched_wf: "sched_wf example_sched"
  by (simp add: sched_wf_def example_sched_def schedule_limits total_runs_def id_matches_def
      id_core_def id_char_def)

lemma example_parsed:
  "parse_schedule example_body 1793212000000 1000 ''api'' [] False = Inr example_sched"
  by code_simp

theorem parse_schedule_accepts_witness: "sched_wf example_sched \<and> 1 \<le> total_runs example_sched"
  using parse_schedule_accepts [OF example_parsed] by blast

theorem first_run_from_least_witness:
  "first_run_from example_sched 1793212200001 = Some 1 \<and> 1 < total_runs example_sched"
proof -
  have "first_run_from example_sched 1793212200001 = Some 1" by code_simp
  then show ?thesis using first_run_from_least [OF example_sched_wf] by blast
qed

theorem runs_between_newest_witness:
  "runs_between example_sched 1793212200000 1793212500000 2 = [3, 4]"
  unfolding runs_between_newest [OF example_sched_wf] by code_simp

theorem runs_do_not_overlap_witness:
  "run_start_ms example_sched 2 + sch_duration_ms example_sched < run_start_ms example_sched 3"
  by (rule runs_do_not_overlap [OF example_sched_wf]) (simp_all add: example_sched_def total_runs_def)

theorem from_json_to_json_witness: "from_json (to_json example_sched) = Inr example_sched"
  by (rule from_json_to_json) (simp add: example_sched_def)

theorem resend_to_json_witness:
  "parse_schedule (to_json example_sched) 5 0 ''fleet'' [] True =
    Inr (example_sched\<lparr>sch_source := ''fleet'', sch_created_ms := 5\<rparr>)"
  by (rule resend_to_json [OF example_sched_wf]) (simp_all add: example_sched_def strip_def is_space_def)

end
