(* ===== verification/Sched_Book.thy ===== *)
theory Sched_Book
  imports Dicts Sched_Model "HOL-Library.Product_Lexorder" "HOL-Library.List_Lexorder" "HOL-Library.Char_ord" "HOL-Library.Multiset"
begin

text \<open>
  \<open>schedules/book.py\<close> with the schedule tables of \<open>storage/database.py\<close>: the schedules
  and the outcomes of their runs, in memory (\<open>book\<close>) and stored (\<open>sched_db\<close>). A table
  is the list of its rows. The API's handlers run one at a time on the event loop;
  \<open>report_run\<close> changes the memory at once and leaves the write to the loop
  (\<open>pending\<close>), where it may fail. A JSON document read back is the one that was
  stored.
\<close>

section \<open>The tables\<close>

record srow =
  sr_id :: string
  sr_body :: json_obj
  sr_created_ms :: int
  sr_deleted_ms :: "int option"

record run_entry =
  en_status :: string
  en_reason :: "string option"
  en_start_ms :: int
  en_filename :: "string option"
  en_info :: "json_obj option"

record rrow =
  rr_schedule :: string
  rr_run :: int
  rr_entry :: run_entry

record sched_db =
  db_schedules :: "srow list"
  db_runs :: "rrow list"

definition db_empty :: sched_db where
  "db_empty = \<lparr>db_schedules = [], db_runs = []\<rparr>"

definition insert_schedule :: "schedule \<Rightarrow> sched_db \<Rightarrow> sched_db option" where
  "insert_schedule s db = (if sch_id s \<in> sr_id ` set (db_schedules db) then None
     else Some (db\<lparr>db_schedules := db_schedules db @
       [\<lparr>sr_id = sch_id s, sr_body = to_json s, sr_created_ms = sch_created_ms s, sr_deleted_ms = None\<rparr>]\<rparr>))"

fun read_rows :: "srow list \<Rightarrow> json_error + schedule list" where
  "read_rows [] = Inr []"
| "read_rows (r # rs) = bindE (from_json (sr_body r)) (\<lambda>s. bindE (read_rows rs) (\<lambda>ss. Inr (s # ss)))"

definition list_schedules :: "bool \<Rightarrow> sched_db \<Rightarrow> json_error + schedule list" where
  "list_schedules include_deleted db = read_rows (sort_key (\<lambda>r. (sr_created_ms r, sr_id r))
     (filter (\<lambda>r. include_deleted \<or> sr_deleted_ms r = None) (db_schedules db)))"

definition get_schedule :: "string \<Rightarrow> sched_db \<Rightarrow> json_error + schedule option" where
  "get_schedule i db = (case find (\<lambda>r. sr_id r = i) (db_schedules db) of None \<Rightarrow> Inr None
     | Some r \<Rightarrow> bindE (from_json (sr_body r)) (\<lambda>s. Inr (Some s)))"

definition is_live :: "string \<Rightarrow> srow \<Rightarrow> bool" where
  "is_live i r \<longleftrightarrow> sr_id r = i \<and> sr_deleted_ms r = None"

definition delete_schedule :: "string \<Rightarrow> int \<Rightarrow> sched_db \<Rightarrow> bool \<times> sched_db" where
  "delete_schedule i deleted_ms db = (list_ex (is_live i) (db_schedules db),
     db\<lparr>db_schedules := map (\<lambda>r. if is_live i r then r\<lparr>sr_deleted_ms := Some deleted_ms\<rparr> else r)
       (db_schedules db)\<rparr>)"

definition is_run :: "string \<Rightarrow> int \<Rightarrow> rrow \<Rightarrow> bool" where
  "is_run i run r \<longleftrightarrow> rr_schedule r = i \<and> rr_run r = run"

definition upsert_run :: "string \<Rightarrow> int \<Rightarrow> run_entry \<Rightarrow> sched_db \<Rightarrow> sched_db" where
  "upsert_run i run e db = db\<lparr>db_runs :=
     (if list_ex (is_run i run) (db_runs db)
      then map (\<lambda>r. if is_run i run r then r\<lparr>rr_entry := e\<rparr> else r) (db_runs db)
      else db_runs db @ [\<lparr>rr_schedule = i, rr_run = run, rr_entry = e\<rparr>])\<rparr>"

definition unfinished :: "rrow \<Rightarrow> bool" where
  "unfinished r \<longleftrightarrow> en_status (rr_entry r) = ''recording''"

definition end_unfinished_runs :: "sched_db \<Rightarrow> nat \<times> sched_db" where
  "end_unfinished_runs db = (length (filter unfinished (db_runs db)),
     db\<lparr>db_runs := map (\<lambda>r. if unfinished r then r\<lparr>rr_entry := (rr_entry r)\<lparr>
         en_status := ''partial'', en_reason := Some ''stopped''\<rparr>\<rparr> else r) (db_runs db)\<rparr>)"

definition rows_of_schedule :: "string \<Rightarrow> sched_db \<Rightarrow> rrow list" where
  "rows_of_schedule i db = filter (\<lambda>r. rr_schedule r = i) (db_runs db)"

definition newest_first :: "rrow list \<Rightarrow> rrow list" where
  "newest_first = sort_key (\<lambda>r. - rr_run r)"

definition list_runs :: "string \<Rightarrow> nat \<Rightarrow> sched_db \<Rightarrow> (int \<times> run_entry) list" where
  "list_runs i limit db =
     map (\<lambda>r. (rr_run r, rr_entry r)) (take limit (newest_first (rows_of_schedule i db)))"

definition db_last_run :: "string \<Rightarrow> sched_db \<Rightarrow> int option" where
  "db_last_run i db = (case map rr_run (rows_of_schedule i db) of [] \<Rightarrow> None
     | k # ks \<Rightarrow> Some (foldr max ks k))"

definition prune_runs :: "string \<Rightarrow> nat \<Rightarrow> sched_db \<Rightarrow> sched_db" where
  "prune_runs i keep db =
     (let kept = map rr_run (take keep (newest_first (rows_of_schedule i db)))
      in db\<lparr>db_runs := filter (\<lambda>r. rr_schedule r \<noteq> i \<or> rr_run r \<in> set kept) (db_runs db)\<rparr>)"

section \<open>The book\<close>

definition RUNS_KEPT :: nat where "RUNS_KEPT = 500"
definition PRUNE_EVERY :: int where "PRUNE_EVERY = 50"

type_synonym runs_map = "(int \<times> run_entry) list"

datatype book_write = WUpsert string int run_entry | WPrune string

record book =
  bk_active :: "(string \<times> schedule) list"
  bk_version :: nat
  bk_last :: "string \<Rightarrow> int option"
  bk_latest :: "string \<Rightarrow> runs_map"
  bk_loop :: bool
  bk_pending :: "book_write list"

definition book_new :: book where
  "book_new = \<lparr>bk_active = [], bk_version = 0, bk_last = (\<lambda>_. None), bk_latest = (\<lambda>_. []),
     bk_loop = False, bk_pending = []\<rparr>"

definition bind_loop :: "book \<Rightarrow> book" where
  "bind_loop b = b\<lparr>bk_loop := True\<rparr>"

definition same_schedule :: "schedule \<Rightarrow> schedule \<Rightarrow> bool" where
  "same_schedule a b \<longleftrightarrow>
     (let visible = filter (\<lambda>(k, _). k \<noteq> ''created_ms'' \<and> k \<noteq> ''source'') in
      visible (to_json a) = visible (to_json b))"

definition load :: "sched_db \<Rightarrow> book \<Rightarrow> json_error + (sched_db \<times> book)" where
  "load db b =
     (let db = snd (end_unfinished_runs db)
      in bindE (list_schedules False db) (\<lambda>schedules.
           Inr (db, b\<lparr>bk_active := dict_of (map (\<lambda>s. (sch_id s, s)) schedules),
             bk_last := (\<lambda>i. if i \<in> sch_id ` set schedules then db_last_run i db else None),
             bk_version := bk_version b + 1\<rparr>)))"

datatype add_error = ScheduleConflict string | StoreError json_error | IntegrityError

definition add_schedule ::
  "schedule \<Rightarrow> sched_db \<Rightarrow> book \<Rightarrow> add_error + ((schedule \<times> bool) \<times> sched_db \<times> book)" where
  "add_schedule s db b = (case get_schedule (sch_id s) db of
       Inl e \<Rightarrow> Inl (StoreError e)
     | Inr (Some existing) \<Rightarrow>
         if sch_id s \<in> fst ` set (bk_active b) \<and> same_schedule existing s
         then Inr ((existing, False), db, b) else Inl (ScheduleConflict (sch_id s))
     | Inr None \<Rightarrow> (case insert_schedule s db of None \<Rightarrow> Inl IntegrityError
         | Some db \<Rightarrow> Inr ((s, True), db,
             b\<lparr>bk_active := dict_set (sch_id s) s (bk_active b), bk_version := bk_version b + 1\<rparr>)))"

definition remove_schedule :: "string \<Rightarrow> int \<Rightarrow> sched_db \<Rightarrow> book \<Rightarrow> bool \<times> sched_db \<times> book" where
  "remove_schedule i now_ms db b =
     (let (ok, db) = delete_schedule i now_ms db
      in (ok, db, if i \<in> fst ` set (bk_active b)
            then b\<lparr>bk_active := dict_del i (bk_active b), bk_version := bk_version b + 1\<rparr> else b))"

definition book_get :: "string \<Rightarrow> book \<Rightarrow> schedule option" where
  "book_get i b = map_of (bk_active b) i"

definition book_runs :: "string \<Rightarrow> nat \<Rightarrow> sched_db \<Rightarrow> book \<Rightarrow> (int \<times> run_entry) list" where
  "book_runs i limit db b =
     (let rows = fold (\<lambda>(run, e). dict_set run e) (bk_latest b i) (dict_of (list_runs i limit db))
      in map (\<lambda>k. (k, the (map_of rows k))) (take limit (rev (sort (map fst rows)))))"

definition snapshot :: "book \<Rightarrow> nat \<times> schedule list" where
  "snapshot b = (bk_version b, map snd (bk_active b))"

definition last_run :: "string \<Rightarrow> book \<Rightarrow> int option" where
  "last_run i b = bk_last b i"

definition latest :: "string \<Rightarrow> int \<Rightarrow> book \<Rightarrow> run_entry option" where
  "latest i run b = map_of (bk_latest b i) run"

definition keep_newest :: "runs_map \<Rightarrow> runs_map" where
  "keep_newest runs = (if RUNS_KEPT < length runs
     then fold dict_del (take (length runs - RUNS_KEPT) (sort (map fst runs))) runs else runs)"

definition report_run :: "string \<Rightarrow> int \<Rightarrow> run_entry \<Rightarrow> book \<Rightarrow> book" where
  "report_run i run e b =
     b\<lparr>bk_latest := (bk_latest b)(i := keep_newest (dict_set run e (bk_latest b i))),
       bk_last := (if (case bk_last b i of None \<Rightarrow> -1 | Some k \<Rightarrow> k) < run
                   then (bk_last b)(i := Some run) else bk_last b),
       bk_pending := bk_pending b @ (if bk_loop b then [WUpsert i run e] else [])\<rparr>"

text \<open>
  The loop takes the next pending write: it is stored, or fails and is only logged.
  The prune that follows a stored run whose number is a multiple of 50 comes after
  some of the writes that were already waiting.
\<close>

definition persist :: "bool \<Rightarrow> nat \<Rightarrow> sched_db \<Rightarrow> book \<Rightarrow> sched_db \<times> book" where
  "persist ok n db b = (case bk_pending b of [] \<Rightarrow> (db, b)
     | WUpsert i run e # ws \<Rightarrow>
         if ok then (upsert_run i run e db, b\<lparr>bk_pending :=
             (if run mod PRUNE_EVERY = 0 then take n ws @ [WPrune i] @ drop n ws else ws)\<rparr>)
         else (db, b\<lparr>bk_pending := ws\<rparr>)
     | WPrune i # ws \<Rightarrow> (if ok then prune_runs i RUNS_KEPT db else db, b\<lparr>bk_pending := ws\<rparr>))"

section \<open>The newest runs in memory\<close>

lemma dom_keys: "dom (map_of d) = fst ` set d" by (simp add: dom_map_of_conv_image_fst)

lemma card_keys: "distinct (map fst d) \<Longrightarrow> card (fst ` set d) = length d"
  by (metis distinct_card length_map list.set_map)

lemma keep_newest:
  assumes d: "distinct (map fst runs)"
  shows "distinct (map fst (keep_newest runs)) \<and> length (keep_newest runs) \<le> RUNS_KEPT \<and>
    (\<forall>k. map_of (keep_newest runs) k = map_of runs k \<or>
       (map_of (keep_newest runs) k = None \<and>
        RUNS_KEPT \<le> card {k' \<in> dom (map_of (keep_newest runs)). k < k'})) \<and>
    (\<forall>k. RUNS_KEPT \<le> card {k' \<in> dom (map_of runs). k < k'} \<longrightarrow>
        RUNS_KEPT \<le> card {k' \<in> dom (map_of (keep_newest runs)). k < k'})"
proof (cases "RUNS_KEPT < length runs")
  case False
  then show ?thesis using d by (simp add: keep_newest_def)
next
  case True
  define ks where "ks = sort (map fst runs)"
  define n where "n = length runs - RUNS_KEPT"
  have ks: "distinct ks" "set ks = dom (map_of runs)" "length ks = length runs" "sorted ks"
    using d by (simp_all add: ks_def dom_keys)
  have kn: "map_of (keep_newest runs) = (\<lambda>k. if k \<in> set (take n ks) then None else map_of runs k)"
    using True by (simp add: keep_newest_def map_of_dict_dels ks_def n_def)
  have dist: "distinct (map fst (keep_newest runs))"
    using d True by (simp add: keep_newest_def distinct_dict_dels)
  have split: "set ks = set (take n ks) \<union> set (drop n ks)" "set (take n ks) \<inter> set (drop n ks) = {}"
    using ks(1) set_append [of "take n ks" "drop n ks"] distinct_append [of "take n ks" "drop n ks"] by auto
  have dom: "dom (map_of (keep_newest runs)) = set (drop n ks)"
  proof -
    have "dom (map_of (keep_newest runs)) = dom (map_of runs) - set (take n ks)"
      unfolding kn by (auto simp: dom_def split: if_splits)
    then show ?thesis using split ks(2) by blast
  qed
  have len: "card (set (drop n ks)) = RUNS_KEPT"
    using ks(1,3) True by (simp add: distinct_card n_def)
  have above: "set (drop n ks) \<subseteq> {k' \<in> set (drop n ks). k < k'}" if "k \<in> set (take n ks)" for k
  proof
    fix y assume y: "y \<in> set (drop n ks)"
    have "sorted (take n ks @ drop n ks)" using ks(4) by simp
    then have "k \<le> y" using that y by (meson sorted_append)
    moreover have "k \<noteq> y" using split(2) that y by blast
    ultimately show "y \<in> {k' \<in> set (drop n ks). k < k'}" using y by simp
  qed
  have top: "RUNS_KEPT \<le> card {k' \<in> set (drop n ks). k < k'}" if "set (drop n ks) \<subseteq> {k' \<in> set (drop n ks). k < k'}" for k
    using card_mono [OF _ that] len by simp
  have "length (keep_newest runs) \<le> RUNS_KEPT"
    using card_keys [OF dist] len dom by (simp add: dom_keys)
  moreover have "map_of (keep_newest runs) k = map_of runs k \<or>
       (map_of (keep_newest runs) k = None \<and>
        RUNS_KEPT \<le> card {k' \<in> dom (map_of (keep_newest runs)). k < k'})" for k
    using top [OF above, of k] unfolding dom by (cases "k \<in> set (take n ks)") (simp_all add: kn)
  moreover have "RUNS_KEPT \<le> card {k' \<in> dom (map_of (keep_newest runs)). k < k'}"
    if "RUNS_KEPT \<le> card {k' \<in> dom (map_of runs). k < k'}" for k
  proof (cases "\<exists>y \<in> set (drop n ks). y \<le> k")
    case False
    then show ?thesis unfolding dom by (intro top) force
  next
    case True
    then obtain y where y: "y \<in> set (drop n ks)" "y \<le> k" by blast
    have "sorted (take n ks @ drop n ks)" using ks(4) by simp
    then have "x \<le> y" if "x \<in> set (take n ks)" for x using that y by (meson sorted_append)
    then have "{k' \<in> set ks. k < k'} = {k' \<in> set (drop n ks). k < k'}" using split(1) y by fastforce
    then show ?thesis using that ks(2) dom by simp
  qed
  ultimately show ?thesis using dist by blast
qed

section \<open>Events\<close>

text \<open>
  What happens to the book in one process: API requests, outcomes reported by the
  receiver and writer threads, and the loop's writes, each stored or failed.
\<close>

datatype book_event =
  EvAdd schedule
| EvDelete string int
| EvReport string int run_entry
| EvPersist bool nat

fun book_step :: "book_event \<Rightarrow> sched_db \<times> book \<Rightarrow> sched_db \<times> book" where
  "book_step (EvAdd s) (db, b) = (case add_schedule s db b of Inl _ \<Rightarrow> (db, b) | Inr (_, r) \<Rightarrow> r)"
| "book_step (EvDelete i now_ms) (db, b) = snd (remove_schedule i now_ms db b)"
| "book_step (EvReport i run e) (db, b) = (db, report_run i run e b)"
| "book_step (EvPersist ok n) (db, b) = persist ok n db b"

definition book_run :: "book_event list \<Rightarrow> sched_db \<times> book \<Rightarrow> sched_db \<times> book" where
  "book_run evs st = fold book_step evs st"

lemma book_run_Nil [simp]: "book_run [] st = st"
  and book_run_snoc: "book_run (evs @ [ev]) st = book_step ev (book_run evs st)"
  by (simp_all add: book_run_def)

lemma add_latest [simp]:
  "add_schedule s db b = Inr (x, db', b') \<Longrightarrow> bk_latest b' = bk_latest b \<and> bk_last b' = bk_last b \<and>
     bk_pending b' = bk_pending b \<and> bk_loop b' = bk_loop b \<and> db_runs db' = db_runs db"
  by (auto simp: add_schedule_def insert_schedule_def split: sum.splits option.splits if_splits)

lemma remove_latest [simp]:
  "remove_schedule i t db b = (ok, db', b') \<Longrightarrow> bk_latest b' = bk_latest b \<and> bk_last b' = bk_last b \<and>
     bk_pending b' = bk_pending b \<and> bk_loop b' = bk_loop b \<and> db_runs db' = db_runs db"
  by (auto simp: remove_schedule_def delete_schedule_def split: if_splits)

lemma persist_latest [simp]:
  "persist ok n db b = (db', b') \<Longrightarrow> bk_latest b' = bk_latest b \<and> bk_last b' = bk_last b \<and>
     bk_active b' = bk_active b \<and> bk_loop b' = bk_loop b \<and> db_schedules db' = db_schedules db"
  by (auto simp: persist_def upsert_run_def prune_runs_def Let_def split: list.splits book_write.splits if_splits)

text \<open>The outcome last reported for a run.\<close>

fun reported :: "book_event list \<Rightarrow> string \<Rightarrow> int \<Rightarrow> run_entry option" where
  "reported [] i k = None"
| "reported (ev # evs) i k = (case reported evs i k of Some e \<Rightarrow> Some e
     | None \<Rightarrow> (case ev of EvReport i' k' e \<Rightarrow> if i' = i \<and> k' = k then Some e else None | _ \<Rightarrow> None))"

lemma reported_snoc:
  "reported (evs @ [ev]) i k = (case ev of EvReport i' k' e \<Rightarrow> if i' = i \<and> k' = k then Some e else reported evs i k
     | _ \<Rightarrow> reported evs i k)"
  by (induction evs) (auto split: book_event.splits option.splits)

definition newest_held :: "book_event list \<Rightarrow> book \<Rightarrow> bool" where
  "newest_held evs b \<longleftrightarrow> (\<forall>i. distinct (map fst (bk_latest b i)) \<and>
     (\<forall>k e. map_of (bk_latest b i) k = Some e \<longrightarrow> reported evs i k = Some e) \<and>
     (\<forall>k e. reported evs i k = Some e \<longrightarrow> map_of (bk_latest b i) k = Some e \<or>
        RUNS_KEPT \<le> card {k' \<in> dom (map_of (bk_latest b i)). k < k'}))"

lemma newest_held_report:
  assumes h: "newest_held evs b"
  shows "newest_held (evs @ [EvReport i run e]) (report_run i run e b)"
proof -
  define d where "d = dict_set run e (bk_latest b i)"
  have dist: "distinct (map fst d)" using h by (simp add: newest_held_def d_def distinct_dict_set)
  note kn = keep_newest [OF dist]
  have m: "map_of d = (map_of (bk_latest b i))(run \<mapsto> e)" by (simp add: d_def map_of_dict_set)
  have lat: "bk_latest (report_run i run e b) = (bk_latest b)(i := keep_newest d)"
    by (simp add: report_run_def d_def)
  have fin: "finite (dom (map_of d))" by (rule finite_dom_map_of)
  have here: "map_of (keep_newest d) k = Some e' \<Longrightarrow> reported (evs @ [EvReport i run e]) i k = Some e'" for k e'
  proof -
    assume a: "map_of (keep_newest d) k = Some e'"
    then have "map_of d k = Some e'" using kn by (metis option.distinct(1))
    then show ?thesis using h by (auto simp: m reported_snoc newest_held_def split: if_splits)
  qed
  have there: "map_of (keep_newest d) k = Some e' \<or> RUNS_KEPT \<le> card {k' \<in> dom (map_of (keep_newest d)). k < k'}"
    if r: "reported (evs @ [EvReport i run e]) i k = Some e'" for k e'
  proof -
    have "map_of d k = Some e' \<or> RUNS_KEPT \<le> card {k' \<in> dom (map_of d). k < k'}"
    proof (cases "k = run")
      case True
      then show ?thesis using r by (simp add: m reported_snoc)
    next
      case False
      then have "reported evs i k = Some e'" using r by (simp add: reported_snoc)
      then consider "map_of (bk_latest b i) k = Some e'"
        | "RUNS_KEPT \<le> card {k' \<in> dom (map_of (bk_latest b i)). k < k'}"
        using h unfolding newest_held_def by blast
      then show ?thesis
      proof cases
        case 2
        moreover have "card {k' \<in> dom (map_of (bk_latest b i)). k < k'} \<le> card {k' \<in> dom (map_of d). k < k'}"
          using fin by (intro card_mono) (auto simp: m)
        ultimately show ?thesis by linarith
      qed (use False in \<open>simp add: m\<close>)
    qed
    then show ?thesis using kn by metis
  qed
  show ?thesis
    unfolding newest_held_def
  proof (intro allI conjI impI)
    fix j
    show "distinct (map fst (bk_latest (report_run i run e b) j))"
      using h kn by (simp add: lat newest_held_def)
    fix k e'
    show "reported (evs @ [EvReport i run e]) j k = Some e'"
      if "map_of (bk_latest (report_run i run e b) j) k = Some e'"
      using that h here by (cases "j = i") (auto simp: lat newest_held_def reported_snoc)
    show "map_of (bk_latest (report_run i run e b) j) k = Some e' \<or>
        RUNS_KEPT \<le> card {k' \<in> dom (map_of (bk_latest (report_run i run e b) j)). k < k'}"
      if r: "reported (evs @ [EvReport i run e]) j k = Some e'"
    proof (cases "j = i")
      case True
      then show ?thesis using there r by (simp add: lat)
    next
      case False
      then have "reported evs j k = Some e'" using r by (simp add: reported_snoc)
      then have "map_of (bk_latest b j) k = Some e' \<or> RUNS_KEPT \<le> card {k' \<in> dom (map_of (bk_latest b j)). k < k'}"
        using h unfolding newest_held_def by blast
      moreover have "bk_latest (report_run i run e b) j = bk_latest b j" using False by (simp add: lat)
      ultimately show ?thesis by (simp only:)
    qed
  qed
qed

lemma newest_held_cong:
  "bk_latest b' = bk_latest b \<Longrightarrow> reported evs' = reported evs \<Longrightarrow> newest_held evs' b' = newest_held evs b"
  by (simp only: newest_held_def)

lemma newest_held_run:
  "bk_latest b0 = (\<lambda>_. []) \<Longrightarrow> newest_held evs (snd (book_run evs (db0, b0)))"
proof (induction evs rule: rev_induct)
  case Nil
  then show ?case by (simp add: newest_held_def)
next
  case (snoc ev evs)
  obtain db b where st: "book_run evs (db0, b0) = (db, b)" by fastforce
  have h: "newest_held evs b" using snoc st by simp
  show ?case
  proof (cases ev)
    case (EvReport i run e)
    then show ?thesis using newest_held_report [OF h] by (simp add: book_run_snoc st)
  next
    case (EvAdd s)
    then have "bk_latest (snd (book_step ev (db, b))) = bk_latest b"
      by (cases "add_schedule s db b") auto
    moreover have "reported (evs @ [ev]) = reported evs" using EvAdd by (simp add: fun_eq_iff reported_snoc)
    ultimately show ?thesis using newest_held_cong h by (metis book_run_snoc st)
  next
    case (EvDelete i t)
    then have "bk_latest (snd (book_step ev (db, b))) = bk_latest b"
      by (cases "remove_schedule i t db b") auto
    moreover have "reported (evs @ [ev]) = reported evs" using EvDelete by (simp add: fun_eq_iff reported_snoc)
    ultimately show ?thesis using newest_held_cong h by (metis book_run_snoc st)
  next
    case (EvPersist ok n)
    then have "bk_latest (snd (book_step ev (db, b))) = bk_latest b"
      by (cases "persist ok n db b") auto
    moreover have "reported (evs @ [ev]) = reported evs" using EvPersist by (simp add: fun_eq_iff reported_snoc)
    ultimately show ?thesis using newest_held_cong h by (metis book_run_snoc st)
  qed
qed

lemma map_fst_book_runs:
  "map fst (book_runs i limit db b) = take limit (rev (sort (map fst
     (fold (\<lambda>(run, e). dict_set run e) (bk_latest b i) (dict_of (list_runs i limit db))))))"
  by (simp add: book_runs_def Let_def comp_def)

text \<open>The first \<open>n\<close> of a descending list are those with fewer than \<open>n\<close> above them.\<close>

lemma descending_above:
  assumes "sorted_wrt (>) (ks :: int list)" "m < length ks"
  shows "card {x \<in> set ks. ks ! m < x} = m"
proof -
  have less: "x < y \<Longrightarrow> y < length ks \<Longrightarrow> ks ! y < ks ! x" for x y using assms(1) by (auto simp: sorted_wrt_iff_nth_less)
  have "{x \<in> set ks. ks ! m < x} = (!) ks ` {..<m}"
  proof
    show "{x \<in> set ks. ks ! m < x} \<subseteq> (!) ks ` {..<m}"
    proof
      fix x assume "x \<in> {x \<in> set ks. ks ! m < x}"
      then obtain j where j: "j < length ks" "ks ! j = x" "ks ! m < x" by (auto simp: in_set_conv_nth)
      then have "j < m" using less [of m j] by (cases j m rule: linorder_cases) auto
      then show "x \<in> (!) ks ` {..<m}" using j by auto
    qed
    show "(!) ks ` {..<m} \<subseteq> {x \<in> set ks. ks ! m < x}" using less assms(2) by auto
  qed
  moreover have "distinct ks" using assms(1) strict_sorted_iff [of "rev ks"] by (simp add: sorted_wrt_rev)
  then have "inj_on ((!) ks) {..<m}" using assms(2) by (intro inj_on_nth) auto
  ultimately show ?thesis by (simp add: card_image)
qed

lemma descending_take:
  assumes "sorted_wrt (>) (ks :: int list)" "k \<in> set ks" "card {x \<in> set ks. k < x} < n"
  shows "k \<in> set (take n ks)"
proof -
  obtain m where m: "m < length ks" "ks ! m = k" using assms(2) by (auto simp: in_set_conv_nth)
  then have "m < n" using descending_above [OF assms(1) m(1)] assms(3) by simp
  then show ?thesis using m by (auto simp: in_set_conv_nth)
qed

lemma descending_full:
  assumes "sorted_wrt (>) (ks :: int list)" "n \<le> card {x \<in> set ks. k < x}"
  shows "length (take n ks) = n \<and> (\<forall>k' \<in> set (take n ks). k < k')"
proof -
  have "card {x \<in> set ks. k < x} \<le> length ks" by (rule order_trans [OF card_mono card_length]) auto
  moreover have "k < ks ! m" if m: "m < n" "m < length ks" for m
  proof (rule ccontr)
    assume "\<not> k < ks ! m"
    then have "card {x \<in> set ks. k < x} \<le> card {x \<in> set ks. ks ! m < x}" by (intro card_mono) auto
    then show False using descending_above [OF assms(1) m(2)] assms(2) m(1) by simp
  qed
  ultimately show ?thesis using assms(2) by (auto simp: in_set_conv_nth)
qed

text \<open>
  C13: the API's list of runs is up to date. Whatever was added, deleted, reported and
  stored (or failed to be stored) since the process started, the list is in
  descending order of the runs and never longer than asked for, and a run reported
  in this process is listed with the outcome reported last, unless the list is full
  of newer runs.
\<close>

theorem listed_runs_up_to_date:
  assumes "bk_latest b0 = (\<lambda>_. [])" "(db, b) = book_run evs (db0, b0)" "limit \<le> RUNS_KEPT"
    and "reported evs i k = Some e"
  shows "length (book_runs i limit db b) \<le> limit \<and>
    sorted_wrt (>) (map fst (book_runs i limit db b)) \<and>
    ((k, e) \<in> set (book_runs i limit db b) \<or>
     (length (book_runs i limit db b) = limit \<and> (\<forall>(k', e') \<in> set (book_runs i limit db b). k < k')))"
proof -
  define rows where "rows = fold (\<lambda>(run, e). dict_set run e) (bk_latest b i) (dict_of (list_runs i limit db))"
  define ks where "ks = rev (sort (map fst rows))"
  have h: "newest_held evs b" using newest_held_run [OF assms(1), of evs db0] assms(2) by (metis snd_conv)
  have drows: "distinct (map fst rows)"
    unfolding rows_def dict_of_def by (intro distinct_dict_sets) simp
  have mrows: "map_of rows = map_of (dict_of (list_runs i limit db)) ++ map_of (bk_latest b i)"
    using h by (simp add: rows_def map_of_dict_sets map_of_rev_distinct newest_held_def)
  have runs: "book_runs i limit db b = map (\<lambda>k. (k, the (map_of rows k))) (take limit ks)"
    by (simp add: book_runs_def rows_def ks_def Let_def)
  have ks: "sorted_wrt (>) ks" "set ks = dom (map_of rows)"
    using drows by (simp_all add: ks_def sorted_wrt_rev strict_sorted_iff dom_keys)
  have sub: "dom (map_of (bk_latest b i)) \<subseteq> set ks" using ks(2) mrows by auto
  have part: "(k, e) \<in> set (book_runs i limit db b) \<or>
     (length (book_runs i limit db b) = limit \<and> (\<forall>(k', e') \<in> set (book_runs i limit db b). k < k'))"
  proof (cases "limit \<le> card {k' \<in> set ks. k < k'}")
    case True
    from descending_full [OF ks(1) this] show ?thesis unfolding runs by auto
  next
    case False
    moreover have "card {k' \<in> dom (map_of (bk_latest b i)). k < k'} \<le> card {k' \<in> set ks. k < k'}"
      using sub by (intro card_mono) auto
    ultimately have "\<not> RUNS_KEPT \<le> card {k' \<in> dom (map_of (bk_latest b i)). k < k'}" using assms(3) by linarith
    then have held: "map_of (bk_latest b i) k = Some e" using h assms(4) unfolding newest_held_def by blast
    then have "k \<in> set (take limit ks)" using False sub by (intro descending_take [OF ks(1)]) auto
    moreover have "map_of rows k = Some e" using held by (simp add: mrows)
    ultimately show ?thesis by (force simp: runs)
  qed
  have "sorted_wrt (>) (map fst (book_runs i limit db b))"
    using ks(1) by (simp add: runs comp_def sorted_wrt_take)
  then show ?thesis using part by (simp add: runs)
qed

section \<open>The memory and the tables agree\<close>

definition row_ok :: "srow \<Rightarrow> bool" where
  "row_ok r \<longleftrightarrow> (\<exists>s. sr_body r = to_json s \<and> sr_id r = sch_id s \<and> sch_source s \<noteq> [])"

definition row_schedule :: "srow \<Rightarrow> schedule" where
  "row_schedule r = (case from_json (sr_body r) of Inr s \<Rightarrow> s)"

lemma row_ok_from_json:
  "row_ok r \<Longrightarrow> from_json (sr_body r) = Inr (row_schedule r) \<and> sch_id (row_schedule r) = sr_id r"
  by (auto simp: row_ok_def row_schedule_def from_json_of_to_json)

definition stored :: "sched_db \<Rightarrow> string \<Rightarrow> schedule option" where
  "stored db = map_of (map (\<lambda>r. (sr_id r, row_schedule r)) (filter (\<lambda>r. sr_deleted_ms r = None) (db_schedules db)))"

definition book_ok :: "sched_db \<Rightarrow> book \<Rightarrow> bool" where
  "book_ok db b \<longleftrightarrow> (\<forall>r \<in> set (db_schedules db). row_ok r) \<and> distinct (map sr_id (db_schedules db)) \<and>
     map_of (bk_active b) = stored db"

lemma find_row: "distinct (map sr_id rs) \<Longrightarrow> r \<in> set rs \<Longrightarrow> find (\<lambda>x. sr_id x = sr_id r) rs = Some r"
  by (induction rs) force+

lemma stored_Some:
  assumes "distinct (map sr_id (db_schedules db))"
  shows "stored db i = Some s \<longleftrightarrow>
    (\<exists>r \<in> set (db_schedules db). is_live i r \<and> row_schedule r = s)"
proof -
  have "distinct (map sr_id (filter (\<lambda>r. sr_deleted_ms r = None) (db_schedules db)))"
    using assms by (rule distinct_map_filter)
  then have "stored db i = Some s \<longleftrightarrow>
      (i, s) \<in> set (map (\<lambda>r. (sr_id r, row_schedule r)) (filter (\<lambda>r. sr_deleted_ms r = None) (db_schedules db)))"
    unfolding stored_def by (intro map_of_eq_Some_iff) (simp add: comp_def)
  then show ?thesis by (auto simp: is_live_def)
qed

lemma book_ok_live:
  assumes "book_ok db b"
  shows "i \<in> fst ` set (bk_active b) \<longleftrightarrow> list_ex (is_live i) (db_schedules db)"
proof -
  have "i \<in> fst ` set (bk_active b) \<longleftrightarrow> stored db i \<noteq> None"
    using assms by (metis book_ok_def map_of_eq_None_iff)
  then show ?thesis
    using assms stored_Some [of db i] by (auto simp: book_ok_def list_ex_iff)
qed

lemma row_of_insert:
  "sch_source s \<noteq> [] \<Longrightarrow>
   row_ok \<lparr>sr_id = sch_id s, sr_body = to_json s, sr_created_ms = c, sr_deleted_ms = d\<rparr> \<and>
   row_schedule \<lparr>sr_id = sch_id s, sr_body = to_json s, sr_created_ms = c, sr_deleted_ms = d\<rparr> = s"
  by (auto simp: row_ok_def row_schedule_def from_json_of_to_json)

lemma get_schedule_row:
  assumes "book_ok db b"
  shows "get_schedule i db = Inr (map_option row_schedule (find (\<lambda>r. sr_id r = i) (db_schedules db)))"
proof (cases "find (\<lambda>r. sr_id r = i) (db_schedules db)")
  case (Some r)
  then have "r \<in> set (db_schedules db)" by (auto simp: find_Some_iff)
  then show ?thesis using assms row_ok_from_json [of r] Some by (simp add: get_schedule_def book_ok_def)
qed (simp add: get_schedule_def)

lemma book_ok_add:
  assumes ok: "book_ok db b" and src: "sch_source s \<noteq> []" and new: "sch_id s \<notin> sr_id ` set (db_schedules db)"
  shows "\<exists>db' b'. add_schedule s db b = Inr ((s, True), db', b') \<and> book_ok db' b' \<and>
    map_of (bk_active b') = (map_of (bk_active b))(sch_id s \<mapsto> s) \<and> bk_version b' = bk_version b + 1"
proof -
  have none: "find (\<lambda>r. sr_id r = sch_id s) (db_schedules db) = None"
    using new by (force simp: find_None_iff)
  define row where "row = \<lparr>sr_id = sch_id s, sr_body = to_json s, sr_created_ms = sch_created_ms s, sr_deleted_ms = None\<rparr>"
  define db' where "db' = db\<lparr>db_schedules := db_schedules db @ [row]\<rparr>"
  define b' where "b' = b\<lparr>bk_active := dict_set (sch_id s) s (bk_active b), bk_version := bk_version b + 1\<rparr>"
  have add: "add_schedule s db b = Inr ((s, True), db', b')"
    using none new by (simp add: add_schedule_def get_schedule_row [OF ok] insert_schedule_def db'_def b'_def row_def)
  have nl: "stored db (sch_id s) = None"
  proof (cases "stored db (sch_id s)")
    case (Some s0)
    then obtain r where "r \<in> set (db_schedules db)" "sr_id r = sch_id s"
      using stored_Some [of db "sch_id s" s0] ok by (auto simp: book_ok_def is_live_def)
    then show ?thesis using new by force
  qed simp
  have "stored db' = (stored db)(sch_id s \<mapsto> s)"
    using row_of_insert [OF src] nl
    by (auto simp: stored_def db'_def row_def map_add_def fun_eq_iff split: option.splits)
  then have "book_ok db' b'"
    using ok new row_of_insert [OF src]
    by (auto simp: book_ok_def db'_def b'_def map_of_dict_set row_def)
  then show ?thesis using add by (simp add: b'_def map_of_dict_set)
qed

lemma add_known:
  assumes ok: "book_ok db b" and old: "sch_id s \<in> sr_id ` set (db_schedules db)"
  shows "add_schedule s db b = (case map_of (bk_active b) (sch_id s) of
      Some s0 \<Rightarrow> if same_schedule s0 s then Inr ((s0, False), db, b) else Inl (ScheduleConflict (sch_id s))
    | None \<Rightarrow> Inl (ScheduleConflict (sch_id s)))"
proof -
  obtain r where r: "r \<in> set (db_schedules db)" "sr_id r = sch_id s" using old by auto
  have f: "find (\<lambda>x. sr_id x = sch_id s) (db_schedules db) = Some r"
    using find_row [of "db_schedules db" r] ok r by (simp add: book_ok_def)
  have uniq: "r' = r" if "r' \<in> set (db_schedules db)" "sr_id r' = sch_id s" for r'
    using that ok r by (auto simp: book_ok_def distinct_map inj_on_def)
  have act: "map_of (bk_active b) (sch_id s) = (if sr_deleted_ms r = None then Some (row_schedule r) else None)"
  proof (cases "map_of (bk_active b) (sch_id s)")
    case None
    then have "stored db (sch_id s) = None" using ok by (simp add: book_ok_def)
    then show ?thesis using None stored_Some [of db "sch_id s" "row_schedule r"] ok r by (auto simp: book_ok_def is_live_def)
  next
    case (Some s0)
    then have "stored db (sch_id s) = Some s0" using ok by (simp add: book_ok_def)
    then show ?thesis using Some stored_Some [of db "sch_id s" s0] ok uniq by (auto simp: book_ok_def is_live_def)
  qed
  have "sch_id s \<in> fst ` set (bk_active b) \<longleftrightarrow> map_of (bk_active b) (sch_id s) \<noteq> None"
    by (metis map_of_eq_None_iff)
  then show ?thesis
    by (simp add: add_schedule_def get_schedule_row [OF ok] f act)
qed

lemma book_ok_remove:
  assumes ok: "book_ok db b"
  shows "book_ok (fst (snd (remove_schedule i t db b))) (snd (snd (remove_schedule i t db b)))"
proof -
  define mark where "mark r = (if is_live i r then r\<lparr>sr_deleted_ms := Some t\<rparr> else r)" for r
  define db' where "db' = db\<lparr>db_schedules := map mark (db_schedules db)\<rparr>"
  define b' where "b' = (if i \<in> fst ` set (bk_active b)
    then b\<lparr>bk_active := dict_del i (bk_active b), bk_version := bk_version b + 1\<rparr> else b)"
  have r: "remove_schedule i t db b = (list_ex (is_live i) (db_schedules db), db', b')"
    by (simp add: remove_schedule_def delete_schedule_def db'_def b'_def mark_def [abs_def])
  have mark: "sr_id (mark r) = sr_id r" "row_schedule (mark r) = row_schedule r" "row_ok (mark r) = row_ok r"
    "is_live j (mark r) \<longleftrightarrow> j \<noteq> i \<and> is_live j r" for r j
    by (auto simp: mark_def row_schedule_def row_ok_def is_live_def)
  have dist: "distinct (map sr_id (db_schedules db'))"
    using ok by (simp add: db'_def comp_def mark book_ok_def)
  have "stored db' j = (if j = i then None else stored db j)" for j
  proof -
    have "stored db' j = Some s \<longleftrightarrow> (if j = i then None else stored db j) = Some s" for s
      using stored_Some [OF dist, of j s] stored_Some [of db j s] ok
      by (auto simp: db'_def mark book_ok_def)
    then show ?thesis by (metis option.exhaust)
  qed
  moreover have "map_of (bk_active b') = (map_of (bk_active b))(i := None)"
  proof (cases "i \<in> fst ` set (bk_active b)")
    case True
    then show ?thesis by (simp add: b'_def map_of_dict_del)
  next
    case False
    then have "map_of (bk_active b) i = None" by (simp add: map_of_eq_None_iff)
    then show ?thesis using False by (auto simp: b'_def fun_upd_idem)
  qed
  ultimately have "map_of (bk_active b') = stored db'"
    using ok by (auto simp: book_ok_def fun_eq_iff)
  then show ?thesis using ok dist by (auto simp: r book_ok_def db'_def mark)
qed

lemma book_ok_step:
  assumes "book_ok db b" "\<forall>s. ev = EvAdd s \<longrightarrow> sch_source s \<noteq> []"
  shows "book_ok (fst (book_step ev (db, b))) (snd (book_step ev (db, b)))"
proof (cases ev)
  case (EvAdd s)
  then have "sch_source s \<noteq> []" using assms(2) by simp
  show ?thesis
  proof (cases "sch_id s \<in> sr_id ` set (db_schedules db)")
    case True
    then show ?thesis using assms(1) by (auto simp: EvAdd add_known [OF assms(1) True] split: option.splits)
  next
    case False
    from book_ok_add [OF assms(1) \<open>sch_source s \<noteq> []\<close> this] show ?thesis by (auto simp: EvAdd)
  qed
next
  case (EvDelete i t)
  then show ?thesis using book_ok_remove [OF assms(1), of i t] by simp
next
  case (EvReport i run e)
  then show ?thesis using assms(1) by (simp add: report_run_def book_ok_def)
next
  case (EvPersist ok n)
  then show ?thesis
    using assms(1) by (cases "persist ok n db b") (auto simp: book_ok_def stored_def)
qed

definition add_source_ok :: "book_event \<Rightarrow> bool" where
  "add_source_ok ev = (case ev of EvAdd s \<Rightarrow> sch_source s \<noteq> [] | _ \<Rightarrow> True)"

lemma book_ok_run:
  "book_ok db0 b0 \<Longrightarrow> list_all add_source_ok evs \<Longrightarrow> book_ok (fst (book_run evs (db0, b0))) (snd (book_run evs (db0, b0)))"
proof (induction evs rule: rev_induct)
  case (snoc ev evs)
  then show ?case
    using book_ok_step [of "fst (book_run evs (db0, b0))" "snd (book_run evs (db0, b0))" ev]
    by (simp add: book_run_snoc add_source_ok_def split: book_event.splits)
qed simp

lemma book_ok_empty: "book_ok db_empty (bind_loop book_new)"
  by (simp add: book_ok_def db_empty_def bind_loop_def book_new_def stored_def fun_eq_iff)

lemma same_schedule_iff:
  "same_schedule a b \<longleftrightarrow> a\<lparr>sch_created_ms := sch_created_ms b, sch_source := sch_source b\<rparr> = b"
  by (cases a; cases b) (auto simp: same_schedule_def to_json_def total_runs_def Let_def jopt_def split: option.splits)

text \<open>
  Adding a schedule is idempotent and an id is never reused. In every state a
  process reaches from an empty store, a new id is stored and becomes active; the
  same schedule again (whatever its source and creation time) gives back the stored
  one and changes nothing; another schedule under the id, or a deleted id, is a
  conflict.
\<close>

theorem add_schedule_once:
  assumes "(db, b) = book_run evs (db_empty, bind_loop book_new)" "list_all add_source_ok evs"
    and "sch_source s \<noteq> []"
  shows "(sch_id s \<notin> sr_id ` set (db_schedules db) \<longrightarrow>
      (\<exists>db' b'. add_schedule s db b = Inr ((s, True), db', b') \<and> bk_version b' = bk_version b + 1 \<and>
         (\<forall>i. book_get i b' = (if i = sch_id s then Some s else book_get i b)))) \<and>
    (sch_id s \<in> sr_id ` set (db_schedules db) \<longrightarrow> add_schedule s db b = (case book_get (sch_id s) b of
        Some s0 \<Rightarrow> if s0\<lparr>sch_created_ms := sch_created_ms s, sch_source := sch_source s\<rparr> = s
                  then Inr ((s0, False), db, b) else Inl (ScheduleConflict (sch_id s))
      | None \<Rightarrow> Inl (ScheduleConflict (sch_id s))))"
proof -
  have ok: "book_ok db b" using book_ok_run [OF book_ok_empty assms(2)] by (simp add: assms(1) [symmetric])
  show ?thesis
    using book_ok_add [OF ok assms(3)] add_known [OF ok, of s]
    by (auto simp: book_get_def same_schedule_iff split: option.splits)
qed

section \<open>A restart loses nothing that was stored\<close>

definition is_last :: "int option \<Rightarrow> int set \<Rightarrow> bool" where
  "is_last m K \<longleftrightarrow> (case m of None \<Rightarrow> K = {} | Some m \<Rightarrow> m \<in> K \<and> (\<forall>k \<in> K. k \<le> m))"

lemma is_last_unique: "is_last m K \<Longrightarrow> is_last m' K \<Longrightarrow> m = m'"
  by (auto simp: is_last_def split: option.splits intro: antisym)

definition known_runs :: "sched_db \<Rightarrow> book \<Rightarrow> string \<Rightarrow> int set" where
  "known_runs db b i = rr_run ` set (rows_of_schedule i db) \<union> {run. \<exists>e. WUpsert i run e \<in> set (bk_pending b)}"

lemma db_last_run_is_last: "is_last (db_last_run i db) (rr_run ` set (rows_of_schedule i db))"
proof -
  have m: "foldr max ks k \<in> set (k # ks) \<and> (\<forall>j \<in> set (k # ks). j \<le> foldr max ks k)" for k :: int and ks
    by (induction ks) (auto simp: max_def)
  show ?thesis
  proof (cases "map rr_run (rows_of_schedule i db)")
    case Nil
    then show ?thesis by (simp add: db_last_run_def is_last_def)
  next
    case (Cons k ks)
    have "rr_run ` set (rows_of_schedule i db) = set (k # ks)" using arg_cong [OF Cons, of set] by simp
    then show ?thesis using m [of ks k] by (simp add: db_last_run_def Cons is_last_def)
  qed
qed

lemma runs_upsert:
  "rr_run ` set (rows_of_schedule j (upsert_run i run e db)) =
     (if j = i then insert run (rr_run ` set (rows_of_schedule j db)) else rr_run ` set (rows_of_schedule j db))"
proof (cases "list_ex (is_run i run) (db_runs db)")
  case True
  define f where "f r = (if is_run i run r then r\<lparr>rr_entry := e\<rparr> else r)" for r
  have f: "rr_schedule (f r) = rr_schedule r" "rr_run (f r) = rr_run r" for r by (simp_all add: f_def)
  have "rows_of_schedule j (upsert_run i run e db) = map f (rows_of_schedule j db)"
    using True by (simp add: rows_of_schedule_def upsert_run_def f_def [abs_def] filter_map comp_def f [unfolded f_def])
  moreover have "run \<in> rr_run ` set (rows_of_schedule i db)"
    using True by (force simp: list_ex_iff is_run_def rows_of_schedule_def)
  ultimately show ?thesis by (auto simp: f image_image)
next
  case False
  then show ?thesis by (simp add: rows_of_schedule_def upsert_run_def image_Un)
qed

lemma runs_prune:
  assumes "0 < keep"
  shows "is_last m (rr_run ` set (rows_of_schedule j (prune_runs i keep db)) \<union> P) =
    is_last m (rr_run ` set (rows_of_schedule j db) \<union> P)"
proof (cases "j = i")
  case False
  then have "set (rows_of_schedule j (prune_runs i keep db)) = set (rows_of_schedule j db)"
    by (auto simp: rows_of_schedule_def prune_runs_def Let_def)
  then show ?thesis by simp
next
  case True
  define rs where "rs = newest_first (rows_of_schedule i db)"
  have set: "set rs = set (rows_of_schedule i db)" and srt: "sorted (map (\<lambda>r. - rr_run r) rs)"
    by (simp_all add: rs_def newest_first_def)
  define A B where "A = rr_run ` set (rows_of_schedule i db)" and "B = rr_run ` set (take keep rs)"
  have BA: "B \<subseteq> A" using set by (auto simp: A_def B_def dest: in_set_takeD)
  have top: "\<exists>m \<in> B. \<forall>a \<in> A. a \<le> m" if ne: "A \<noteq> {}"
  proof -
    obtain r rs' where r: "rs = r # rs'" using ne set by (cases rs) (auto simp: A_def)
    have "a \<le> rr_run r" if "a \<in> A" for a
      using that srt set [symmetric] by (auto simp: A_def r)
    moreover have "rr_run r \<in> B" using assms by (cases keep) (auto simp: B_def r)
    ultimately show ?thesis by blast
  qed
  have "rows_of_schedule i (prune_runs i keep db) = filter (\<lambda>r. rr_run r \<in> B) (rows_of_schedule i db)"
    unfolding rows_of_schedule_def prune_runs_def Let_def B_def rs_def
    by (auto intro: filter_cong)
  then have "rr_run ` set (rows_of_schedule i (prune_runs i keep db)) = A \<inter> B"
    by (auto simp: A_def)
  then have eq: "rr_run ` set (rows_of_schedule j (prune_runs i keep db)) = B" using BA True by auto
  have "is_last m (B \<union> P) = is_last m (A \<union> P)"
  proof (cases "A = {}")
    case True
    then show ?thesis using BA by auto
  next
    case False
    then obtain t where t: "t \<in> B" "\<forall>a \<in> A. a \<le> t" using top by blast
    then have bound: "(\<forall>k \<in> B \<union> P. k \<le> x) \<longleftrightarrow> (\<forall>k \<in> A \<union> P. k \<le> x)" for x
    proof (intro iffI ballI)
      fix k assume h: "\<forall>k \<in> B \<union> P. k \<le> x" and k: "k \<in> A \<union> P"
      from h t(1) have "t \<le> x" by blast
      from k show "k \<le> x"
      proof
        assume "k \<in> A"
        then show ?thesis using t(2) \<open>t \<le> x\<close> by (meson order_trans)
      qed (use h in blast)
    next
      fix k assume "\<forall>k \<in> A \<union> P. k \<le> x" and "k \<in> B \<union> P"
      then show "k \<le> x" using BA by blast
    qed
    have sup: "x \<in> B \<union> P" if "x \<in> A \<union> P" "\<forall>k \<in> B \<union> P. k \<le> x" for x
    proof (cases "x \<in> A")
      case True
      then have "x = t" using t that(2) by (simp add: antisym)
      then show ?thesis using t(1) by simp
    qed (use that in simp)
    show ?thesis
    proof (cases m)
      case None
      then show ?thesis using t(1) BA by (auto simp: is_last_def)
    next
      case (Some x)
      have "x \<in> B \<union> P \<and> (\<forall>k \<in> B \<union> P. k \<le> x) \<longleftrightarrow> x \<in> A \<union> P \<and> (\<forall>k \<in> A \<union> P. k \<le> x)"
        using bound [of x] sup [of x] subsetD [OF BA, of x] by (metis UnE UnI1 UnI2)
      then show ?thesis by (simp only: Some is_last_def option.case)
    qed
  qed
  then show ?thesis using eq True by (simp add: A_def)
qed

definition good_event :: "book_event \<Rightarrow> bool" where
  "good_event ev = (case ev of EvAdd s \<Rightarrow> sch_source s \<noteq> [] | EvReport i run e \<Rightarrow> 0 \<le> run
     | EvPersist ok n \<Rightarrow> ok | EvDelete i t \<Rightarrow> True)"

lemma is_last_insert:
  "is_last m K \<Longrightarrow> 0 \<le> run \<Longrightarrow>
   is_last (if (case m of None \<Rightarrow> -1 | Some k \<Rightarrow> k) < run then Some run else m) (insert run K)"
  by (cases m) (auto simp: is_last_def)

lemma last_known_step:
  assumes "\<forall>i. is_last (bk_last b i) (known_runs db b i)" "bk_loop b" "good_event ev"
    and "book_step ev (db, b) = (db', b')"
  shows "(\<forall>i. is_last (bk_last b' i) (known_runs db' b' i)) \<and> bk_loop b'"
proof (cases ev)
  case (EvAdd s)
  have same: "bk_last b' = bk_last b \<and> bk_pending b' = bk_pending b \<and> bk_loop b' = bk_loop b \<and> db_runs db' = db_runs db"
  proof (cases "add_schedule s db b")
    case (Inl e)
    then show ?thesis using assms(4) EvAdd by simp
  next
    case (Inr r)
    then have "add_schedule s db b = Inr (fst r, db', b')" using assms(4) EvAdd by (cases r) simp
    then show ?thesis using add_latest by blast
  qed
  then have "known_runs db' b' = known_runs db b" by (simp add: known_runs_def rows_of_schedule_def fun_eq_iff)
  then show ?thesis using assms(1,2) same by simp
next
  case (EvDelete i t)
  have "remove_schedule i t db b = (fst (remove_schedule i t db b), db', b')"
    using assms(4) EvDelete by (cases "remove_schedule i t db b") simp
  note same = remove_latest [OF this]
  then have "known_runs db' b' = known_runs db b" by (simp add: known_runs_def rows_of_schedule_def fun_eq_iff)
  then show ?thesis using assms(1,2) same by simp
next
  case (EvReport i run e)
  then have b': "b' = report_run i run e b" "db' = db" "0 \<le> run" using assms by (auto simp: good_event_def)
  have pend: "bk_pending b' = bk_pending b @ [WUpsert i run e]" and loop: "bk_loop b'"
    using assms(2) by (simp_all add: b'(1) report_run_def)
  have last: "bk_last b' j = (if j = i \<and> (case bk_last b i of None \<Rightarrow> -1 | Some k \<Rightarrow> k) < run then Some run
      else bk_last b j)" for j
    by (simp add: b'(1) report_run_def)
  have known: "known_runs db' b' j = (if j = i then insert run (known_runs db b j) else known_runs db b j)" for j
    by (auto simp: b'(2) known_runs_def pend)
  have "is_last (bk_last b' j) (known_runs db' b' j)" for j
    using is_last_insert [OF assms(1) [rule_format, of i] b'(3)] assms(1)
    by (cases "j = i") (simp_all add: last known)
  then show ?thesis using loop by blast
next
  case (EvPersist ok n)
  then have ok: "persist True n db b = (db', b')" using assms(3,4) by (auto simp: good_event_def)
  have keep: "bk_last b' = bk_last b" "bk_loop b' = bk_loop b" using persist_latest [OF ok] by auto
  have "is_last (bk_last b j) (known_runs db' b' j)" for j
  proof (cases "bk_pending b")
    case Nil
    then show ?thesis using ok assms(1) by (auto simp: persist_def)
  next
    case (Cons w ws)
    show ?thesis
    proof (cases w)
      case (WUpsert i run e)
      have step: "db' = upsert_run i run e db"
        "bk_pending b' = (if run mod PRUNE_EVERY = 0 then take n ws @ [WPrune i] @ drop n ws else ws)"
        using ok unfolding persist_def Cons WUpsert by (simp_all, auto)
      have "set (take n ws) \<union> set (drop n ws) = set ws" by (metis append_take_drop_id set_append)
      then have "set (bk_pending b') = set ws \<or> set (bk_pending b') = insert (WPrune i) (set ws)"
        by (simp add: step(2))
      then have P: "{r. \<exists>e. WUpsert j r e \<in> set (bk_pending b')} = {r. \<exists>e. WUpsert j r e \<in> set ws}" by auto
      have Q: "{r. \<exists>e. WUpsert j r e \<in> set (bk_pending b)} =
          (if j = i then insert run {r. \<exists>e. WUpsert j r e \<in> set ws} else {r. \<exists>e. WUpsert j r e \<in> set ws})"
        unfolding Cons WUpsert by auto
      have "known_runs db' b' j = known_runs db b j"
        unfolding known_runs_def P Q step(1) runs_upsert by (cases "j = i") simp_all
      then show ?thesis using assms(1) by simp
    next
      case (WPrune i)
      have db': "db' = prune_runs i RUNS_KEPT db" "bk_pending b' = ws"
        using ok unfolding persist_def Cons WPrune by (simp_all, auto)
      have "is_last (bk_last b j) (rr_run ` set (rows_of_schedule j db) \<union> {run. \<exists>e. WUpsert j run e \<in> set ws})"
        using assms(1) [rule_format, of j] unfolding known_runs_def Cons WPrune by simp
      then show ?thesis
        using runs_prune [of RUNS_KEPT "bk_last b j" j i db] unfolding known_runs_def db' by (simp add: RUNS_KEPT_def)
    qed
  qed
  then show ?thesis using keep assms(2) by simp
qed

lemma last_known_run:
  "list_all good_event evs \<Longrightarrow> book_run evs (db_empty, bind_loop book_new) = (db, b) \<Longrightarrow>
   (\<forall>i. is_last (bk_last b i) (known_runs db b i)) \<and> bk_loop b"
proof (induction evs arbitrary: db b rule: rev_induct)
  case Nil
  then show ?case by (auto simp: db_empty_def bind_loop_def book_new_def known_runs_def rows_of_schedule_def is_last_def)
next
  case (snoc ev evs)
  obtain db1 b1 where st: "book_run evs (db_empty, bind_loop book_new) = (db1, b1)" by fastforce
  show ?case
    using last_known_step [of b1 db1 ev db b] snoc st by (simp add: book_run_snoc)
qed

lemma read_rows_ok: "\<forall>r \<in> set rs. row_ok r \<Longrightarrow> read_rows rs = Inr (map row_schedule rs)"
  by (induction rs) (simp_all add: row_ok_from_json)

lemma load_stored:
  assumes ok: "book_ok db b0"
  shows "\<exists>b'. load db b = Inr (snd (end_unfinished_runs db), b') \<and>
    map_of (bk_active b') = stored db \<and>
    (\<forall>i. stored db i \<noteq> None \<longrightarrow> bk_last b' i = db_last_run i db)"
proof -
  define db1 where "db1 = snd (end_unfinished_runs db)"
  define live where "live = filter (\<lambda>r. sr_deleted_ms r = None) (db_schedules db)"
  define rs where "rs = sort_key (\<lambda>r. (sr_created_ms r, sr_id r)) live"
  have db1: "db_schedules db1 = db_schedules db" by (simp add: db1_def end_unfinished_runs_def)
  have rs: "set rs = set live" "distinct (map sr_id rs)"
  proof -
    have "mset (map sr_id rs) = mset (map sr_id live)" by (simp add: rs_def)
    moreover have "distinct (map sr_id live)"
      using ok unfolding live_def by (intro distinct_map_filter) (simp add: book_ok_def)
    ultimately show "distinct (map sr_id rs)" using mset_eq_imp_distinct_iff by blast
  qed (simp add: rs_def)
  have "\<forall>r \<in> set rs. row_ok r" using ok rs(1) by (auto simp: live_def book_ok_def)
  then have ls: "list_schedules False db1 = Inr (map row_schedule rs)"
    by (simp add: list_schedules_def db1 live_def [symmetric] rs_def [symmetric] read_rows_ok)
  have ids: "sch_id (row_schedule r) = sr_id r" if "r \<in> set rs" for r
    using that ok rs(1) row_ok_from_json [of r] by (auto simp: live_def book_ok_def)
  define pairs where "pairs = map (\<lambda>r. (sr_id r, row_schedule r)) rs"
  have pairs: "map (\<lambda>s. (sch_id s, s)) (map row_schedule rs) = pairs" by (simp add: pairs_def ids)
  have dp: "distinct (map fst pairs)" using rs(2) by (simp add: pairs_def comp_def)
  have dl: "distinct (map sr_id live)"
    using ok unfolding live_def by (intro distinct_map_filter) (simp add: book_ok_def)
  have "map_of pairs = map_of (map (\<lambda>r. (sr_id r, row_schedule r)) live)"
  proof (subst map_of_inject_set)
    show "distinct (map fst pairs)" by (rule dp)
    show "distinct (map fst (map (\<lambda>r. (sr_id r, row_schedule r)) live))" using dl by (simp add: comp_def)
    show "set pairs = set (map (\<lambda>r. (sr_id r, row_schedule r)) live)" using rs(1) by (simp add: pairs_def)
  qed
  then have act: "map_of (dict_of pairs) = stored db"
    using dp by (simp add: map_of_dict_of stored_def live_def)
  have runs: "map rr_run (rows_of_schedule i db1) = map rr_run (rows_of_schedule i db)" for i
  proof -
    define f where "f r = (if unfinished r then r\<lparr>rr_entry := (rr_entry r)\<lparr>en_status := ''partial'',
      en_reason := Some ''stopped''\<rparr>\<rparr> else r)" for r
    have f: "rr_run (f r) = rr_run r" "rr_schedule (f r) = rr_schedule r" for r by (simp_all add: f_def)
    have "rows_of_schedule i db1 = map f (rows_of_schedule i db)"
      by (simp add: rows_of_schedule_def db1_def end_unfinished_runs_def f_def [symmetric] filter_map comp_def f)
    then show ?thesis by (simp add: f comp_def)
  qed
  have last: "db_last_run i db1 = db_last_run i db" for i by (simp add: db_last_run_def runs)
  have "stored db i \<noteq> None \<Longrightarrow> i \<in> sch_id ` set (map row_schedule rs)" for i
    using ok stored_Some [of db i] ids rs(1) by (fastforce simp: book_ok_def is_live_def live_def)
  then show ?thesis
    using act by (simp add: load_def db1_def [symmetric] ls pairs [unfolded map_map] last)
qed

text \<open>
  C34: a restart restores the book. When every write the loop was given has been stored,
  loading the store in a new process gives the same active schedules, the same last
  run of each (so that no run is recorded twice), and no run is left marked as being
  recorded.
\<close>

theorem restart_restores_book:
  assumes "(db, b) = book_run evs (db_empty, bind_loop book_new)" "list_all good_event evs"
    and "bk_pending b = []"
  shows "\<exists>db' b'. load db book_new = Inr (db', b') \<and> (\<forall>i. book_get i b' = book_get i b) \<and>
    (\<forall>i. book_get i b \<noteq> None \<longrightarrow> last_run i b' = last_run i b) \<and>
    (\<forall>r \<in> set (db_runs db'). en_status (rr_entry r) \<noteq> ''recording'')"
proof -
  have "list_all add_source_ok evs"
    using assms(2) by (auto simp: list_all_iff good_event_def add_source_ok_def split: book_event.splits)
  from book_ok_run [OF book_ok_empty this] have ok: "book_ok db b" by (simp add: assms(1) [symmetric])
  obtain b' where b': "load db book_new = Inr (snd (end_unfinished_runs db), b')"
    "map_of (bk_active b') = stored db" "\<forall>i. stored db i \<noteq> None \<longrightarrow> bk_last b' i = db_last_run i db"
    using load_stored [OF ok] by blast
  have "is_last (bk_last b i) (rr_run ` set (rows_of_schedule i db))" for i
    using last_known_run [OF assms(2) assms(1) [symmetric]] assms(3) by (simp add: known_runs_def)
  then have "bk_last b i = db_last_run i db" for i
    using db_last_run_is_last is_last_unique by blast
  moreover have "\<forall>r \<in> set (db_runs (snd (end_unfinished_runs db))). en_status (rr_entry r) \<noteq> ''recording''"
    by (auto simp: end_unfinished_runs_def unfinished_def)
  ultimately show ?thesis
    using b' ok by (auto simp: book_get_def last_run_def book_ok_def)
qed

definition ex_sched :: schedule where
  "ex_sched = \<lparr>sch_id = ''a'', sch_start_ms = 1000, sch_duration_ms = 500, sch_every_ms = Some 2000,
     sch_count = Some 3, sch_until_ms = None, sch_label = [], sch_source = ''api'', sch_created_ms = 10\<rparr>"

definition ex_entry :: "string \<Rightarrow> run_entry" where
  "ex_entry st = \<lparr>en_status = st, en_reason = None, en_start_ms = 1000, en_filename = None, en_info = None\<rparr>"

definition ex_events :: "book_event list" where
  "ex_events = [EvAdd ex_sched, EvReport ''a'' 0 (ex_entry ''recording''), EvReport ''a'' 0 (ex_entry ''recorded''),
     EvReport ''a'' 1 (ex_entry ''recording''), EvPersist True 0, EvPersist True 0, EvPersist True 0,
     EvPersist True 0, EvPersist True 0]"

theorem listed_runs_up_to_date_witness:
  "\<exists>db b. (db, b) = book_run ex_events (db_empty, bind_loop book_new) \<and> length (book_runs ''a'' 50 db b) \<le> 50"
proof -
  obtain db b where st: "(db, b) = book_run ex_events (db_empty, bind_loop book_new)" by (metis surj_pair)
  have "bk_latest (bind_loop book_new) = (\<lambda>_. [])" by (simp add: bind_loop_def book_new_def)
  from listed_runs_up_to_date [OF this st, of 50 "''a''" 1 "ex_entry ''recording''"] st
  show ?thesis by (auto simp: ex_events_def RUNS_KEPT_def)
qed

theorem add_schedule_once_witness:
  "\<exists>db b. (db, b) = book_run ex_events (db_empty, bind_loop book_new) \<and>
     (sch_id ex_sched \<notin> sr_id ` set (db_schedules db) \<longrightarrow>
      (\<exists>db' b'. add_schedule ex_sched db b = Inr ((ex_sched, True), db', b')))"
proof -
  obtain db b where st: "(db, b) = book_run ex_events (db_empty, bind_loop book_new)" by (metis surj_pair)
  have "list_all add_source_ok ex_events" "sch_source ex_sched \<noteq> []"
    by (simp_all add: ex_events_def add_source_ok_def ex_sched_def)
  from add_schedule_once [OF st this] st show ?thesis by blast
qed

theorem restart_restores_book_witness:
  "\<exists>db b db' b'. (db, b) = book_run ex_events (db_empty, bind_loop book_new) \<and>
     load db book_new = Inr (db', b') \<and> (\<forall>r \<in> set (db_runs db'). en_status (rr_entry r) \<noteq> ''recording'')"
proof -
  obtain db b where st: "(db, b) = book_run ex_events (db_empty, bind_loop book_new)" by (metis surj_pair)
  have "list_all good_event ex_events" by (simp add: ex_events_def good_event_def ex_sched_def)
  moreover have "bk_pending (snd (book_run ex_events (db_empty, bind_loop book_new))) = []" by code_simp
  then have "bk_pending b = []" by (simp add: st [symmetric])
  ultimately show ?thesis using restart_restores_book [OF st] st by blast
qed

end
