(* ===== verification/Sched_Writer.thy ===== *)
theory Sched_Writer
  imports Sched_Book Run_Cutter Burst
begin

text \<open>
  \<open>schedules/writer.py\<close>: the scheduled captures' writer. The producers (receiver and
  dispatch threads) put items into a queue and never block; the writer thread takes
  them one by one. The state holds both sides, and an event is one producer call or
  one item handled, so a list of events is an interleaving of the threads. Every
  operation on the file system may fail: \<open>io n\<close> says whether the \<open>n\<close>-th does, with
  the text of the error and how many samples it still did (or did not) write. A file
  name is its stem and suffix; a file is its samples. The smallest and largest value of
  the PSD rows and what \<open>clock_info\<close> adds to the companion are left out. \<open>stop\<close> waits for
  the thread up to a timeout; a writer started again before that thread has ended is
  not modelled (an alive writer is not started twice).
\<close>

section \<open>Items and state\<close>

type_synonym run_key = "string \<times> int"
type_synonym fname = "string \<times> string"
type_synonym io_oracle = "nat \<Rightarrow> (string \<times> nat) option"

record grid_meta =
  gm_freq_axis :: "rat list"
  gm_time_res :: rat
  gm_offset_samples :: int
  gm_slice_samples :: int
  gm_cal_offset_db :: "rat option"

record run_info =
  ri_status :: "string option"
  ri_reason :: "string option"
  ri_gaps :: "gap list"
  ri_writer_refused :: "gap list"
  ri_first_sample_epoch :: "rat option"
  ri_start_error_ns :: "int option"
  ri_late_start_samples :: int
  ri_refused_samples :: int
  ri_grid_rows_dropped :: int

definition info_stopped :: run_info where
  "info_stopped = \<lparr>ri_status = Some ''partial'', ri_reason = Some ''stopped'', ri_gaps = [],
     ri_writer_refused = [], ri_first_sample_epoch = None, ri_start_error_ns = None,
     ri_late_start_samples = 0, ri_refused_samples = 0, ri_grid_rows_dropped = 0\<rparr>"

datatype witem =
  WOpen run_key fname run_spec
| WIq run_key iq
| WZeros run_key int
| WGrid run_key grid grid_meta
| WClose run_key run_info
| WStop

record enqueued =
  eq_pos :: int
  eq_refused :: "gap list"

record open_file =
  of_path :: fname
  of_spec :: run_spec
  of_fh :: bool
  of_grid_fh :: bool
  of_grid :: grid
  of_grid_meta :: "grid_meta option"
  of_error :: "string option"

record finished =
  fr_key :: run_key
  fr_path :: fname
  fr_spec :: run_spec
  fr_info :: run_info
  fr_total_samples :: int
  fr_write_error :: "string option"

text \<open>The \<open>.json\<close> companion: what it says about the samples.\<close>

record companion =
  co_file :: fname
  co_total_samples :: int
  co_duration_sec :: rat
  co_start_epoch :: rat
  co_stopped_reason :: string
  co_status :: string
  co_requested_samples :: int
  co_zero_filled :: "gap list"
  co_zero_filled_samples :: int
  co_grid_rows :: int

record writer =
  wr_budget :: int
  wr_in_flight :: int
  wr_q :: "witem list"
  wr_enq :: "run_key \<Rightarrow> enqueued option"
  wr_alive :: bool
  wr_files :: "(run_key \<times> open_file) list"
  wr_disk :: "(fname \<times> iq) list"
  wr_companions :: "companion list"
  wr_finished :: "finished list"
  wr_io :: nat

definition writer_new :: "int \<Rightarrow> (fname \<times> iq) list \<Rightarrow> writer" where
  "writer_new budget disk = \<lparr>wr_budget = budget, wr_in_flight = 0, wr_q = [], wr_enq = (\<lambda>_. None),
     wr_alive = False, wr_files = [], wr_disk = disk, wr_companions = [], wr_finished = [], wr_io = 0\<rparr>"

definition put :: "witem \<Rightarrow> writer \<Rightarrow> writer" where
  "put i w = w\<lparr>wr_q := wr_q w @ [i]\<rparr>"

text \<open>Bytes of a block of samples (SC16, four bytes) and of grid rows (float32).\<close>

definition iq_bytes :: "iq \<Rightarrow> int" where "iq_bytes d = 4 * int (length d)"
definition grid_bytes :: "grid \<Rightarrow> int" where "grid_bytes g = 4 * int (length (concat g))"

section \<open>Producers\<close>

definition writer_start :: "writer \<Rightarrow> writer" where
  "writer_start w = (if wr_alive w then w else w\<lparr>wr_alive := True, wr_files := []\<rparr>)"

definition writer_stop :: "writer \<Rightarrow> writer" where
  "writer_stop w = (if wr_alive w then put WStop w else w)"

definition writer_open :: "run_key \<Rightarrow> fname \<Rightarrow> run_spec \<Rightarrow> writer \<Rightarrow> writer" where
  "writer_open key path spec w =
     put (WOpen key path spec) (w\<lparr>wr_enq := (wr_enq w)(key := Some \<lparr>eq_pos = 0, eq_refused = []\<rparr>)\<rparr>)"

definition note_refused :: "int \<Rightarrow> enqueued \<Rightarrow> enqueued" where
  "note_refused n e = e\<lparr>eq_refused :=
     (if eq_refused e \<noteq> [] \<and> fst (last (eq_refused e)) + snd (last (eq_refused e)) = eq_pos e
      then butlast (eq_refused e) @ [(fst (last (eq_refused e)), snd (last (eq_refused e)) + n)]
      else eq_refused e @ [(eq_pos e, n)])\<rparr>"

text \<open>The loop of \<open>put_ops\<close>: the run's view, the writer and the samples refused.\<close>

fun put_ops_loop :: "run_key \<Rightarrow> cut_op list \<Rightarrow> enqueued \<Rightarrow> writer \<Rightarrow> int \<Rightarrow> enqueued \<times> writer \<times> int" where
  "put_ops_loop key [] e w refused = (e, w, refused)"
| "put_ops_loop key (IQ data # ops) e w refused =
     (if wr_in_flight w + iq_bytes data \<le> wr_budget w
      then put_ops_loop key ops (e\<lparr>eq_pos := eq_pos e + int (length data)\<rparr>)
             (put (WIq key data) (w\<lparr>wr_in_flight := wr_in_flight w + iq_bytes data\<rparr>)) refused
      else put_ops_loop key ops ((note_refused (int (length data)) e)\<lparr>eq_pos := eq_pos e + int (length data)\<rparr>)
             (put (WZeros key (int (length data))) w) (refused + int (length data)))"
| "put_ops_loop key (Zeros n # ops) e w refused =
     put_ops_loop key ops (e\<lparr>eq_pos := eq_pos e + n\<rparr>) (put (WZeros key n) w) refused"

definition put_ops :: "run_key \<Rightarrow> cut_op list \<Rightarrow> writer \<Rightarrow> int \<times> writer" where
  "put_ops key ops w = (case wr_enq w key of None \<Rightarrow> (0, w)
     | Some e \<Rightarrow> (let (e, w, refused) = put_ops_loop key ops e w 0
                  in (refused, w\<lparr>wr_enq := (wr_enq w)(key := Some e)\<rparr>)))"

definition put_grid :: "run_key \<Rightarrow> grid \<Rightarrow> grid_meta \<Rightarrow> writer \<Rightarrow> bool \<times> writer" where
  "put_grid key rows meta w =
     (if wr_enq w key = None \<or> concat rows = [] then (False, w)
      else if wr_budget w < wr_in_flight w + grid_bytes rows then (False, w)
      else (True, put (WGrid key rows meta) (w\<lparr>wr_in_flight := wr_in_flight w + grid_bytes rows\<rparr>)))"

definition writer_close :: "run_key \<Rightarrow> run_info \<Rightarrow> writer \<Rightarrow> writer" where
  "writer_close key info w = (case wr_enq w key of None \<Rightarrow> w
     | Some e \<Rightarrow> put (WClose key (info\<lparr>ri_writer_refused := eq_refused e\<rparr>))
                   (w\<lparr>wr_enq := (wr_enq w)(key := None)\<rparr>))"

section \<open>Opening a file under a new name\<close>

fun dec :: "nat \<Rightarrow> string" where
  "dec n = (if n < 10 then [digit_char n] else dec (n div 10) @ [digit_char (n mod 10)])"

declare dec.simps [simp del]

definition numbered :: "fname \<Rightarrow> nat \<Rightarrow> fname" where
  "numbered path i = (fst path @ ''-'' @ dec i, snd path)"

lemma digit_char_inj: "a < 10 \<Longrightarrow> b < 10 \<Longrightarrow> digit_char a = digit_char b \<Longrightarrow> a = b"
  by (metis char_digit_digit_char option.inject)

lemma dec_nonempty: "dec n \<noteq> []"
  by (subst dec.simps) simp

lemma dec_inj: "dec a = dec b \<Longrightarrow> a = b"
proof (induction a arbitrary: b rule: less_induct)
  case (less a)
  show ?case
  proof (cases "a < 10")
    case True
    then have da: "dec a = [digit_char a]" by (subst dec.simps) simp
    show ?thesis
    proof (cases "b < 10")
      case True
      then show ?thesis using less.prems \<open>a < 10\<close> digit_char_inj [of a b] da by (simp add: dec.simps [of b])
    next
      case False
      then have "dec b = dec (b div 10) @ [digit_char (b mod 10)]" by (subst dec.simps) simp
      then show ?thesis using less.prems da dec_nonempty [of "b div 10"] by simp
    qed
  next
    case False
    then have da: "dec a = dec (a div 10) @ [digit_char (a mod 10)]" by (subst dec.simps) simp
    show ?thesis
    proof (cases "b < 10")
      case True
      then have "dec b = [digit_char b]" by (subst dec.simps) simp
      then show ?thesis using less.prems da dec_nonempty [of "a div 10"] by simp
    next
      case False
      then have "dec b = dec (b div 10) @ [digit_char (b mod 10)]" by (subst dec.simps) simp
      then have "dec (a div 10) = dec (b div 10)" "digit_char (a mod 10) = digit_char (b mod 10)"
        using less.prems da by auto
      then have "a div 10 = b div 10" "a mod 10 = b mod 10"
        using less.IH [of "a div 10"] \<open>\<not> a < 10\<close> digit_char_inj [of "a mod 10" "b mod 10"] by auto
      then show ?thesis by (metis div_mult_mod_eq)
    qed
  qed
qed

lemma numbered_inj: "numbered p i = numbered p j \<Longrightarrow> i = j"
  by (auto simp: numbered_def intro: dec_inj)

text \<open>
  The names are tried in turn until one is free; an error other than an existing
  file ends the search. It ends because the disk holds finitely many files.
\<close>

function open_name :: "io_oracle \<Rightarrow> (fname \<times> iq) list \<Rightarrow> fname \<Rightarrow> nat \<Rightarrow> fname \<Rightarrow> nat \<Rightarrow> (string option \<times> fname \<times> nat)" where
  "open_name io disk path i p n = (case io n of
       Some (e, _) \<Rightarrow> (Some e, p, n + 1)
     | None \<Rightarrow> if p \<in> fst ` set disk then open_name io disk path (i + 1) (numbered path (i + 1)) (n + 1)
               else (None, p, n + 1))"
  by pat_completeness auto
termination
proof (relation "measure (\<lambda>(io, disk, path, i, p, n).
    card {j. i < j \<and> numbered path j \<in> fst ` set disk} + (if p \<in> fst ` set disk then 1 else 0))", goal_cases)
  case (2 io disk path i p n)
  have fin: "finite {j. i < j \<and> numbered path j \<in> fst ` set disk}"
  proof (rule finite_imageD)
    show "finite (numbered path ` {j. i < j \<and> numbered path j \<in> fst ` set disk})"
      by (rule finite_subset [of _ "fst ` set disk"]) (blast, simp)
    show "inj_on (numbered path) {j. i < j \<and> numbered path j \<in> fst ` set disk}"
      by (auto simp: inj_on_def dest: numbered_inj)
  qed
  let ?next = "numbered path (i + 1)"
  let ?A = "{j. i < j \<and> numbered path j \<in> fst ` set disk}"
  let ?B = "{j. i + 1 < j \<and> numbered path j \<in> fst ` set disk}"
  have "card ?B + (if ?next \<in> fst ` set disk then 1 else 0) \<le> card ?A"
  proof (cases "?next \<in> fst ` set disk")
    case True
    then have "insert (i + 1) ?B \<subseteq> ?A" by auto
    moreover have "card (insert (i + 1) ?B) = card ?B + 1"
      using fin by (subst card_insert_disjoint) (auto intro: finite_subset [of _ ?A])
    ultimately show ?thesis using True card_mono [OF fin, of "insert (i + 1) ?B"] by simp
  next
    case False
    then show ?thesis using fin by (auto intro!: card_mono)
  qed
  then show ?case using 2 by auto
qed auto

declare open_name.simps [simp del]

definition open_files :: "io_oracle \<Rightarrow> fname \<Rightarrow> run_spec \<Rightarrow> writer \<Rightarrow> open_file \<times> writer" where
  "open_files io path spec w =
     (let (err, p, n) = open_name io (wr_disk w) path 1 path (wr_io w);
          st = \<lparr>of_path = p, of_spec = spec, of_fh = (err = None), of_grid_fh = False, of_grid = [],
                of_grid_meta = None, of_error = err\<rparr>
      in (st, w\<lparr>wr_disk := (if err = None then wr_disk w @ [(p, [])] else wr_disk w), wr_io := n\<rparr>))"

section \<open>The writer thread\<close>

definition disk_file :: "writer \<Rightarrow> fname \<Rightarrow> iq" where
  "disk_file w p = (case map_of (wr_disk w) p of None \<Rightarrow> [] | Some d \<Rightarrow> d)"

text \<open>One write to a run's file; a failing one leaves part of the data and the error.\<close>

definition write_samples :: "io_oracle \<Rightarrow> iq \<Rightarrow> open_file \<times> writer \<Rightarrow> open_file \<times> writer" where
  "write_samples io data = (\<lambda>(st, w).
     if \<not> of_fh st \<or> of_error st \<noteq> None then (st, w)
     else case io (wr_io w) of
       None \<Rightarrow> (st, w\<lparr>wr_disk := dict_set (of_path st) (disk_file w (of_path st) @ data) (wr_disk w),
                      wr_io := wr_io w + 1\<rparr>)
     | Some (e, k) \<Rightarrow> (st\<lparr>of_error := Some e\<rparr>,
           w\<lparr>wr_disk := dict_set (of_path st) (disk_file w (of_path st) @ take k data) (wr_disk w),
              wr_io := wr_io w + 1\<rparr>))"

definition ZERO_BLOCK :: int where "ZERO_BLOCK = 262144"

text \<open>Zeros are written in blocks.\<close>

function write_zeros :: "io_oracle \<Rightarrow> int \<Rightarrow> open_file \<times> writer \<Rightarrow> open_file \<times> writer" where
  "write_zeros io left s =
     (if left \<le> 0 then s
      else write_zeros io (left - min left ZERO_BLOCK) (write_samples io (zeros (min left ZERO_BLOCK)) s))"
  by pat_completeness auto
termination
  by (relation "measure (\<lambda>(_, left, _). nat left)") (auto simp: ZERO_BLOCK_def min_def)

declare write_zeros.simps [simp del]

definition write_grid :: "io_oracle \<Rightarrow> grid \<Rightarrow> grid_meta \<Rightarrow> open_file \<times> writer \<Rightarrow> open_file \<times> writer" where
  "write_grid io rows meta = (\<lambda>(st, w).
     if of_error st \<noteq> None then (st, w)
     else
       let opens = \<not> of_grid_fh st; n = wr_io w
       in if opens \<and> io n \<noteq> None then (st, w\<lparr>wr_io := n + 1\<rparr>)
          else
            let st = (if opens then st\<lparr>of_grid_fh := True, of_grid_meta := Some meta\<rparr> else st);
                n = (if opens then n + 1 else n)
            in if io n \<noteq> None then (st, w\<lparr>wr_io := n + 1\<rparr>)
               else (st\<lparr>of_grid := of_grid st @ rows\<rparr>, w\<lparr>wr_io := n + 1\<rparr>))"

text \<open>Closing a handle; an error then loses the last samples that were buffered.\<close>

definition close_fh :: "io_oracle \<Rightarrow> open_file \<times> writer \<Rightarrow> open_file \<times> writer" where
  "close_fh io = (\<lambda>(st, w).
     if \<not> of_fh st then (st, w)
     else case io (wr_io w) of None \<Rightarrow> (st, w\<lparr>wr_io := wr_io w + 1\<rparr>)
     | Some (e, k) \<Rightarrow> (st\<lparr>of_error := Some (case of_error st of None \<Rightarrow> e | Some e' \<Rightarrow> e')\<rparr>,
         w\<lparr>wr_disk := dict_set (of_path st)
               (take (length (disk_file w (of_path st)) - k) (disk_file w (of_path st))) (wr_disk w),
            wr_io := wr_io w + 1\<rparr>))"

definition close_grid_fh :: "io_oracle \<Rightarrow> open_file \<times> writer \<Rightarrow> open_file \<times> writer" where
  "close_grid_fh io = (\<lambda>(st, w).
     if \<not> of_grid_fh st then (st, w)
     else (case io (wr_io w) of None \<Rightarrow> st
           | Some (e, k) \<Rightarrow> st\<lparr>of_error := Some (case of_error st of None \<Rightarrow> e | Some e' \<Rightarrow> e')\<rparr>,
         w\<lparr>wr_io := wr_io w + 1\<rparr>))"

definition final_status :: "run_spec \<Rightarrow> run_info \<Rightarrow> int \<Rightarrow> string" where
  "final_status spec info t =
     (let st = (case ri_status info of None \<Rightarrow> ''partial'' | Some st \<Rightarrow> if st = [] then ''partial'' else st)
      in if st = ''recorded'' \<and> ((\<Sum>(_, n) \<leftarrow> ri_gaps info @ ri_writer_refused info. n) \<noteq> 0 \<or> t \<noteq> rs_n_samples spec)
         then ''partial'' else st)"

definition round_places :: "nat \<Rightarrow> rat \<Rightarrow> rat" where
  "round_places k x = of_int (py_round (x * 10 ^ k)) / 10 ^ k"

definition write_companions ::
  "io_oracle \<Rightarrow> run_info \<Rightarrow> int \<Rightarrow> open_file \<times> writer \<Rightarrow> run_info \<times> open_file \<times> writer" where
  "write_companions io info t = (\<lambda>(st, w).
     let spec = of_spec st; rate = rs_rate_hz spec;
         zero = sort (ri_gaps info @ ri_writer_refused info);
         status = final_status spec info t;
         info = info\<lparr>ri_status := Some status\<rparr>;
         co = \<lparr>co_file = of_path st, co_total_samples = t,
               co_duration_sec = (if 0 < rate then round_places 6 (of_int t / rate) else 0),
               co_start_epoch = (case ri_first_sample_epoch info of Some f \<Rightarrow> f
                                 | None \<Rightarrow> of_int (rs_start_ms spec) / 1000),
               co_stopped_reason = (case ri_reason info of Some r \<Rightarrow> if r = [] then ''complete'' else r
                                    | None \<Rightarrow> ''complete''),
               co_status = status, co_requested_samples = rs_n_samples spec,
               co_zero_filled = zero, co_zero_filled_samples = (\<Sum>(_, n) \<leftarrow> zero. n),
               co_grid_rows = int (length (of_grid st))\<rparr>
     in case io (wr_io w) of Some (e, _) \<Rightarrow> (info, st\<lparr>of_error := Some e\<rparr>, w\<lparr>wr_io := wr_io w + 1\<rparr>)
        | None \<Rightarrow> (info, st, w\<lparr>wr_companions := wr_companions w @ [co], wr_io := wr_io w + 1\<rparr>))"

definition finish :: "io_oracle \<Rightarrow> run_key \<Rightarrow> run_info \<Rightarrow> open_file \<times> writer \<Rightarrow> writer" where
  "finish io key info s =
     (let (st, w) = close_grid_fh io (close_fh io s);
          t = (if \<not> of_fh st then 0 else if io (wr_io w) \<noteq> None then 0
               else int (length (disk_file w (of_path st))));
          w = (if of_fh st then w\<lparr>wr_io := wr_io w + 1\<rparr> else w);
          (info, st, w) = (if of_error st = None then write_companions io info t (st, w) else (info, st, w))
      in w\<lparr>wr_finished := wr_finished w @ [\<lparr>fr_key = key, fr_path = of_path st, fr_spec = of_spec st,
           fr_info = info, fr_total_samples = t, fr_write_error = of_error st\<rparr>]\<rparr>)"

definition finish_all :: "io_oracle \<Rightarrow> writer \<Rightarrow> writer" where
  "finish_all io w = (let files = wr_files w in
     (fold (\<lambda>(key, st) w. finish io key info_stopped (st, w)) files (w\<lparr>wr_files := []\<rparr>))\<lparr>wr_alive := False\<rparr>)"

definition set_file :: "run_key \<Rightarrow> open_file \<times> writer \<Rightarrow> writer" where
  "set_file key = (\<lambda>(st, w). w\<lparr>wr_files := dict_set key st (wr_files w)\<rparr>)"

text \<open>The loop handles the next item; without one it waits.\<close>

definition handle :: "io_oracle \<Rightarrow> witem \<Rightarrow> writer \<Rightarrow> writer" where
  "handle io i w = (case i of
     WStop \<Rightarrow> finish_all io w
   | WOpen key path spec \<Rightarrow> set_file key (open_files io path spec w)
   | WIq key data \<Rightarrow>
       (let w = w\<lparr>wr_in_flight := wr_in_flight w - iq_bytes data\<rparr>
        in case map_of (wr_files w) key of None \<Rightarrow> w | Some st \<Rightarrow> set_file key (write_samples io data (st, w)))
   | WZeros key n \<Rightarrow>
       (case map_of (wr_files w) key of None \<Rightarrow> w | Some st \<Rightarrow> set_file key (write_zeros io n (st, w)))
   | WGrid key rows meta \<Rightarrow>
       (let w = w\<lparr>wr_in_flight := wr_in_flight w - grid_bytes rows\<rparr>
        in case map_of (wr_files w) key of None \<Rightarrow> w | Some st \<Rightarrow> set_file key (write_grid io rows meta (st, w)))
   | WClose key info \<Rightarrow>
       (case map_of (wr_files w) key of None \<Rightarrow> w
        | Some st \<Rightarrow> finish io key info (st, w\<lparr>wr_files := dict_del key (wr_files w)\<rparr>)))"

definition writer_step :: "io_oracle \<Rightarrow> writer \<Rightarrow> writer" where
  "writer_step io w = (if \<not> wr_alive w then w else case wr_q w of [] \<Rightarrow> w
     | i # q \<Rightarrow> handle io i (w\<lparr>wr_q := q\<rparr>))"

section \<open>What the operations leave alone\<close>

definition same_but_disk :: "writer \<Rightarrow> writer \<Rightarrow> bool" where
  "same_but_disk w w' \<longleftrightarrow> wr_q w' = wr_q w \<and> wr_enq w' = wr_enq w \<and> wr_in_flight w' = wr_in_flight w \<and>
     wr_budget w' = wr_budget w \<and> wr_alive w' = wr_alive w \<and> wr_files w' = wr_files w \<and>
     wr_finished w' = wr_finished w"

definition disk_only :: "fname \<Rightarrow> writer \<Rightarrow> writer \<Rightarrow> bool" where
  "disk_only p w w' \<longleftrightarrow> (\<forall>p'. p' \<noteq> p \<longrightarrow> map_of (wr_disk w') p' = map_of (wr_disk w) p') \<and>
     (map_of (wr_disk w) p \<noteq> None \<longrightarrow> map_of (wr_disk w') p \<noteq> None)"

lemma same_but_disk_refl: "same_but_disk w w"
  and same_but_disk_trans: "same_but_disk w w' \<Longrightarrow> same_but_disk w' w'' \<Longrightarrow> same_but_disk w w''"
  by (simp_all add: same_but_disk_def)

lemma disk_only_refl: "disk_only p w w"
  and disk_only_trans: "disk_only p w w' \<Longrightarrow> disk_only p w' w'' \<Longrightarrow> disk_only p w w''"
  by (auto simp: disk_only_def)

lemma disk_file_only: "disk_only p w w' \<Longrightarrow> p' \<noteq> p \<Longrightarrow> disk_file w' p' = disk_file w p'"
  unfolding disk_only_def disk_file_def by metis

text \<open>
  An operation on an open file: it keeps the file's name and handle, an error is
  never forgotten, and without an error the file grew by \<open>d\<close>.
\<close>

definition file_op :: "iq \<Rightarrow> open_file \<times> writer \<Rightarrow> open_file \<times> writer \<Rightarrow> bool" where
  "file_op d s s' \<longleftrightarrow> of_path (fst s') = of_path (fst s) \<and> of_fh (fst s') = of_fh (fst s) \<and>
     of_spec (fst s') = of_spec (fst s) \<and>
     same_but_disk (snd s) (snd s') \<and>
     (if of_fh (fst s) then disk_only (of_path (fst s)) (snd s) (snd s') else wr_disk (snd s') = wr_disk (snd s)) \<and>
     (of_error (fst s') = None \<longrightarrow> of_error (fst s) = None \<and>
        (of_fh (fst s) \<longrightarrow> disk_file (snd s') (of_path (fst s)) = disk_file (snd s) (of_path (fst s)) @ d))"

lemma file_op_trans: "file_op d s s' \<Longrightarrow> file_op d' s' s'' \<Longrightarrow> file_op (d @ d') s s''"
  by (auto simp: file_op_def intro: same_but_disk_trans disk_only_trans)

lemma file_op_refl: "file_op [] s s"
  by (simp add: file_op_def same_but_disk_refl disk_only_refl)

lemma write_samples_op: "file_op d s (write_samples io d s)"
  by (cases s) (auto simp: file_op_def write_samples_def same_but_disk_def disk_only_def disk_file_def
      map_of_dict_set split: option.splits)

lemma write_zeros_op: "file_op (zeros n) s (write_zeros io n s)"
proof (induction io n s rule: write_zeros.induct)
  case (1 io left s)
  show ?case
  proof (cases "left \<le> 0")
    case True
    then show ?thesis by (simp add: write_zeros.simps [of io left s] file_op_refl)
  next
    case False
    define k where "k = min left ZERO_BLOCK"
    have k: "0 \<le> k" "k \<le> left" using False by (auto simp: k_def ZERO_BLOCK_def)
    have "file_op (zeros k @ zeros (left - k)) s (write_zeros io (left - k) (write_samples io (zeros k) s))"
      using file_op_trans [OF write_samples_op 1 [OF False, folded k_def]] .
    then show ?thesis
      using False k by (simp add: write_zeros.simps [of io left s] zeros_add [symmetric] k_def [symmetric])
  qed
qed

lemma write_grid_op: "file_op [] s (write_grid io rows meta s)"
  by (cases s) (auto simp: file_op_def write_grid_def same_but_disk_def disk_only_def disk_file_def Let_def)

section \<open>The queue never holds more than the budget\<close>

fun item_bytes :: "witem \<Rightarrow> int" where
  "item_bytes (WIq _ d) = iq_bytes d"
| "item_bytes (WGrid _ g _) = grid_bytes g"
| "item_bytes _ = 0"

definition accounted_bytes :: "writer \<Rightarrow> bool" where
  "accounted_bytes w \<longleftrightarrow> wr_in_flight w = (\<Sum>i \<leftarrow> wr_q w. item_bytes i) \<and> wr_in_flight w \<le> max 0 (wr_budget w)"

datatype writer_event =
  WrStart | WrStop
| WrOpen run_key fname run_spec
| WrOps run_key "cut_op list"
| WrGrid run_key grid grid_meta
| WrClose run_key run_info
| WrStep

fun writer_do :: "io_oracle \<Rightarrow> writer_event \<Rightarrow> writer \<Rightarrow> writer" where
  "writer_do io WrStart w = writer_start w"
| "writer_do io WrStop w = writer_stop w"
| "writer_do io (WrOpen key path spec) w = writer_open key path spec w"
| "writer_do io (WrOps key ops) w = snd (put_ops key ops w)"
| "writer_do io (WrGrid key rows meta) w = snd (put_grid key rows meta w)"
| "writer_do io (WrClose key info) w = writer_close key info w"
| "writer_do io WrStep w = writer_step io w"

definition writer_run :: "io_oracle \<Rightarrow> writer_event list \<Rightarrow> writer \<Rightarrow> writer" where
  "writer_run io evs w = fold (writer_do io) evs w"

lemma close_fh_same: "same_but_disk (snd s) (snd (close_fh io s)) \<and> of_path (fst (close_fh io s)) = of_path (fst s) \<and>
    of_fh (fst (close_fh io s)) = of_fh (fst s) \<and> of_spec (fst (close_fh io s)) = of_spec (fst s)"
  by (cases s) (simp add: close_fh_def same_but_disk_def split: option.splits)

lemma close_grid_fh_same: "same_but_disk (snd s) (snd (close_grid_fh io s)) \<and> wr_disk (snd (close_grid_fh io s)) = wr_disk (snd s) \<and>
    of_path (fst (close_grid_fh io s)) = of_path (fst s) \<and> of_fh (fst (close_grid_fh io s)) = of_fh (fst s) \<and>
    of_spec (fst (close_grid_fh io s)) = of_spec (fst s)"
  by (cases s) (simp add: close_grid_fh_def same_but_disk_def split: option.splits)

lemma write_companions_same:
  "write_companions io info t (st, w) = (info', st', w') \<Longrightarrow> same_but_disk w w' \<and> wr_disk w' = wr_disk w \<and>
     of_path st' = of_path st \<and> of_spec st' = of_spec st \<and> ri_writer_refused info' = ri_writer_refused info \<and>
     ri_gaps info' = ri_gaps info"
  by (auto simp: write_companions_def Let_def same_but_disk_def split: option.splits)

text \<open>What finishing a file leaves: one more finished run, about that file.\<close>

lemma finish_shape:
  obtains w1 f where "finish io key info (st, w) = w1\<lparr>wr_finished := wr_finished w @ [f]\<rparr>"
    "same_but_disk w w1" "fr_key f = key" "fr_path f = of_path st" "fr_spec f = of_spec st"
    "ri_writer_refused (fr_info f) = ri_writer_refused info"
    "wr_disk w1 = wr_disk (snd (close_fh io (st, w)))"
    "fr_total_samples f = 0 \<or> fr_total_samples f = int (length (disk_file w1 (of_path st)))"
    "fr_write_error f = None \<longrightarrow> of_error (fst (close_grid_fh io (close_fh io (st, w)))) = None"
proof -
  obtain st2 w2 where c: "close_grid_fh io (close_fh io (st, w)) = (st2, w2)" by fastforce
  have c2: "same_but_disk w w2" "wr_disk w2 = wr_disk (snd (close_fh io (st, w)))" "of_path st2 = of_path st"
    "of_fh st2 = of_fh st" "of_spec st2 = of_spec st"
    using close_fh_same [of "(st, w)" io] close_grid_fh_same [of "close_fh io (st, w)" io] c
    by (auto intro: same_but_disk_trans)
  define t where "t = (if \<not> of_fh st2 then 0 else if io (wr_io w2) \<noteq> None then 0
               else int (length (disk_file w2 (of_path st2))))"
  define w3 where "w3 = (if of_fh st2 then w2\<lparr>wr_io := wr_io w2 + 1\<rparr> else w2)"
  have w3: "same_but_disk w2 w3" "wr_disk w3 = wr_disk w2" by (simp_all add: w3_def same_but_disk_def)
  obtain info4 st4 w4 where d: "(if of_error st2 = None then write_companions io info t (st2, w3) else (info, st2, w3)) = (info4, st4, w4)"
    by (metis surj_pair)
  have d2: "same_but_disk w3 w4 \<and> wr_disk w4 = wr_disk w3 \<and> of_path st4 = of_path st2 \<and> of_spec st4 = of_spec st2 \<and>
      ri_writer_refused info4 = ri_writer_refused info \<and> (of_error st2 \<noteq> None \<longrightarrow> of_error st4 \<noteq> None)"
  proof (cases "of_error st2 = None")
    case True
    then show ?thesis using write_companions_same [of io info t st2 w3 info4 st4 w4] d by simp
  next
    case False
    then show ?thesis using d by (auto simp: same_but_disk_refl)
  qed
  define f where "f = \<lparr>fr_key = key, fr_path = of_path st4, fr_spec = of_spec st4,
           fr_info = info4, fr_total_samples = t, fr_write_error = of_error st4\<rparr>"
  have fin: "finish io key info (st, w) = w4\<lparr>wr_finished := wr_finished w4 @ [f]\<rparr>"
    unfolding finish_def c Let_def case_prod_conv t_def [symmetric] w3_def [symmetric] d f_def ..
  have all: "same_but_disk w w4" using c2(1) w3(1) d2 same_but_disk_trans by blast
  then have "wr_finished w4 = wr_finished w" by (simp add: same_but_disk_def)
  moreover have "t = 0 \<or> t = int (length (disk_file w4 (of_path st)))"
    using d2 w3(2) c2(3) by (simp add: t_def disk_file_def)
  moreover have "of_error st2 = None" if "of_error st4 = None" using d2 that by (cases "of_error st2") auto
  ultimately show thesis
    using that [of f w4] fin all d2 c2 w3(2) c by (simp add: f_def)
qed

lemma finish_frame:
  "wr_q (finish io key info (st, w)) = wr_q w \<and> wr_enq (finish io key info (st, w)) = wr_enq w \<and>
   wr_in_flight (finish io key info (st, w)) = wr_in_flight w \<and> wr_budget (finish io key info (st, w)) = wr_budget w \<and>
   wr_alive (finish io key info (st, w)) = wr_alive w \<and> wr_files (finish io key info (st, w)) = wr_files w"
  by (rule finish_shape [of io key info st w]) (simp add: same_but_disk_def)

lemma finish_fold_frame:
  "wr_q (fold (\<lambda>(key, st) w. finish io key info (st, w)) files w) = wr_q w \<and>
   wr_enq (fold (\<lambda>(key, st) w. finish io key info (st, w)) files w) = wr_enq w \<and>
   wr_in_flight (fold (\<lambda>(key, st) w. finish io key info (st, w)) files w) = wr_in_flight w \<and>
   wr_budget (fold (\<lambda>(key, st) w. finish io key info (st, w)) files w) = wr_budget w"
  by (induction files arbitrary: w) (auto simp: finish_frame)

lemma open_files_frame:
  "open_files io path spec w = (st, w') \<Longrightarrow> same_but_disk w w'"
  by (auto simp: open_files_def same_but_disk_def Let_def split: prod.splits)

lemma set_file_op_frame:
  assumes "file_op d (st, w) s"
  shows "wr_q (set_file key s) = wr_q w \<and> wr_enq (set_file key s) = wr_enq w \<and>
    wr_in_flight (set_file key s) = wr_in_flight w \<and> wr_budget (set_file key s) = wr_budget w"
  using assms by (cases s) (simp add: set_file_def file_op_def same_but_disk_def)

lemma handle_frame:
  "wr_q (handle io i w) = wr_q w \<and> wr_enq (handle io i w) = wr_enq w \<and> wr_budget (handle io i w) = wr_budget w \<and>
   wr_in_flight (handle io i w) = wr_in_flight w - item_bytes i"
proof (cases i)
  case (WOpen key path spec)
  obtain st w' where o: "open_files io path spec w = (st, w')" by fastforce
  from open_files_frame [OF o] show ?thesis
    by (simp add: WOpen handle_def o set_file_def same_but_disk_def)
next
  case (WIq key d)
  then show ?thesis
    using set_file_op_frame [OF write_samples_op [of d "(_, w\<lparr>wr_in_flight := wr_in_flight w - iq_bytes d\<rparr>)" io], of key]
    by (simp add: handle_def Let_def split: option.splits)
next
  case (WZeros key n)
  then show ?thesis
    using set_file_op_frame [OF write_zeros_op [of n "(_, w)" io], of key]
    by (simp add: handle_def split: option.splits)
next
  case (WGrid key rows meta)
  then show ?thesis
    using set_file_op_frame [OF write_grid_op [of "(_, w\<lparr>wr_in_flight := wr_in_flight w - grid_bytes rows\<rparr>)" io rows meta], of key]
    by (simp add: handle_def Let_def split: option.splits)
next
  case (WClose key info)
  then show ?thesis by (simp add: handle_def finish_frame split: option.splits)
next
  case WStop
  then show ?thesis by (simp add: handle_def finish_all_def Let_def finish_fold_frame)
qed

lemma put_ops_loop_bytes:
  "put_ops_loop key ops e w n = (e', w', n') \<Longrightarrow> accounted_bytes w \<Longrightarrow> accounted_bytes w' \<and> wr_budget w' = wr_budget w"
  by (induction key ops e w n rule: put_ops_loop.induct)
    (auto simp: accounted_bytes_def put_def max_def split: if_splits)

lemma accounted_bytes_event: "accounted_bytes w \<Longrightarrow> accounted_bytes (writer_do io ev w)"
proof (cases ev)
  case (WrOps key ops)
  assume a: "accounted_bytes w"
  show ?thesis
  proof (cases "wr_enq w key")
    case (Some e)
    obtain e' w' n' where l: "put_ops_loop key ops e w 0 = (e', w', n')" by (metis surj_pair)
    from put_ops_loop_bytes [OF l a] show ?thesis
      by (auto simp: WrOps put_ops_def Some l accounted_bytes_def)
  qed (simp add: WrOps put_ops_def a)
next
  case (WrGrid key rows meta)
  then show "accounted_bytes w \<Longrightarrow> ?thesis" by (auto simp: put_grid_def accounted_bytes_def put_def max_def)
next
  case WrStep
  assume a: "accounted_bytes w"
  show ?thesis
  proof (cases "\<not> wr_alive w \<or> wr_q w = []")
    case True
    then show ?thesis using a by (auto simp: WrStep writer_step_def split: list.splits)
  next
    case False
    then obtain i q where q: "wr_q w = i # q" by (cases "wr_q w") auto
    have "0 \<le> item_bytes i" by (cases i) (simp_all add: iq_bytes_def grid_bytes_def)
    then show ?thesis
      using a False handle_frame [of io i "w\<lparr>wr_q := q\<rparr>"]
      by (simp add: WrStep writer_step_def q accounted_bytes_def)
  qed
qed (auto simp: accounted_bytes_def writer_start_def writer_stop_def writer_open_def writer_close_def put_def
    split: option.splits)

text \<open>
  The writer's memory is bounded. Under every interleaving of the producers and the
  writer thread, and whatever fails on the disk, the bytes accounted as in flight are
  exactly those of the samples and PSD rows waiting in the queue, and never exceed
  the budget.
\<close>

theorem bytes_in_flight_bounded:
  "wr_in_flight (writer_run io evs (writer_new budget disk)) =
     (\<Sum>i \<leftarrow> wr_q (writer_run io evs (writer_new budget disk)). item_bytes i) \<and>
   wr_in_flight (writer_run io evs (writer_new budget disk)) \<le> max 0 budget"
proof -
  have "accounted_bytes w \<Longrightarrow> accounted_bytes (writer_run io evs w)" for w
    unfolding writer_run_def by (induction evs arbitrary: w) (simp_all add: accounted_bytes_event)
  moreover have "accounted_bytes (writer_new budget disk)" by (simp add: accounted_bytes_def writer_new_def)
  moreover have "wr_budget (writer_do io ev w) = wr_budget w" for ev w
  proof (cases ev)
    case (WrOps key ops)
    have "put_ops_loop key ops e w n = (e', w', n') \<Longrightarrow> wr_budget w' = wr_budget w" for e n e' w' n' w
      by (induction key ops e w n rule: put_ops_loop.induct) (auto simp: put_def split: if_splits)
    then show ?thesis by (auto simp: WrOps put_ops_def split: option.splits prod.splits)
  next
    case WrStep
    then show ?thesis by (simp add: writer_step_def handle_frame split: list.splits)
  qed (auto simp: writer_start_def writer_stop_def writer_open_def writer_close_def put_def put_grid_def
      split: option.splits)
  then have "wr_budget (writer_run io evs w) = wr_budget w" for w
    unfolding writer_run_def by (induction evs arbitrary: w) simp_all
  moreover have "wr_budget (writer_new budget disk) = budget" by (simp add: writer_new_def)
  ultimately show ?thesis unfolding accounted_bytes_def by metis
qed

section \<open>What ends up in the file\<close>

text \<open>The samples of a run with the refused stretches set to zero.\<close>

definition in_ranges :: "gap list \<Rightarrow> int \<Rightarrow> bool" where
  "in_ranges gaps i \<longleftrightarrow> list_ex (\<lambda>(p, n). p \<le> i \<and> i < p + n) gaps"

definition blank :: "gap list \<Rightarrow> iq \<Rightarrow> iq" where
  "blank gaps xs = map (\<lambda>i. if in_ranges gaps (int i) then 0 else xs ! i) [0..<length xs]"

definition ranges_ok :: "gap list \<Rightarrow> int \<Rightarrow> bool" where
  "ranges_ok gaps m \<longleftrightarrow> (\<forall>(p, n) \<in> set gaps. 0 \<le> n \<and> p + n \<le> m)"

lemma blank_Nil [simp]: "blank [] xs = xs"
  by (simp add: blank_def in_ranges_def map_nth)

lemma length_blank [simp]: "length (blank gaps xs) = length xs"
  by (simp add: blank_def)

lemma nth_blank: "i < length xs \<Longrightarrow> blank gaps xs ! i = (if in_ranges gaps (int i) then 0 else xs ! i)"
  by (simp add: blank_def)

lemma blank_append:
  assumes "ranges_ok gaps (int (length xs))"
  shows "blank gaps (xs @ d) = blank gaps xs @ d"
proof (rule nth_equalityI)
  fix i assume i: "i < length (blank gaps (xs @ d))"
  show "blank gaps (xs @ d) ! i = (blank gaps xs @ d) ! i"
  proof (cases "i < length xs")
    case False
    then have "\<not> in_ranges gaps (int i)" using assms by (force simp: in_ranges_def list_ex_iff ranges_ok_def)
    then show ?thesis using i False by (simp add: nth_blank nth_append)
  qed (use i in \<open>simp add: nth_blank nth_append\<close>)
qed simp

lemma blank_refuse:
  assumes r: "ranges_ok (eq_refused e) (int (length xs))" and pos: "eq_pos e = int (length xs)"
  shows "blank (eq_refused (note_refused (int (length d)) e)) (xs @ d) = blank (eq_refused e) xs @ zeros (int (length d)) \<and>
    ranges_ok (eq_refused (note_refused (int (length d)) e)) (int (length (xs @ d)))"
proof -
  define g where "g = eq_refused (note_refused (int (length d)) e)"
  have inr: "in_ranges g i \<longleftrightarrow> in_ranges (eq_refused e) i \<or> (int (length xs) \<le> i \<and> i < int (length xs) + int (length d))" for i
  proof (cases "eq_refused e \<noteq> [] \<and> fst (last (eq_refused e)) + snd (last (eq_refused e)) = eq_pos e")
    case True
    then obtain gs p n where gs: "eq_refused e = gs @ [(p, n)]" by (metis append_butlast_last_id surj_pair)
    have "g = gs @ [(p, n + int (length d))]" using True by (simp add: g_def note_refused_def gs)
    moreover have "0 \<le> n" "p + n = int (length xs)" using r pos True by (auto simp: gs ranges_ok_def)
    ultimately show ?thesis by (auto simp: in_ranges_def gs)
  next
    case False
    then have "g = eq_refused e @ [(int (length xs), int (length d))]" by (auto simp: g_def note_refused_def pos)
    then show ?thesis by (simp add: in_ranges_def)
  qed
  have "blank g (xs @ d) ! i = (blank (eq_refused e) xs @ zeros (int (length d))) ! i"
    if "i < length (xs @ d)" for i
    using that by (auto simp: nth_blank nth_append inr zeros_def)
  then have "blank g (xs @ d) = blank (eq_refused e) xs @ zeros (int (length d))"
    by (intro nth_equalityI) auto
  moreover have "ranges_ok g (int (length (xs @ d)))"
  proof (cases "eq_refused e \<noteq> [] \<and> fst (last (eq_refused e)) + snd (last (eq_refused e)) = eq_pos e")
    case True
    then obtain gs p n where gs: "eq_refused e = gs @ [(p, n)]" by (metis append_butlast_last_id surj_pair)
    have "g = gs @ [(p, n + int (length d))]" using True by (simp add: g_def note_refused_def gs)
    then show ?thesis using r pos True by (fastforce simp: ranges_ok_def gs)
  next
    case False
    then have "g = eq_refused e @ [(int (length xs), int (length d))]" by (auto simp: g_def note_refused_def pos)
    then show ?thesis using r by (fastforce simp: ranges_ok_def)
  qed
  ultimately show ?thesis by (simp add: g_def)
qed

fun item_key :: "witem \<Rightarrow> run_key option" where
  "item_key (WOpen k _ _) = Some k"
| "item_key (WIq k _) = Some k"
| "item_key (WZeros k _) = Some k"
| "item_key (WGrid k _ _) = Some k"
| "item_key (WClose k _) = Some k"
| "item_key WStop = None"

fun item_samples :: "witem \<Rightarrow> iq" where
  "item_samples (WIq _ d) = d"
| "item_samples (WZeros _ n) = zeros n"
| "item_samples _ = []"

fun plain :: "witem \<Rightarrow> bool" where
  "plain (WIq _ _) = True"
| "plain (WZeros _ _) = True"
| "plain (WGrid _ _ _) = True"
| "plain _ = False"

definition chan :: "run_key \<Rightarrow> writer \<Rightarrow> witem list" where
  "chan k w = filter (\<lambda>i. item_key i = Some k) (wr_q w)"

definition queued :: "witem list \<Rightarrow> iq" where
  "queued its = concat (map item_samples its)"

definition ops_ok :: "cut_op list \<Rightarrow> bool" where
  "ops_ok ops \<longleftrightarrow> list_all (\<lambda>op. case op of IQ d \<Rightarrow> True | Zeros n \<Rightarrow> 0 \<le> n) ops"

lemma put_ops_loop_line:
  assumes "put_ops_loop k ops e w n = (e', w', n')" "ops_ok ops"
    and "ranges_ok (eq_refused e) (int (length xs))" "eq_pos e = int (length xs)"
  shows "\<exists>its. wr_q w' = wr_q w @ its \<and> list_all plain its \<and> list_all (\<lambda>i. item_key i = Some k) its \<and>
      blank (eq_refused e') (xs @ file_of ops) = blank (eq_refused e) xs @ queued its \<and>
      ranges_ok (eq_refused e') (int (length (xs @ file_of ops))) \<and> eq_pos e' = int (length (xs @ file_of ops)) \<and>
      wr_enq w' = wr_enq w \<and> wr_files w' = wr_files w \<and> wr_disk w' = wr_disk w \<and>
      wr_finished w' = wr_finished w \<and> wr_alive w' = wr_alive w"
  using assms
proof (induction k ops e w n arbitrary: xs rule: put_ops_loop.induct)
  case (1 key e w refused)
  then show ?case by (intro exI [of _ "[]"]) (auto simp: queued_def file_of_def)
next
  case (2 key data ops e w refused)
  have f: "file_of (IQ data # ops) = data @ file_of ops" by (simp add: file_of_def)
  show ?case
  proof (cases "wr_in_flight w + iq_bytes data \<le> wr_budget w")
    case True
    define e1 where "e1 = e\<lparr>eq_pos := eq_pos e + int (length data)\<rparr>"
    define w1 where "w1 = put (WIq key data) (w\<lparr>wr_in_flight := wr_in_flight w + iq_bytes data\<rparr>)"
    have l: "put_ops_loop key ops e1 w1 refused = (e', w', n')"
      using "2.prems"(1) True by (simp add: e1_def w1_def)
    have r: "ranges_ok (eq_refused e1) (int (length (xs @ data)))" "eq_pos e1 = int (length (xs @ data))" "ops_ok ops"
      using "2.prems" by (auto simp: e1_def ranges_ok_def ops_ok_def)
    obtain its where its: "wr_q w' = wr_q w1 @ its" "list_all plain its" "list_all (\<lambda>i. item_key i = Some key) its"
      "blank (eq_refused e') ((xs @ data) @ file_of ops) = blank (eq_refused e1) (xs @ data) @ queued its"
      "ranges_ok (eq_refused e') (int (length ((xs @ data) @ file_of ops)))"
      "eq_pos e' = int (length ((xs @ data) @ file_of ops))"
      "wr_enq w' = wr_enq w1" "wr_files w' = wr_files w1" "wr_disk w' = wr_disk w1" "wr_finished w' = wr_finished w1"
      "wr_alive w' = wr_alive w1"
      using "2.IH"(1) [OF True, folded e1_def w1_def, OF l r(3,1,2)] by blast
    have "blank (eq_refused e1) (xs @ data) = blank (eq_refused e) xs @ data"
      using "2.prems"(3) by (simp add: e1_def blank_append)
    then show ?thesis
      using its by (intro exI [of _ "WIq key data # its"]) (simp add: f w1_def put_def queued_def)
  next
    case False
    define e1 where "e1 = (note_refused (int (length data)) e)\<lparr>eq_pos := eq_pos e + int (length data)\<rparr>"
    define w1 where "w1 = put (WZeros key (int (length data))) w"
    have l: "put_ops_loop key ops e1 w1 (refused + int (length data)) = (e', w', n')"
      using "2.prems"(1) False by (simp add: e1_def w1_def)
    note b = blank_refuse [OF "2.prems"(3,4), of data]
    have r: "ranges_ok (eq_refused e1) (int (length (xs @ data)))" "eq_pos e1 = int (length (xs @ data))" "ops_ok ops"
      using "2.prems" b by (auto simp: e1_def ops_ok_def)
    obtain its where its: "wr_q w' = wr_q w1 @ its" "list_all plain its" "list_all (\<lambda>i. item_key i = Some key) its"
      "blank (eq_refused e') ((xs @ data) @ file_of ops) = blank (eq_refused e1) (xs @ data) @ queued its"
      "ranges_ok (eq_refused e') (int (length ((xs @ data) @ file_of ops)))"
      "eq_pos e' = int (length ((xs @ data) @ file_of ops))"
      "wr_enq w' = wr_enq w1" "wr_files w' = wr_files w1" "wr_disk w' = wr_disk w1" "wr_finished w' = wr_finished w1"
      "wr_alive w' = wr_alive w1"
      using "2.IH"(2) [OF False, folded e1_def w1_def, OF l r(3,1,2)] by blast
    show ?thesis
      using its b by (intro exI [of _ "WZeros key (int (length data)) # its"]) (simp add: f w1_def e1_def put_def queued_def)
  qed
next
  case (3 key m ops e w refused)
  have f: "file_of (Zeros m # ops) = zeros m @ file_of ops" by (simp add: file_of_def)
  have m: "0 \<le> m" "ops_ok ops" using "3.prems"(2) by (simp_all add: ops_ok_def)
  define e1 where "e1 = e\<lparr>eq_pos := eq_pos e + m\<rparr>"
  define w1 where "w1 = put (WZeros key m) w"
  have l: "put_ops_loop key ops e1 w1 refused = (e', w', n')" using "3.prems"(1) by (simp add: e1_def w1_def)
  have r: "ranges_ok (eq_refused e1) (int (length (xs @ zeros m)))" "eq_pos e1 = int (length (xs @ zeros m))"
    using "3.prems" m by (auto simp: e1_def ranges_ok_def)
  obtain its where its: "wr_q w' = wr_q w1 @ its" "list_all plain its" "list_all (\<lambda>i. item_key i = Some key) its"
    "blank (eq_refused e') ((xs @ zeros m) @ file_of ops) = blank (eq_refused e1) (xs @ zeros m) @ queued its"
    "ranges_ok (eq_refused e') (int (length ((xs @ zeros m) @ file_of ops)))"
    "eq_pos e' = int (length ((xs @ zeros m) @ file_of ops))"
    "wr_enq w' = wr_enq w1" "wr_files w' = wr_files w1" "wr_disk w' = wr_disk w1" "wr_finished w' = wr_finished w1"
      "wr_alive w' = wr_alive w1"
    using "3.IH" [folded e1_def w1_def, OF l m(2) r] by blast
  have "blank (eq_refused e1) (xs @ zeros m) = blank (eq_refused e) xs @ zeros m"
    using "3.prems"(3) by (simp add: e1_def blank_append)
  then show ?case
    using its by (intro exI [of _ "WZeros key m # its"]) (simp add: f w1_def put_def queued_def)
qed

text \<open>The writer thread owns the open files: each has a name on the disk of its own.\<close>

definition files_ok :: "fname set \<Rightarrow> writer \<Rightarrow> bool" where
  "files_ok D w \<longleftrightarrow> distinct (map fst (wr_files w)) \<and> D \<subseteq> dom (map_of (wr_disk w)) \<and>
     (\<forall>k st. map_of (wr_files w) k = Some st \<longrightarrow> of_fh st \<longrightarrow> of_path st \<in> dom (map_of (wr_disk w))) \<and>
     WStop \<notin> set (wr_q w)"

lemma files_okD:
  "files_ok D w \<Longrightarrow> map_of (wr_files w) k = Some st \<Longrightarrow> of_fh st \<Longrightarrow> of_path st \<in> dom (map_of (wr_disk w))"
  unfolding files_ok_def by blast

definition protected :: "writer \<Rightarrow> run_key \<Rightarrow> fname \<Rightarrow> bool" where
  "protected w k p \<longleftrightarrow> p \<in> dom (map_of (wr_disk w)) \<and>
     (\<forall>k' st. k' \<noteq> k \<longrightarrow> map_of (wr_files w) k' = Some st \<longrightarrow> of_fh st \<longrightarrow> of_path st \<noteq> p)"

lemma open_name_fresh: "open_name io disk path i p n = (None, p', n') \<Longrightarrow> p' \<notin> fst ` set disk"
proof (induction io disk path i p n rule: open_name.induct)
  case (1 io disk path i p n)
  then show ?case
    by (subst (asm) (2) open_name.simps) (auto split: option.splits if_splits)
qed

lemma dom_disk: "dom (map_of d) = fst ` set d" by (simp add: dom_map_of_conv_image_fst)

lemma disk_only_dom: "disk_only p w w' \<Longrightarrow> dom (map_of (wr_disk w)) \<subseteq> dom (map_of (wr_disk w'))"
  unfolding disk_only_def dom_def by (metis (mono_tags, lifting) mem_Collect_eq subsetI)

text \<open>Opening a file for \<open>k\<close>: under a fresh name, empty.\<close>

lemma open_files_effect:
  assumes o: "open_files io path spec w = (st, w1)"
  shows "(of_error st = None \<longleftrightarrow> of_fh st) \<and>
    (of_fh st \<longrightarrow> of_path st \<notin> dom (map_of (wr_disk w)) \<and> map_of (wr_disk w1) = (map_of (wr_disk w))(of_path st \<mapsto> [])) \<and>
    (\<not> of_fh st \<longrightarrow> wr_disk w1 = wr_disk w)"
proof -
  obtain err p n where op: "open_name io (wr_disk w) path 1 path (wr_io w) = (err, p, n)" by (metis surj_pair)
  have fresh: "p \<notin> dom (map_of (wr_disk w))" if "err = None"
    using open_name_fresh op that by (simp add: dom_disk)
  have "map_of (wr_disk w @ [(p, [])]) = (map_of (wr_disk w))(p \<mapsto> [])" if "err = None"
    using fresh [OF that] by (auto simp: map_add_def fun_eq_iff dom_def split: option.splits)
  then show ?thesis using o fresh by (auto simp: open_files_def op [unfolded One_nat_def] Let_def)
qed

lemma set_file_sel [simp]:
  "wr_disk (set_file k s) = wr_disk (snd s)" "wr_finished (set_file k s) = wr_finished (snd s)"
  "map_of (wr_files (set_file k s)) = (map_of (wr_files (snd s)))(k \<mapsto> fst s)"
  "wr_q (set_file k s) = wr_q (snd s)"
  by (cases s; simp add: set_file_def map_of_dict_set)+

lemma distinct_set_file: "distinct (map fst (wr_files (snd s))) \<Longrightarrow> distinct (map fst (wr_files (set_file k s)))"
  by (cases s) (simp add: set_file_def distinct_dict_set)

text \<open>An operation on the file of another run changes nothing of a run's own files.\<close>

definition other_ok :: "fname set \<Rightarrow> run_key \<Rightarrow> writer \<Rightarrow> writer \<Rightarrow> bool" where
  "other_ok D k w w' \<longleftrightarrow> files_ok D w' \<and> map_of (wr_files w') k = map_of (wr_files w) k \<and>
     (\<forall>p. protected w k p \<longrightarrow> protected w' k p \<and> disk_file w' p = disk_file w p) \<and>
     (\<exists>fs. wr_finished w' = wr_finished w @ fs \<and> (\<forall>f \<in> set fs. fr_key f \<noteq> k))"

lemma other_ok_file_op:
  assumes g: "files_ok D w" and k: "k' \<noteq> k" "map_of (wr_files w) k' = Some st" and op: "file_op d (st, w) s"
  shows "other_ok D k w (set_file k' s)"
proof -
  obtain st' w' where s: "s = (st', w')" by (cases s)
  have o: "of_path st' = of_path st" "of_fh st' = of_fh st" "same_but_disk w w'"
    "if of_fh st then disk_only (of_path st) w w' else wr_disk w' = wr_disk w"
    using op by (auto simp: file_op_def s)
  have D: "D \<subseteq> dom (map_of (wr_disk w))" using g by (simp only: files_ok_def)
  have dom: "dom (map_of (wr_disk w)) \<subseteq> dom (map_of (wr_disk w'))"
    using o(4) disk_only_dom by (cases "of_fh st") auto
  have files: "map_of (wr_files (set_file k' s)) = (map_of (wr_files w))(k' \<mapsto> st')"
    using o(3) by (simp add: s same_but_disk_def)
  have "files_ok D (set_file k' s)"
    unfolding files_ok_def
  proof (intro conjI allI impI)
    show "distinct (map fst (wr_files (set_file k' s)))"
      using g o(3) by (intro distinct_set_file) (simp add: s files_ok_def same_but_disk_def)
    show "D \<subseteq> dom (map_of (wr_disk (set_file k' s)))" using subset_trans [OF D dom] by (simp add: s)
    show "WStop \<notin> set (wr_q (set_file k' s))" using g o(3) by (simp add: s files_ok_def same_but_disk_def)
    fix j u assume "map_of (wr_files (set_file k' s)) j = Some u" "of_fh u"
    then have "of_path u \<in> dom (map_of (wr_disk w))"
      using files_okD [OF g, of j u] files_okD [OF g k(2)] o(1,2) unfolding files
      by (cases "j = k'") (simp_all del: map_of_eq_Some_iff)
    then show "of_path u \<in> dom (map_of (wr_disk (set_file k' s)))" using dom by (auto simp: s)
  qed
  moreover have "protected (set_file k' s) k p \<and> disk_file (set_file k' s) p = disk_file w p" if p: "protected w k p" for p
  proof -
    have "of_fh st \<Longrightarrow> of_path st \<noteq> p" using p k unfolding protected_def by metis
    then have "disk_file w' p = disk_file w p"
      using o(4) disk_file_only [of "of_path st" w w' p] by (cases "of_fh st") (auto simp: disk_file_def)
    moreover have "protected (set_file k' s) k p"
      using p k o(1,2) dom unfolding protected_def files by (auto simp: s)
    ultimately show ?thesis by (simp add: s disk_file_def)
  qed
  moreover have "wr_finished (set_file k' s) = wr_finished w" using o(3) by (simp add: s same_but_disk_def)
  ultimately show ?thesis using k(1) unfolding other_ok_def files by (auto intro: exI [of _ "[]"])
qed

lemma other_ok_close:
  assumes g: "files_ok D w" and k: "k' \<noteq> k" "map_of (wr_files w) k' = Some st"
  shows "other_ok D k w (finish io k' info (st, w\<lparr>wr_files := dict_del k' (wr_files w)\<rparr>))"
proof -
  define w0 where "w0 = w\<lparr>wr_files := dict_del k' (wr_files w)\<rparr>"
  obtain w1 f where fin: "finish io k' info (st, w0) = w1\<lparr>wr_finished := wr_finished w0 @ [f]\<rparr>"
    "same_but_disk w0 w1" "fr_key f = k'" "wr_disk w1 = wr_disk (snd (close_fh io (st, w0)))"
    by (rule finish_shape) blast
  have disk: "if of_fh st then disk_only (of_path st) w0 w1 else wr_disk w1 = wr_disk w0"
    unfolding fin(4) by (auto simp: close_fh_def disk_only_def fin(4) map_of_dict_set split: option.splits)
  have D: "D \<subseteq> dom (map_of (wr_disk w))" using g by (simp only: files_ok_def)
  have dom: "dom (map_of (wr_disk w)) \<subseteq> dom (map_of (wr_disk w1))"
    using disk disk_only_dom [of "of_path st" w0 w1] by (cases "of_fh st") (auto simp: w0_def)
  have files: "map_of (wr_files w1) = (map_of (wr_files w))(k' := None)"
    using fin(2) by (simp add: same_but_disk_def w0_def map_of_dict_del)
  have "files_ok D (finish io k' info (st, w0))"
    unfolding files_ok_def fin(1)
  proof (intro conjI allI impI)
    show "distinct (map fst (wr_files (w1\<lparr>wr_finished := wr_finished w0 @ [f]\<rparr>)))"
      using g fin(2) by (simp add: files_ok_def same_but_disk_def w0_def distinct_dict_del)
    show "D \<subseteq> dom (map_of (wr_disk (w1\<lparr>wr_finished := wr_finished w0 @ [f]\<rparr>)))"
      using subset_trans [OF D dom] by simp
    show "WStop \<notin> set (wr_q (w1\<lparr>wr_finished := wr_finished w0 @ [f]\<rparr>))"
      using g fin(2) by (simp add: files_ok_def same_but_disk_def w0_def)
    fix j u assume "map_of (wr_files (w1\<lparr>wr_finished := wr_finished w0 @ [f]\<rparr>)) j = Some u" "of_fh u"
    then have "of_path u \<in> dom (map_of (wr_disk w))"
      using files_okD [OF g, of j u] by (cases "j = k'") (simp_all add: files del: map_of_eq_Some_iff)
    then show "of_path u \<in> dom (map_of (wr_disk (w1\<lparr>wr_finished := wr_finished w0 @ [f]\<rparr>)))"
      using dom by auto
  qed
  moreover have "protected (finish io k' info (st, w0)) k p \<and> disk_file (finish io k' info (st, w0)) p = disk_file w p"
    if p: "protected w k p" for p
  proof -
    have "of_fh st \<Longrightarrow> of_path st \<noteq> p" using p k unfolding protected_def by metis
    then have "disk_file w1 p = disk_file w p"
      using disk disk_file_only [of "of_path st" w0 w1 p] by (cases "of_fh st") (auto simp: disk_file_def w0_def)
    moreover have "protected (finish io k' info (st, w0)) k p"
      using p dom unfolding protected_def fin(1) by (auto simp: files split: if_splits)
    ultimately show ?thesis by (simp add: fin(1) disk_file_def)
  qed
  ultimately show ?thesis
    using k fin unfolding other_ok_def w0_def [symmetric] by (auto simp: files w0_def)
qed

lemma other_ok_open:
  assumes g: "files_ok D w" and k: "k' \<noteq> k"
  shows "other_ok D k w (set_file k' (open_files io path spec w))"
proof -
  obtain st w1 where o: "open_files io path spec w = (st, w1)" by fastforce
  note e = open_files_effect [OF o] and f = open_files_frame [OF o]
  have files: "map_of (wr_files (set_file k' (st, w1))) = (map_of (wr_files w))(k' \<mapsto> st)"
    using f by (simp add: same_but_disk_def)
  have D: "D \<subseteq> dom (map_of (wr_disk w))" using g by (simp only: files_ok_def)
  have dom: "dom (map_of (wr_disk w)) \<subseteq> dom (map_of (wr_disk w1))"
    using e by (cases "of_fh st") auto
  have old: "map_of (wr_disk w1) p = map_of (wr_disk w) p" if "p \<in> dom (map_of (wr_disk w))" for p
    using that e by (cases "of_fh st") auto
  have "files_ok D (set_file k' (st, w1))"
    unfolding files_ok_def
  proof (intro conjI allI impI)
    show "distinct (map fst (wr_files (set_file k' (st, w1))))"
      using g f by (intro distinct_set_file) (simp add: files_ok_def same_but_disk_def)
    show "D \<subseteq> dom (map_of (wr_disk (set_file k' (st, w1))))" using subset_trans [OF D dom] by simp
    show "WStop \<notin> set (wr_q (set_file k' (st, w1)))" using g f by (simp add: files_ok_def same_but_disk_def)
    fix j u assume u: "map_of (wr_files (set_file k' (st, w1))) j = Some u" "of_fh u"
    show "of_path u \<in> dom (map_of (wr_disk (set_file k' (st, w1))))"
    proof (cases "j = k'")
      case True
      then have "u = st" using u(1) unfolding files by simp
      then show ?thesis using e u(2) by simp
    next
      case False
      then have "of_path u \<in> dom (map_of (wr_disk w))" using u files_okD [OF g, of j u] unfolding files by (simp del: map_of_eq_Some_iff)
      then show ?thesis using dom by auto
    qed
  qed
  moreover have "protected (set_file k' (st, w1)) k p \<and> disk_file (set_file k' (st, w1)) p = disk_file w p"
    if p: "protected w k p" for p
  proof -
    have d: "p \<in> dom (map_of (wr_disk w))" using p by (simp add: protected_def)
    have "of_fh st \<Longrightarrow> of_path st \<noteq> p" using d e by blast
    then have "protected (set_file k' (st, w1)) k p"
      using p dom unfolding protected_def files by auto
    then show ?thesis using old [OF d] by (simp add: disk_file_def)
  qed
  moreover have "wr_finished (set_file k' (st, w1)) = wr_finished w" using f by (simp add: same_but_disk_def)
  ultimately show ?thesis using k unfolding other_ok_def o files by (auto intro: exI [of _ "[]"])
qed

lemma other_ok_flight: "other_ok D k (w\<lparr>wr_in_flight := x\<rparr>) w' = other_ok D k w w'"
  by (simp add: other_ok_def protected_def disk_file_def)

lemma other_ok_refl: "files_ok D w \<Longrightarrow> other_ok D k w w"
  by (auto simp: other_ok_def intro: exI [of _ "[]"])

lemma files_ok_flight: "files_ok D (w\<lparr>wr_in_flight := x\<rparr>) = files_ok D w"
  by (simp add: files_ok_def)

lemma handle_other:
  assumes g: "files_ok D w" and i: "item_key i \<noteq> Some k" "i \<noteq> WStop"
  shows "other_ok D k w (handle io i w)"
proof (cases i)
  case (WOpen k' path spec)
  then show ?thesis using other_ok_open [OF g] i by (simp add: handle_def)
next
  case (WIq k' d)
  define w0 where "w0 = w\<lparr>wr_in_flight := wr_in_flight w - iq_bytes d\<rparr>"
  have g0: "files_ok D w0" "map_of (wr_files w0) = map_of (wr_files w)" using g by (simp_all add: w0_def files_ok_flight)
  show ?thesis
    using other_ok_file_op [OF g0(1) _ _ write_samples_op, of k' k] other_ok_refl [OF g0(1), of k] i
    by (auto simp: WIq handle_def Let_def w0_def [symmetric] g0(2) split: option.splits)
      (simp_all add: w0_def other_ok_flight)
next
  case (WZeros k' n)
  then show ?thesis
    using other_ok_file_op [OF g _ _ write_zeros_op, of k' k] other_ok_refl [OF g, of k] i
    by (auto simp: handle_def split: option.splits)
next
  case (WGrid k' rows meta)
  define w0 where "w0 = w\<lparr>wr_in_flight := wr_in_flight w - grid_bytes rows\<rparr>"
  have g0: "files_ok D w0" "map_of (wr_files w0) = map_of (wr_files w)" using g by (simp_all add: w0_def files_ok_flight)
  show ?thesis
    using other_ok_file_op [OF g0(1) _ _ write_grid_op, of k' k] other_ok_refl [OF g0(1), of k] i
    by (auto simp: WGrid handle_def Let_def w0_def [symmetric] g0(2) split: option.splits)
      (simp_all add: w0_def other_ok_flight)
next
  case (WClose k' info)
  then show ?thesis
    using other_ok_close [OF g, of k' k] other_ok_refl [OF g, of k] i
    by (auto simp: handle_def split: option.splits)
qed (use i in simp)

text \<open>What the writer thread holds of run \<open>k\<close>, with \<open>its\<close> still in the queue: \<open>ys\<close> when all is written.\<close>

definition live :: "fname set \<Rightarrow> run_key \<Rightarrow> witem list \<Rightarrow> iq \<Rightarrow> writer \<Rightarrow> bool" where
  "live D k its ys w \<longleftrightarrow> (case map_of (wr_files w) k of
     None \<Rightarrow> (\<exists>p sp rest. its = WOpen k p sp # rest \<and> list_all plain rest \<and> ys = queued rest)
   | Some st \<Rightarrow> list_all plain its \<and>
       (of_error st = None \<longrightarrow> of_fh st \<and> of_path st \<notin> D \<and> protected w k (of_path st) \<and>
          ys = disk_file w (of_path st) @ queued its))"

definition writer_ok :: "fname set \<Rightarrow> writer \<Rightarrow> bool" where
  "writer_ok D w \<longleftrightarrow> files_ok D w \<and> (wr_alive w \<or> wr_files w = [])"

definition ended :: "run_key \<Rightarrow> writer \<Rightarrow> finished list" where
  "ended k w = filter (\<lambda>f. fr_key f = k) (wr_finished w)"

text \<open>The finished run \<open>f\<close> is right: its file is \<open>xs\<close> with the refused stretches blank.\<close>

definition right_file :: "fname set \<Rightarrow> iq \<Rightarrow> writer \<Rightarrow> finished \<Rightarrow> bool" where
  "right_file D xs w f \<longleftrightarrow> (fr_write_error f = None \<longrightarrow>
     disk_file w (fr_path f) = blank (ri_writer_refused (fr_info f)) xs \<and> fr_path f \<notin> D \<and>
     fr_total_samples f \<in> {0, int (length xs)})"

definition unopened :: "run_key \<Rightarrow> writer \<Rightarrow> bool" where
  "unopened k w \<longleftrightarrow> wr_enq w k = None \<and> chan k w = [] \<and> map_of (wr_files w) k = None \<and> ended k w = []"

definition recording :: "fname set \<Rightarrow> run_key \<Rightarrow> iq \<Rightarrow> writer \<Rightarrow> bool" where
  "recording D k xs w \<longleftrightarrow> ended k w = [] \<and> (\<exists>e. wr_enq w k = Some e \<and> eq_pos e = int (length xs) \<and>
     ranges_ok (eq_refused e) (int (length xs)) \<and> live D k (chan k w) (blank (eq_refused e) xs) w)"

definition shut :: "fname set \<Rightarrow> run_key \<Rightarrow> iq \<Rightarrow> writer \<Rightarrow> bool" where
  "shut D k xs w \<longleftrightarrow> wr_enq w k = None \<and>
     (if chan k w = []
      then map_of (wr_files w) k = None \<and> (\<exists>f. ended k w = [f] \<and> right_file D xs w f \<and>
        (fr_write_error f = None \<longrightarrow> protected w k (fr_path f)))
      else ended k w = [] \<and> (\<exists>its info. chan k w = its @ [WClose k info] \<and>
        live D k its (blank (ri_writer_refused info) xs) w))"

text \<open>A step that is none of \<open>k\<close>'s business.\<close>

definition calm :: "fname set \<Rightarrow> run_key \<Rightarrow> writer \<Rightarrow> writer \<Rightarrow> bool" where
  "calm D k w w' \<longleftrightarrow> wr_enq w' k = wr_enq w k \<and> chan k w' = chan k w \<and> other_ok D k w w'"

lemma ended_calm: "calm D k w w' \<Longrightarrow> ended k w' = ended k w"
  by (auto simp: calm_def other_ok_def ended_def filter_empty_conv)

lemma files_calm: "calm D k w w' \<Longrightarrow> map_of (wr_files w') k = map_of (wr_files w) k"
  by (simp add: calm_def other_ok_def)

lemma protected_calm:
  "calm D k w w' \<Longrightarrow> protected w k p \<Longrightarrow> protected w' k p \<and> disk_file w' p = disk_file w p"
  unfolding calm_def other_ok_def by blast

lemma live_calm: "calm D k w w' \<Longrightarrow> live D k its ys w \<Longrightarrow> live D k its ys w'"
  using protected_calm [of D k w w'] by (auto simp: live_def files_calm split: option.splits)

lemma unopened_calm: "calm D k w w' \<Longrightarrow> unopened k w \<Longrightarrow> unopened k w'"
  by (simp add: unopened_def ended_calm files_calm) (simp add: calm_def)

lemma recording_calm: "calm D k w w' \<Longrightarrow> recording D k xs w \<Longrightarrow> recording D k xs w'"
  using live_calm [of D k w w'] ended_calm [of D k w w'] unfolding recording_def calm_def by metis

lemma shut_calm: "calm D k w w' \<Longrightarrow> shut D k xs w \<Longrightarrow> shut D k xs w'"
proof -
  assume c: "calm D k w w'" and cl: "shut D k xs w"
  have q: "chan k w' = chan k w" "wr_enq w' k = wr_enq w k" using c by (simp_all add: calm_def)
  show ?thesis
  proof (cases "chan k w = []")
    case True
    then obtain f where f: "ended k w = [f]" "right_file D xs w f" "fr_write_error f = None \<longrightarrow> protected w k (fr_path f)"
      using cl by (auto simp: shut_def)
    then have "right_file D xs w' f" "fr_write_error f = None \<longrightarrow> protected w' k (fr_path f)"
      using protected_calm [OF c] by (auto simp: right_file_def)
    then show ?thesis using cl True f(1) by (simp add: shut_def q ended_calm [OF c] files_calm [OF c])
  next
    case False
    then show ?thesis
      using cl live_calm [OF c] by (auto simp: shut_def q ended_calm [OF c])
  qed
qed

section \<open>The producers' side\<close>

fun event_key :: "writer_event \<Rightarrow> run_key option" where
  "event_key (WrOpen k _ _) = Some k"
| "event_key (WrOps k _) = Some k"
| "event_key (WrGrid k _ _) = Some k"
| "event_key (WrClose k _) = Some k"
| "event_key _ = None"

text \<open>What a producer call does: items of its key at the end of the queue.\<close>

definition produced :: "run_key \<Rightarrow> witem list \<Rightarrow> writer \<Rightarrow> writer \<Rightarrow> bool" where
  "produced k its w w' \<longleftrightarrow> wr_q w' = wr_q w @ its \<and> list_all (\<lambda>i. item_key i = Some k) its \<and>
     (\<forall>j. j \<noteq> k \<longrightarrow> wr_enq w' j = wr_enq w j) \<and> wr_files w' = wr_files w \<and> wr_disk w' = wr_disk w \<and>
     wr_finished w' = wr_finished w \<and> wr_alive w' = wr_alive w"

lemma put_ops_loop_frame:
  "put_ops_loop k ops e w n = (e', w', n') \<Longrightarrow> \<exists>its. produced k its w w' \<and> wr_enq w' = wr_enq w"
proof (induction k ops e w n arbitrary: e' w' n' rule: put_ops_loop.induct)
  case (1 key e w refused)
  then show ?case by (auto simp: produced_def)
next
  case (2 key data ops e w refused)
  show ?case
  proof (cases "wr_in_flight w + iq_bytes data \<le> wr_budget w")
    case True
    then show ?thesis using 2 by (fastforce simp: produced_def put_def)
  next
    case False
    then show ?thesis using 2 by (fastforce simp: produced_def put_def)
  qed
next
  case (3 key m ops e w refused)
  then show ?case by (fastforce simp: produced_def put_def)
qed

lemma event_produced: "event_key ev = Some k \<Longrightarrow> \<exists>its. produced k its w (writer_do io ev w)"
proof (cases ev)
  case (WrOps k' ops)
  assume "event_key ev = Some k"
  then have k: "k' = k" using WrOps by simp
  show ?thesis
  proof (cases "wr_enq w k")
    case (Some e)
    obtain e' w' n' where l: "put_ops_loop k ops e w 0 = (e', w', n')" by (metis surj_pair)
    from put_ops_loop_frame [OF l] show ?thesis by (auto simp: WrOps k put_ops_def Some l produced_def)
  qed (simp add: WrOps k put_ops_def produced_def)
qed (auto simp: produced_def writer_open_def writer_close_def put_grid_def put_def split: option.splits)

lemma produced_chan: "produced j its w w' \<Longrightarrow> chan k w' = chan k w @ (if j = k then its else [])"
  by (auto simp: produced_def chan_def list_all_iff intro!: filter_True)

lemma produced_files_ok: "produced j its w w' \<Longrightarrow> files_ok D w \<Longrightarrow> files_ok D w'"
  by (auto simp: produced_def files_ok_def list_all_iff simp del: map_of_eq_Some_iff)

lemma produced_other: "produced j its w w' \<Longrightarrow> files_ok D w \<Longrightarrow> other_ok D k w w'"
  using produced_files_ok [of j its w w' D]
  by (auto simp: other_ok_def protected_def disk_file_def produced_def)

lemma produced_calm: "produced j its w w' \<Longrightarrow> j \<noteq> k \<Longrightarrow> files_ok D w \<Longrightarrow> calm D k w w'"
  using produced_other [of j its w w' D k] produced_chan [of j its w w' k] unfolding calm_def
  by (metis (full_types) append_Nil2 produced_def)

lemma produced_writer_ok: "produced j its w w' \<Longrightarrow> writer_ok D w \<Longrightarrow> writer_ok D w'"
  using produced_files_ok [of j its w w' D] by (auto simp: writer_ok_def produced_def)

section \<open>The writer thread on run \<open>k\<close>'s own items\<close>

lemma other_ok_files: "other_ok D k w w' \<Longrightarrow> files_ok D w'"
  by (simp add: other_ok_def)

lemma handle_alive: "i \<noteq> WStop \<Longrightarrow> wr_alive (handle io i w) = wr_alive w"
proof (cases i)
  case (WOpen key path spec)
  obtain st w' where o: "open_files io path spec w = (st, w')" by fastforce
  from open_files_frame [OF o] show ?thesis by (simp add: WOpen handle_def o set_file_def same_but_disk_def)
next
  case (WIq key d)
  then show ?thesis
    using write_samples_op [of d "(_, w\<lparr>wr_in_flight := wr_in_flight w - iq_bytes d\<rparr>)" io]
    by (simp add: handle_def Let_def set_file_def file_op_def same_but_disk_def case_prod_beta split: option.splits)
next
  case (WZeros key n)
  then show ?thesis
    using write_zeros_op [of n "(_, w)" io]
    by (simp add: handle_def set_file_def file_op_def same_but_disk_def case_prod_beta split: option.splits)
next
  case (WGrid key rows meta)
  then show ?thesis
    using write_grid_op [of "(_, w\<lparr>wr_in_flight := wr_in_flight w - grid_bytes rows\<rparr>)" io rows meta]
    by (simp add: handle_def Let_def set_file_def file_op_def same_but_disk_def case_prod_beta split: option.splits)
next
  case (WClose key info)
  then show ?thesis by (simp add: handle_def finish_frame split: option.splits)
qed simp

text \<open>A step on another run's item is calm.\<close>

lemma step_calm:
  assumes g: "files_ok D w" and q: "wr_q w = i # q" "item_key i \<noteq> Some k" and a: "wr_alive w"
  shows "calm D k w (writer_step io w)"
proof -
  have i: "i \<noteq> WStop" using g by (auto simp: files_ok_def q)
  have "files_ok D (w\<lparr>wr_q := q\<rparr>)" using g by (auto simp: files_ok_def q simp del: map_of_eq_Some_iff)
  then have o: "other_ok D k (w\<lparr>wr_q := q\<rparr>) (handle io i (w\<lparr>wr_q := q\<rparr>))" by (rule handle_other) (use q i in auto)
  have "other_ok D k w (handle io i (w\<lparr>wr_q := q\<rparr>))"
    using o by (simp add: other_ok_def protected_def disk_file_def)
  then show ?thesis using a q handle_frame [of io i "w\<lparr>wr_q := q\<rparr>"] by (simp add: calm_def writer_step_def chan_def)
qed

text \<open>A step on any item keeps the writer in order.\<close>

lemma files_ok_own:
  assumes g: "files_ok D w" and i: "i \<noteq> WStop"
  shows "files_ok D (handle io i w)"
proof -
  obtain j where "item_key i \<noteq> Some j"
  proof -
    have "(''a'', 0) \<noteq> (''b'', 0 :: int)" by simp
    then show thesis using that [of "(''a'', 0)"] that [of "(''b'', 0)"] by (metis option.inject)
  qed
  from other_ok_files [OF handle_other [OF g this i]] show ?thesis .
qed

lemma step_writer_ok: "writer_ok D w \<Longrightarrow> writer_ok D (writer_step io w)"
proof -
  assume g: "writer_ok D w"
  show ?thesis
  proof (cases "\<not> wr_alive w \<or> wr_q w = []")
    case True
    then have "writer_step io w = w" by (auto simp: writer_step_def)
    then show ?thesis using g by simp
  next
    case False
    then obtain i q where q: "wr_q w = i # q" by (cases "wr_q w") auto
    have i: "i \<noteq> WStop" and g': "files_ok D (w\<lparr>wr_q := q\<rparr>)"
      using g by (auto simp: writer_ok_def files_ok_def q simp del: map_of_eq_Some_iff)
    then show ?thesis
      using False files_ok_own [OF g' i] handle_alive [OF i] by (simp add: writer_ok_def writer_step_def q)
  qed
qed

text \<open>\<open>k\<close>'s file after one of its own items that is not the last.\<close>

lemma queued_Cons: "queued (i # its) = item_samples i @ queued its"
  by (simp add: queued_def)

lemma live_file_op:
  assumes op: "file_op d (st, w) s" and st: "map_of (wr_files w) k = Some st"
    and l: "list_all plain its"
    and c: "of_error st = None \<longrightarrow> of_fh st \<and> of_path st \<notin> D \<and> protected w k (of_path st) \<and>
          ys = disk_file w (of_path st) @ d @ queued its"
  shows "live D k its ys (set_file k s)"
proof -
  obtain st' w' where s: "s = (st', w')" by (cases s)
  have o: "of_path st' = of_path st" "of_fh st' = of_fh st" "wr_files w' = wr_files w"
    using op by (auto simp: file_op_def s same_but_disk_def)
  have "of_fh st' \<and> of_path st' \<notin> D \<and> protected (set_file k s) k (of_path st') \<and>
      ys = disk_file (set_file k s) (of_path st') @ queued its" if e: "of_error st' = None"
  proof -
    have e': "of_error st = None" "of_fh st" using op e c by (auto simp: file_op_def s)
    have d: "disk_only (of_path st) w w'" "disk_file w' (of_path st) = disk_file w (of_path st) @ d"
      using op e e' by (auto simp: file_op_def s)
    have p: "protected w k (of_path st)" using c e' by blast
    have "of_path st \<in> dom (map_of (wr_disk w'))" using p d(1) unfolding protected_def disk_only_def by blast
    then have "protected (set_file k s) k (of_path st')"
      using p o unfolding protected_def by (simp add: s del: map_of_eq_Some_iff)
    then show ?thesis using c e' o d(2) by (simp add: s disk_file_def)
  qed
  then show ?thesis using l by (simp add: live_def s)
qed

lemma live_plain:
  assumes l: "live D k (i # its) ys w" and i: "plain i" "item_key i = Some k"
  shows "live D k its ys (handle io i w) \<and> wr_finished (handle io i w) = wr_finished w"
proof -
  have "map_of (wr_files w) k \<noteq> None" using l i by (auto simp: live_def split: option.splits)
  then obtain st where st: "map_of (wr_files w) k = Some st" by (metis not_None_eq)
  have c: "list_all plain its" "of_error st = None \<longrightarrow> of_fh st \<and> of_path st \<notin> D \<and> protected w k (of_path st) \<and>
          ys = disk_file w (of_path st) @ item_samples i @ queued its"
    using l st by (simp_all add: live_def queued_Cons)
  have fin: "wr_finished (set_file k s) = wr_finished w" if "file_op d (st, w) s" for d s
    using that by (simp add: file_op_def same_but_disk_def)
  show ?thesis
  proof (cases i)
    case (WIq k' d)
    define w0 where "w0 = w\<lparr>wr_in_flight := wr_in_flight w - iq_bytes d\<rparr>"
    have c0: "of_error st = None \<longrightarrow> of_fh st \<and> of_path st \<notin> D \<and> protected w0 k (of_path st) \<and>
          ys = disk_file w0 (of_path st) @ d @ queued its" "map_of (wr_files w0) k = Some st"
      using c(2) st by (simp_all add: w0_def WIq protected_def disk_file_def del: map_of_eq_Some_iff)
    have h: "handle io i w = set_file k (write_samples io d (st, w0))"
      using i st by (simp add: WIq handle_def Let_def w0_def del: map_of_eq_Some_iff)
    show ?thesis
      unfolding h using live_file_op [OF write_samples_op [of d _ io] c0(2) c(1) c0(1)] write_samples_op [of d "(st, w0)" io]
      by (simp add: file_op_def same_but_disk_def w0_def)
  next
    case (WZeros k' n)
    have h: "handle io i w = set_file k (write_zeros io n (st, w))"
      using i st by (simp add: WZeros handle_def del: map_of_eq_Some_iff)
    show ?thesis
      unfolding h using live_file_op [OF write_zeros_op [of n _ io] st c(1)] c(2) fin [OF write_zeros_op [of n _ io]]
      by (simp add: WZeros)
  next
    case (WGrid k' rows meta)
    define w0 where "w0 = w\<lparr>wr_in_flight := wr_in_flight w - grid_bytes rows\<rparr>"
    have c0: "of_error st = None \<longrightarrow> of_fh st \<and> of_path st \<notin> D \<and> protected w0 k (of_path st) \<and>
          ys = disk_file w0 (of_path st) @ [] @ queued its" "map_of (wr_files w0) k = Some st"
      using c(2) st by (simp_all add: w0_def WGrid protected_def disk_file_def del: map_of_eq_Some_iff)
    have h: "handle io i w = set_file k (write_grid io rows meta (st, w0))"
      using i st by (simp add: WGrid handle_def Let_def w0_def del: map_of_eq_Some_iff)
    show ?thesis
      unfolding h using live_file_op [OF write_grid_op [of _ io rows meta] c0(2) c(1) c0(1)] write_grid_op [of "(st, w0)" io rows meta]
      by (simp add: file_op_def same_but_disk_def w0_def)
  qed (use i in simp_all)
qed

lemma live_open:
  assumes l: "live D k (i # its) ys w" and i: "\<not> plain i" and g: "files_ok D w"
  shows "live D k its ys (handle io i w) \<and> wr_finished (handle io i w) = wr_finished w"
proof -
  obtain p sp where i': "i = WOpen k p sp" "list_all plain its" "ys = queued its"
    using l i by (auto simp: live_def split: option.splits)
  obtain st w1 where o: "open_files io p sp w = (st, w1)" by fastforce
  note e = open_files_effect [OF o] and f = open_files_frame [OF o]
  have "of_fh st \<and> of_path st \<notin> D \<and> protected (set_file k (st, w1)) k (of_path st) \<and>
      ys = disk_file (set_file k (st, w1)) (of_path st) @ queued its" if "of_error st = None"
  proof -
    have fh: "of_fh st" using e that by blast
    have new: "of_path st \<notin> dom (map_of (wr_disk w))" "map_of (wr_disk w1) (of_path st) = Some []"
      using e fh by (blast, simp)
    have "of_path st \<notin> D" using g new(1) unfolding files_ok_def by blast
    moreover have "of_path u \<noteq> of_path st" if "map_of (wr_files w) j = Some u" "of_fh u" for j u
      using files_okD [OF g that] new(1) by metis
    then have "protected (set_file k (st, w1)) k (of_path st)"
      using f new(2) unfolding protected_def same_but_disk_def by (simp add: dom_def del: map_of_eq_Some_iff)
    ultimately show ?thesis using fh new(2) i'(3) by (simp add: disk_file_def)
  qed
  then show ?thesis
    using i'(2) f by (simp add: i'(1) handle_def o live_def same_but_disk_def)
qed

lemma no_error_close:
  "of_error (fst (close_grid_fh io (close_fh io (st, w)))) = None \<Longrightarrow>
     of_error st = None \<and> wr_disk (snd (close_fh io (st, w))) = wr_disk w"
  by (auto simp: close_fh_def close_grid_fh_def split: option.splits if_splits)

lemma live_close:
  assumes l: "live D k [] ys w" and g: "files_ok D w"
  obtains f where "wr_finished (handle io (WClose k info) w) = wr_finished w @ [f]" "fr_key f = k"
    "ri_writer_refused (fr_info f) = ri_writer_refused info"
    "map_of (wr_files (handle io (WClose k info) w)) k = None"
    "fr_write_error f = None \<longrightarrow> disk_file (handle io (WClose k info) w) (fr_path f) = ys \<and> fr_path f \<notin> D \<and>
       fr_total_samples f \<in> {0, int (length ys)} \<and> protected (handle io (WClose k info) w) k (fr_path f)"
proof -
  have "map_of (wr_files w) k \<noteq> None" using l by (auto simp: live_def split: option.splits)
  then obtain st where st: "map_of (wr_files w) k = Some st" by (metis not_None_eq)
  define w0 where "w0 = w\<lparr>wr_files := dict_del k (wr_files w)\<rparr>"
  obtain w1 f where fin: "finish io k info (st, w0) = w1\<lparr>wr_finished := wr_finished w0 @ [f]\<rparr>"
    "same_but_disk w0 w1" "fr_key f = k" "fr_path f = of_path st"
    "ri_writer_refused (fr_info f) = ri_writer_refused info"
    "wr_disk w1 = wr_disk (snd (close_fh io (st, w0)))"
    "fr_total_samples f = 0 \<or> fr_total_samples f = int (length (disk_file w1 (of_path st)))"
    "fr_write_error f = None \<longrightarrow> of_error (fst (close_grid_fh io (close_fh io (st, w0)))) = None"
    by (rule finish_shape [of io k info st w0]) (rule that; assumption)
  have h: "handle io (WClose k info) w = w1\<lparr>wr_finished := wr_finished w0 @ [f]\<rparr>"
    using st fin(1) by (simp add: handle_def w0_def del: map_of_eq_Some_iff)
  have files: "map_of (wr_files w1) = (map_of (wr_files w))(k := None)"
    using fin(2) by (simp add: same_but_disk_def w0_def map_of_dict_del)
  have right: "fr_write_error f = None \<longrightarrow> disk_file (handle io (WClose k info) w) (fr_path f) = ys \<and> fr_path f \<notin> D \<and>
       fr_total_samples f \<in> {0, int (length ys)} \<and> protected (handle io (WClose k info) w) k (fr_path f)"
  proof
    assume "fr_write_error f = None"
    from no_error_close [OF fin(8) [rule_format, OF this]]
    have e: "of_error st = None" "wr_disk w1 = wr_disk w" by (simp_all add: fin(6)) (simp add: w0_def)
    have c: "of_path st \<notin> D" "protected w k (of_path st)" "ys = disk_file w (of_path st)"
      using l e(1) by (simp_all add: live_def st queued_def)
    have "protected (handle io (WClose k info) w) k (of_path st)"
      using c(2) unfolding protected_def h by (simp add: files e(2) del: map_of_eq_Some_iff)
    then show "disk_file (handle io (WClose k info) w) (fr_path f) = ys \<and> fr_path f \<notin> D \<and>
       fr_total_samples f \<in> {0, int (length ys)} \<and> protected (handle io (WClose k info) w) k (fr_path f)"
      using c fin(4,7) e(2) by (auto simp: h disk_file_def)
  qed
  show thesis by (rule that [OF _ _ _ _ right]) (use fin(3,5) files in \<open>simp_all add: h w0_def\<close>)
qed

section \<open>A run from opening to the finished file\<close>

text \<open>The operations offered to run \<open>k\<close>.\<close>

definition offered :: "run_key \<Rightarrow> writer_event list \<Rightarrow> cut_op list" where
  "offered k evs = concat (map (\<lambda>ev. case ev of WrOps k' ops \<Rightarrow> if k' = k then ops else [] | _ \<Rightarrow> []) evs)"

text \<open>Events that do not open or close \<open>k\<close>, nor stop the writer.\<close>

definition bystander :: "run_key \<Rightarrow> writer_event \<Rightarrow> bool" where
  "bystander k ev \<longleftrightarrow> (case ev of WrOpen k' _ _ \<Rightarrow> k' \<noteq> k | WrClose k' _ \<Rightarrow> k' \<noteq> k | WrStop \<Rightarrow> False | _ \<Rightarrow> True)"

lemma event_cases:
  assumes b: "bystander k ev" and g: "writer_ok D w"
  obtains "calm D k w (writer_do io ev w)"
  | ops where "ev = WrOps k ops" | rows meta where "ev = WrGrid k rows meta"
  | i q where "ev = WrStep" "wr_alive w" "wr_q w = i # q" "item_key i = Some k"
proof (cases "event_key ev")
  case None
  have f: "files_ok D w" using g by (simp add: writer_ok_def)
  have same: thesis if "writer_do io ev w = w"
    using that that(1) other_ok_refl [OF f, of k] \<open>calm D k w (writer_do io ev w) \<Longrightarrow> thesis\<close> by (simp add: calm_def)
  show ?thesis
  proof (cases ev)
    case WrStart
    then have "wr_alive w \<Longrightarrow> writer_do io ev w = w" by (simp add: writer_start_def)
    moreover have "calm D k w (writer_do io ev w)" if "\<not> wr_alive w"
    proof -
      have "wr_files w = []" using g that by (simp add: writer_ok_def)
      then have "other_ok D k w (writer_start w)"
        using f that by (auto simp: other_ok_def files_ok_def protected_def disk_file_def writer_start_def)
      then show ?thesis using WrStart that by (simp add: calm_def writer_start_def chan_def)
    qed
    ultimately show ?thesis using same that(1) by blast
  next
    case WrStep
    show ?thesis
    proof (cases "\<not> wr_alive w \<or> wr_q w = []")
      case True
      then have "writer_step io w = w" by (auto simp: writer_step_def)
      then show ?thesis using same WrStep by simp
    next
      case False
      then obtain i q where q: "wr_q w = i # q" by (cases "wr_q w") auto
      show ?thesis
      proof (cases "item_key i = Some k")
        case True
        then show ?thesis using that(4) WrStep q False by blast
      next
        case False
        then show ?thesis using step_calm [OF f q False, of io] \<open>\<not> (\<not> wr_alive w \<or> wr_q w = [])\<close> that(1) WrStep by simp
      qed
    qed
  qed (use b None in \<open>simp_all add: bystander_def\<close>)
next
  case (Some j)
  obtain its where p: "produced j its w (writer_do io ev w)" using event_produced [OF Some] by blast
  show ?thesis
  proof (cases "j = k")
    case True
    then show ?thesis using b Some that by (cases ev) (auto simp: bystander_def)
  next
    case False
    then show ?thesis using produced_calm [OF p] g that(1) by (simp add: writer_ok_def)
  qed
qed

lemma writer_ok_event: "bystander k ev \<Longrightarrow> writer_ok D w \<Longrightarrow> writer_ok D (writer_do io ev w)"
proof (cases "event_key ev")
  case (Some j)
  then obtain its where "produced j its w (writer_do io ev w)" using event_produced by blast
  then show "writer_ok D w \<Longrightarrow> ?thesis" by (rule produced_writer_ok)
next
  case None
  assume g: "bystander k ev" "writer_ok D w"
  show ?thesis
  proof (cases "ev = WrStart")
    case True
    then show ?thesis using g(2) by (auto simp: writer_ok_def writer_start_def files_ok_def)
  next
    case False
    then have "ev = WrStep" using None g(1) by (cases ev) (simp_all add: bystander_def)
    then show ?thesis using step_writer_ok [OF g(2)] by simp
  qed
qed

lemma no_enq_event: "wr_enq w k = None \<Longrightarrow> writer_do io (WrOps k ops) w = w \<and> writer_do io (WrGrid k rows meta) w = w"
  by (simp add: put_ops_def put_grid_def)

lemma own_step:
  assumes "wr_alive w" "wr_q w = i # q" "item_key i = Some k" "chan k w = i' # its"
  shows "i' = i \<and> chan k (writer_step io w) = its \<and> wr_enq (writer_step io w) = wr_enq w"
  using assms handle_frame [of io i "w\<lparr>wr_q := q\<rparr>"] by (simp add: writer_step_def chan_def)

lemma own_chan: "wr_q w = i # q \<Longrightarrow> item_key i = Some k \<Longrightarrow> \<exists>its. chan k w = i # its"
  by (simp add: chan_def)

lemma unopened_event:
  assumes u: "unopened k w" and b: "bystander k ev" and g: "writer_ok D w"
  shows "unopened k (writer_do io ev w)"
proof (rule event_cases [OF b g, of io])
  assume "calm D k w (writer_do io ev w)"
  then show ?thesis using u by (rule unopened_calm)
next
  fix ops assume "ev = WrOps k ops"
  then show ?thesis using u no_enq_event [of w k io ops] by (simp add: unopened_def)
next
  fix rows meta assume "ev = WrGrid k rows meta"
  then show ?thesis using u no_enq_event [of w k io _ rows meta] by (simp add: unopened_def)
next
  fix i q assume "wr_q w = i # q" "item_key i = Some k"
  from own_chan [OF this] show ?thesis using u by (auto simp: unopened_def)
qed

lemma recording_open:
  assumes u: "unopened k w"
  shows "recording D k [] (writer_do io (WrOpen k p sp) w)"
  using u by (auto simp: unopened_def recording_def writer_open_def put_def ended_def ranges_ok_def live_def chan_def
      queued_def)

lemma live_put:
  assumes "live D k its ys w" "list_all plain new" "wr_files w' = wr_files w" "wr_disk w' = wr_disk w"
  shows "live D k (its @ new) (ys @ queued new) w'"
proof -
  have "protected w' k p = protected w k p" "disk_file w' p = disk_file w p" for p
    by (simp_all add: protected_def disk_file_def assms(3,4))
  then show ?thesis
    using assms by (auto simp: live_def queued_def split: option.splits)
qed

lemma live_step:
  assumes l: "live D k (i # its) ys w" and q: "wr_alive w" "wr_q w = i # q" "item_key i = Some k" and g: "files_ok D w"
  shows "live D k its ys (writer_step io w) \<and> ended k (writer_step io w) = ended k w"
proof -
  have g': "files_ok D (w\<lparr>wr_q := q\<rparr>)" using g by (auto simp: files_ok_def q simp del: map_of_eq_Some_iff)
  have l': "live D k (i # its) ys (w\<lparr>wr_q := q\<rparr>)"
    using l by (simp add: live_def protected_def disk_file_def cong: option.case_cong)
  have "live D k its ys (handle io i (w\<lparr>wr_q := q\<rparr>)) \<and> wr_finished (handle io i (w\<lparr>wr_q := q\<rparr>)) = wr_finished w"
  proof (cases "plain i")
    case True
    then show ?thesis using live_plain [OF l' True q(3), of io] by simp
  next
    case False
    then show ?thesis using live_open [OF l' False g', of io] by simp
  qed
  then show ?thesis using q by (simp add: writer_step_def ended_def)
qed

definition offer :: "run_key \<Rightarrow> writer_event \<Rightarrow> cut_op list" where
  "offer k ev = (case ev of WrOps k' ops \<Rightarrow> if k' = k then ops else [] | _ \<Rightarrow> [])"

lemma offered_simps: "offered k [] = []" "offered k (ev # evs) = offer k ev @ offered k evs"
  by (simp_all add: offered_def offer_def)

lemma file_of_append: "file_of (a @ b) = file_of a @ file_of b"
  by (simp add: file_of_def)

lemma ops_ok_append: "ops_ok (a @ b) \<longleftrightarrow> ops_ok a \<and> ops_ok b"
  by (simp add: ops_ok_def)

lemma offer_calm: "event_key ev \<noteq> Some k \<Longrightarrow> offer k ev = []"
  by (cases ev) (auto simp: offer_def)

lemma recording_event:
  assumes r: "recording D k xs w" and b: "bystander k ev" and g: "writer_ok D w" and ok: "ops_ok (offer k ev)"
  shows "recording D k (xs @ file_of (offer k ev)) (writer_do io ev w)"
proof -
  obtain e where e: "ended k w = []" "wr_enq w k = Some e" "eq_pos e = int (length xs)"
    "ranges_ok (eq_refused e) (int (length xs))" "live D k (chan k w) (blank (eq_refused e) xs) w"
    using r unfolding recording_def by blast
  have f: "files_ok D w" using g by (simp add: writer_ok_def)
  consider (ops) ops where "ev = WrOps k ops" | (grid) rows meta where "ev = WrGrid k rows meta"
    | (own) i q where "ev = WrStep" "wr_alive w" "wr_q w = i # q" "item_key i = Some k"
    | (calm) "calm D k w (writer_do io ev w)" "\<And>ops. ev \<noteq> WrOps k ops"
    using event_cases [OF b g, of io] by metis
  then show ?thesis
  proof cases
    case (ops ops)
    obtain e' w' n' where l: "put_ops_loop k ops e w 0 = (e', w', n')" by (metis surj_pair)
    have o: "ops_ok ops" "offer k ev = ops" using ok by (simp_all add: ops offer_def)
    obtain its where its: "wr_q w' = wr_q w @ its" "list_all plain its" "list_all (\<lambda>i. item_key i = Some k) its"
      "blank (eq_refused e') (xs @ file_of ops) = blank (eq_refused e) xs @ queued its"
      "ranges_ok (eq_refused e') (int (length (xs @ file_of ops)))" "eq_pos e' = int (length (xs @ file_of ops))"
      "wr_files w' = wr_files w" "wr_disk w' = wr_disk w" "wr_finished w' = wr_finished w"
      using put_ops_loop_line [OF l o(1) e(4,3)] by blast
    have w': "writer_do io ev w = w'\<lparr>wr_enq := (wr_enq w')(k := Some e')\<rparr>"
      by (simp add: ops put_ops_def e(2) l)
    have "chan k (writer_do io ev w) = chan k w @ its"
      using its(1,3) by (simp add: w' chan_def list_all_iff)
    then have "live D k (chan k (writer_do io ev w)) (blank (eq_refused e') (xs @ file_of ops)) (writer_do io ev w)"
      using live_put [OF e(5) its(2), of "writer_do io ev w"] its by (simp add: w')
    then show ?thesis using e(1) its unfolding recording_def o(2) by (simp add: w' ended_def)
  next
    case (grid rows meta)
    have z: "offer k ev = []" by (simp add: grid offer_def)
    show ?thesis
    proof (cases "writer_do io ev w = w")
      case True
      then show ?thesis using r by (simp add: z file_of_def)
    next
      case False
      then have w': "writer_do io ev w = put (WGrid k rows meta) (w\<lparr>wr_in_flight := wr_in_flight w + grid_bytes rows\<rparr>)"
        by (auto simp: grid put_grid_def split: if_splits)
      have "live D k (chan k w @ [WGrid k rows meta]) (blank (eq_refused e) xs @ queued [WGrid k rows meta]) (writer_do io ev w)"
        by (rule live_put [OF e(5)]) (simp_all add: w' put_def)
      then show ?thesis using e by (simp add: recording_def z file_of_def ended_def) (simp add: w' put_def chan_def queued_def)
    qed
  next
    case (own i q)
    obtain its where its: "chan k w = i # its" using own_chan [OF own(3,4)] by blast
    have "live D k (i # its) (blank (eq_refused e) xs) w" using e(5) by (simp add: its)
    from live_step [OF this own(2-4) f, of io] own_step [OF own(2-4) its, of io] e
    show ?thesis by (simp add: recording_def own(1) offer_def file_of_def)
  next
    case calm
    have "offer k ev = []" using calm(2) by (cases ev) (auto simp: offer_def)
    then show ?thesis using recording_calm [OF calm(1) r] by (simp add: file_of_def)
  qed
qed

lemma shut_close:
  assumes r: "recording D k xs w"
  shows "shut D k xs (writer_do io (WrClose k info) w)"
proof -
  obtain e where e: "ended k w = []" "wr_enq w k = Some e" "live D k (chan k w) (blank (eq_refused e) xs) w"
    using r unfolding recording_def by blast
  define c where "c = info\<lparr>ri_writer_refused := eq_refused e\<rparr>"
  have w': "writer_do io (WrClose k info) w = put (WClose k c) (w\<lparr>wr_enq := (wr_enq w)(k := None)\<rparr>)"
    by (simp add: writer_close_def e(2) c_def)
  have "live D k (chan k w @ []) (blank (ri_writer_refused c) xs @ queued []) (writer_do io (WrClose k info) w)"
    unfolding w' by (rule live_put) (use e(3) in \<open>simp_all add: put_def c_def\<close>)
  moreover have "chan k (writer_do io (WrClose k info) w) = chan k w @ [WClose k c]"
    unfolding w' by (simp add: put_def chan_def)
  ultimately show ?thesis using e(1) unfolding shut_def w' by (auto simp: put_def ended_def queued_def)
qed

lemma shut_event:
  assumes c: "shut D k xs w" and b: "bystander k ev" and g: "writer_ok D w"
  shows "shut D k xs (writer_do io ev w)"
proof (rule event_cases [OF b g, of io])
  assume "calm D k w (writer_do io ev w)"
  then show ?thesis using c by (rule shut_calm)
next
  fix ops assume "ev = WrOps k ops"
  then show ?thesis using c no_enq_event [of w k io ops] by (simp add: shut_def)
next
  fix rows meta assume "ev = WrGrid k rows meta"
  then show ?thesis using c no_enq_event [of w k io _ rows meta] by (simp add: shut_def)
next
  fix i q assume ev: "ev = WrStep" "wr_alive w" and q: "wr_q w = i # q" "item_key i = Some k"
  obtain rest where rest: "chan k w = i # rest" using own_chan [OF q] by blast
  obtain its info where cl: "chan k w = its @ [WClose k info]" "live D k its (blank (ri_writer_refused info) xs) w"
    "ended k w = []" "wr_enq w k = None"
    using c by (auto simp: shut_def rest)
  note own = own_step [OF ev(2) q rest, of io]
  have f: "files_ok D w" using g by (simp add: writer_ok_def)
  show ?thesis
  proof (cases its)
    case Nil
    then have i: "i = WClose k info" "rest = []" using cl(1) rest by simp_all
    have g': "files_ok D (w\<lparr>wr_q := q\<rparr>)" using f by (auto simp: files_ok_def q simp del: map_of_eq_Some_iff)
    have l': "live D k [] (blank (ri_writer_refused info) xs) (w\<lparr>wr_q := q\<rparr>)"
      using cl(2) Nil by (simp add: live_def protected_def disk_file_def cong: option.case_cong)
    have h: "writer_step io w = handle io (WClose k info) (w\<lparr>wr_q := q\<rparr>)"
      using ev(2) i(1) by (simp add: writer_step_def q)
    obtain f where f: "wr_finished (writer_step io w) = wr_finished (w\<lparr>wr_q := q\<rparr>) @ [f]" "fr_key f = k"
        "ri_writer_refused (fr_info f) = ri_writer_refused info" "map_of (wr_files (writer_step io w)) k = None"
        "fr_write_error f = None \<longrightarrow> disk_file (writer_step io w) (fr_path f) = blank (ri_writer_refused info) xs \<and>
           fr_path f \<notin> D \<and> fr_total_samples f \<in> {0, int (length (blank (ri_writer_refused info) xs))} \<and>
           protected (writer_step io w) k (fr_path f)"
      by (rule live_close [OF l' g', of io info, folded h]) (rule that; assumption)
    have "ended k (writer_step io w) = [f]" using cl(3) f(1,2) by (simp add: ended_def)
    moreover have "right_file D xs (writer_step io w) f" using f(3,5) by (simp add: right_file_def)
    ultimately show ?thesis using own i(2) f(4,5) cl(4) by (simp add: shut_def ev(1) del: map_of_eq_None_iff)
  next
    case (Cons i' its')
    then have i: "i' = i" "rest = its' @ [WClose k info]" using cl(1) rest by simp_all
    have "live D k (i # its') (blank (ri_writer_refused info) xs) w" using cl(2) by (simp add: Cons i(1))
    from live_step [OF this ev(2) q f, of io] show ?thesis
      using own cl(3,4) i(2) by (auto simp: shut_def ev(1))
  qed
qed

lemma run_unopened:
  "unopened k w \<Longrightarrow> writer_ok D w \<Longrightarrow> list_all (bystander k) evs \<Longrightarrow>
     unopened k (writer_run io evs w) \<and> writer_ok D (writer_run io evs w)"
proof (induction evs arbitrary: w)
  case (Cons ev evs)
  then have "unopened k (writer_do io ev w)" "writer_ok D (writer_do io ev w)"
    using unopened_event [of k w ev D] writer_ok_event [of k ev D w] by simp_all
  then show ?case using Cons by (simp add: writer_run_def)
qed (simp add: writer_run_def)

lemma run_recording:
  "recording D k xs w \<Longrightarrow> writer_ok D w \<Longrightarrow> list_all (bystander k) evs \<Longrightarrow> ops_ok (offered k evs) \<Longrightarrow>
     recording D k (xs @ file_of (offered k evs)) (writer_run io evs w) \<and> writer_ok D (writer_run io evs w)"
proof (induction evs arbitrary: w xs)
  case Nil
  then show ?case by (simp add: writer_run_def offered_simps file_of_def)
next
  case (Cons ev evs)
  have ok: "ops_ok (offer k ev)" "ops_ok (offered k evs)" "bystander k ev" "list_all (bystander k) evs"
    using Cons.prems by (simp_all add: offered_simps ops_ok_append)
  note e = recording_event [OF Cons.prems(1) ok(3) Cons.prems(2) ok(1), of io]
  show ?case
    using Cons.IH [OF e writer_ok_event [OF ok(3) Cons.prems(2)] ok(4,2)]
    by (simp add: writer_run_def offered_simps file_of_append)
qed

lemma run_closed:
  "shut D k xs w \<Longrightarrow> writer_ok D w \<Longrightarrow> list_all (bystander k) evs \<Longrightarrow> shut D k xs (writer_run io evs w)"
proof (induction evs arbitrary: w)
  case (Cons ev evs)
  then have "shut D k xs (writer_do io ev w)" "writer_ok D (writer_do io ev w)"
    using shut_event [of D k xs w ev] writer_ok_event [of k ev D w] by simp_all
  then show ?case using Cons by (simp add: writer_run_def)
qed (simp add: writer_run_def)

lemma writer_run_append: "writer_run io (a @ b) w = writer_run io b (writer_run io a w)"
  by (simp add: writer_run_def)

lemma writer_ok_new: "writer_ok (fst ` set disk) (writer_new budget disk)"
  by (auto simp: writer_ok_def files_ok_def writer_new_def dom_disk)

text \<open>What the writer's history makes of run \<open>k\<close>: never opened, opened, or closed.\<close>

lemma history_unopened:
  assumes "list_all (bystander k) evs"
  shows "unopened k (writer_run io evs (writer_new budget disk)) \<and>
    writer_ok (fst ` set disk) (writer_run io evs (writer_new budget disk))"
  using run_unopened [OF _ writer_ok_new assms] by (simp add: unopened_def writer_new_def chan_def ended_def)

lemma history_recording:
  assumes "list_all (bystander k) (before @ during)" "ops_ok (offered k during)"
    and w: "w = writer_run io (before @ WrOpen k p sp # during) (writer_new budget disk)"
  shows "recording (fst ` set disk) k (file_of (offered k during)) w \<and> writer_ok (fst ` set disk) w"
proof -
  let ?D = "fst ` set disk"
  define w0 where "w0 = writer_run io before (writer_new budget disk)"
  define w1 where "w1 = writer_do io (WrOpen k p sp) w0"
  have 0: "unopened k w0" "writer_ok ?D w0"
    using history_unopened [of k before] assms(1) by (simp_all add: w0_def)
  have "writer_ok ?D w1"
    using event_produced [of "WrOpen k p sp" k w0 io] produced_writer_ok [OF _ 0(2)] unfolding w1_def event_key.simps by blast
  moreover have "recording ?D k [] w1" using recording_open [OF 0(1)] by (simp add: w1_def del: writer_do.simps)
  moreover have "w = writer_run io during w1" by (simp add: w w1_def w0_def writer_run_def)
  ultimately show ?thesis using run_recording [of ?D k "[]" w1 during io] assms by simp
qed

lemma history_shut:
  assumes "list_all (bystander k) (before @ during @ after)" "ops_ok (offered k during)"
    and w: "w = writer_run io (before @ WrOpen k p sp # during @ WrClose k info # after) (writer_new budget disk)"
  shows "shut (fst ` set disk) k (file_of (offered k during)) w"
proof -
  let ?D = "fst ` set disk"
  define w2 where "w2 = writer_run io (before @ WrOpen k p sp # during) (writer_new budget disk)"
  define w3 where "w3 = writer_do io (WrClose k info) w2"
  have 2: "recording ?D k (file_of (offered k during)) w2" "writer_ok ?D w2"
    using history_recording [OF _ assms(2) w2_def] assms(1) by simp_all
  have "shut ?D k (file_of (offered k during)) w3" using shut_close [OF 2(1)] by (simp add: w3_def del: writer_do.simps)
  moreover have "writer_ok ?D w3"
    using event_produced [of "WrClose k info" k w2 io] produced_writer_ok [OF _ 2(2)] unfolding w3_def event_key.simps by blast
  moreover have "w = writer_run io after w3" by (simp add: w w3_def w2_def writer_run_def)
  ultimately show ?thesis using run_closed [of ?D k _ w3 after io] assms(1) by simp
qed

text \<open>
  C3: the file of a scheduled run. Whatever the other runs do, however the producers and
  the writer thread interleave and whatever fails on the disk: once the items of a run
  that was opened and closed once have been handled, there is exactly one finished run
  for it; and unless that reports an error, its file did not exist before, and holds
  exactly the samples offered to the run, in order, with zeros in the stretches listed
  as refused and nowhere else; the length reported is the file's (0 if it could not be
  read). Until then there is none.
\<close>

theorem written_file_exact:
  assumes "list_all (bystander k) (before @ during @ after)" "ops_ok (offered k during)"
    and w: "w = writer_run io (before @ WrOpen k p sp # during @ WrClose k info # after) (writer_new budget disk)"
  shows "if chan k w = [] then \<exists>f. filter (\<lambda>f. fr_key f = k) (wr_finished w) = [f] \<and>
      (fr_write_error f = None \<longrightarrow>
         disk_file w (fr_path f) = blank (ri_writer_refused (fr_info f)) (file_of (offered k during)) \<and>
         fr_path f \<notin> fst ` set disk \<and>
         fr_total_samples f \<in> {0, int (length (disk_file w (fr_path f)))})
    else filter (\<lambda>f. fr_key f = k) (wr_finished w) = []"
  using history_shut [OF assms] by (auto simp: shut_def ended_def right_file_def)

text \<open>Two samples fit the budget; the third comes before the writer took them.\<close>

definition wit_spec :: run_spec where
  "wit_spec = \<lparr>rs_schedule_id = ''s'', rs_run = 0, rs_start_ms = 0, rs_n_samples = 4, rs_rate_hz = 1000,
     rs_center_freq_hz = 0, rs_label = []\<rparr>"

definition wit_info :: run_info where "wit_info = info_stopped\<lparr>ri_status := Some ''recorded''\<rparr>"

definition wit_writer :: writer where
  "wit_writer = writer_run (\<lambda>_. None)
     ([WrStart, WrOpen (''b'', 1) (''x'', ''.sc16'') wit_spec] @ WrOpen (''s'', 0) (''x'', ''.sc16'') wit_spec #
      [WrStep, WrOps (''s'', 0) [IQ [1, 2], IQ [3], Zeros 1], WrStep, WrStep] @ WrClose (''s'', 0) wit_info #
      [WrStep, WrStep, WrStep]) (writer_new 8 [])"

lemma wit_writer_chan: "chan (''s'', 0) wit_writer = [] \<and> map fr_write_error (wr_finished wit_writer) = [None] \<and>
  map (\<lambda>f. disk_file wit_writer (fr_path f)) (wr_finished wit_writer) = [[1, 2, 0, 0]]"
  by (simp add: wit_writer_def writer_run_def writer_start_def writer_new_def writer_open_def put_def writer_step_def
      handle_def open_files_def open_name.simps set_file_def put_ops_def iq_bytes_def note_refused_def writer_close_def
      write_samples_def dict_set_def disk_file_def Let_def write_zeros.simps ZERO_BLOCK_def finish_def close_fh_def
      close_grid_fh_def write_companions_def dict_del_def numbered_def dec.simps digit_char_def zeros_def wit_info_def
      info_stopped_def chan_def)

theorem written_file_exact_witness:
  "\<exists>f. filter (\<lambda>f. fr_key f = (''s'', 0)) (wr_finished wit_writer) = [f] \<and>
      (fr_write_error f = None \<longrightarrow>
         disk_file wit_writer (fr_path f) = blank (ri_writer_refused (fr_info f)) [1, 2, 3, 0] \<and>
         fr_path f \<notin> fst ` set [] \<and>
         fr_total_samples f \<in> {0, int (length (disk_file wit_writer (fr_path f)))})"
proof -
  let ?during = "[WrStep, WrOps (''s'', 0) [IQ [1, 2], IQ [3], Zeros 1], WrStep, WrStep]"
  have "file_of (offered (''s'', 0) ?during) = [1, 2, 3, 0]" by (simp add: offered_def file_of_def zeros_def)
  moreover have "ops_ok (offered (''s'', 0) ?during)" by (simp add: offered_def ops_ok_def)
  ultimately show ?thesis
    using written_file_exact [OF _ _ wit_writer_def] wit_writer_chan by (simp add: bystander_def)
qed

end
