(* ===== verification/Sched_Engine.thy ===== *)
theory Sched_Engine
  imports Sched_Writer Grid_PreBuffer
begin

text \<open>
  \<open>schedules/engine.py\<close>: the engine that starts the due runs of the book, feeds each
  active run's cutter with every chunk and hands the operations and the PSD rows to
  the writer. The state of the engine, the book and the writer is one record, with the
  calls made to the writer as a history. Each method is one step (the engine's lock is
  held around what the two threads share). Times and rates are exact rationals. What
  the engine asks of its surroundings is an argument: whether a recording is refused,
  the sensor's name, the directory, and the monotonic clock at the two places where a
  run's step reads it.
\<close>

section \<open>State\<close>

record active =
  ac_cutter :: cutter
  ac_path :: fname
  ac_closing_since :: "rat option"
  ac_grid_until :: "int option"
  ac_grid_seen :: int
  ac_grid_offset :: "int option"
  ac_grid_rows :: int
  ac_first_chunk :: "int option"
  ac_pending :: "(int \<times> rat list) list"
  ac_filler :: "rat option"
  ac_grid_meta :: "grid_meta option"
  ac_grid_dropped :: int

definition active_new :: "cutter \<Rightarrow> fname \<Rightarrow> active" where
  "active_new c path = \<lparr>ac_cutter = c, ac_path = path, ac_closing_since = None, ac_grid_until = None,
     ac_grid_seen = 0, ac_grid_offset = None, ac_grid_rows = 0, ac_first_chunk = None, ac_pending = [],
     ac_filler = None, ac_grid_meta = None, ac_grid_dropped = 0\<rparr>"

record engine =
  eg_grace_ms :: int
  eg_version :: int
  eg_next :: "(string \<times> schedule \<times> int option) list"
  eg_active :: "(run_key \<times> active) list"
  eg_marked :: bool
  eg_refused :: "run_key \<Rightarrow> int"
  eg_grids_flow :: bool

definition engine_new :: "int \<Rightarrow> engine" where
  "engine_new grace_ms = \<lparr>eg_grace_ms = grace_ms, eg_version = -1, eg_next = [], eg_active = [],
     eg_marked = False, eg_refused = (\<lambda>_. 0), eg_grids_flow = False\<rparr>"

record surroundings =
  sd_refusal :: "run_key \<Rightarrow> string option"
  sd_serial :: "string option"
  sd_hostname :: "string option"
  sd_directory :: string
  sd_clock :: "run_key \<Rightarrow> rat \<times> rat"

record world =
  wd_engine :: engine
  wd_book :: book
  wd_db :: sched_db
  wd_writer :: writer
  wd_calls :: "writer_event list"

text \<open>A call of the writer by the engine (it does not touch the disk).\<close>

definition call :: "writer_event \<Rightarrow> world \<Rightarrow> world" where
  "call ev w = w\<lparr>wd_writer := writer_do (\<lambda>_. None) ev (wd_writer w), wd_calls := wd_calls w @ [ev]\<rparr>"

definition on_engine :: "(engine \<Rightarrow> engine) \<Rightarrow> world \<Rightarrow> world" where
  "on_engine f w = w\<lparr>wd_engine := f (wd_engine w)\<rparr>"

definition put_active :: "run_key \<Rightarrow> active \<Rightarrow> world \<Rightarrow> world" where
  "put_active key act = on_engine (\<lambda>e. e\<lparr>eg_active := dict_set key act (eg_active e)\<rparr>)"

definition report :: "string \<Rightarrow> int \<Rightarrow> run_entry \<Rightarrow> world \<Rightarrow> world" where
  "report i k e w = w\<lparr>wd_book := report_run i k e (wd_book w)\<rparr>"

definition missed :: "string \<Rightarrow> int \<Rightarrow> json_obj option \<Rightarrow> run_entry" where
  "missed reason start_ms info = \<lparr>en_status = ''missed'', en_reason = Some reason, en_start_ms = start_ms,
     en_filename = None, en_info = info\<rparr>"

definition MAX_CONCURRENT_RUNS :: nat where "MAX_CONCURRENT_RUNS = 2"
definition GRID_WAIT_SEC :: rat where "GRID_WAIT_SEC = 2"

section \<open>PSD rows\<close>

text \<open>A dictionary entry that is set only if the key is free.\<close>

definition set_default :: "'k \<Rightarrow> 'v \<Rightarrow> ('k \<times> 'v) list \<Rightarrow> ('k \<times> 'v) list" where
  "set_default k v d = (if k \<in> fst ` set d then d else dict_set k v d)"

definition row_number :: "cutter \<Rightarrow> int \<Rightarrow> int \<Rightarrow> int \<Rightarrow> int option" where
  "row_number rc offset slice_samples pos =
     map_option (\<lambda>index. py_round (of_int (index - offset) / of_int slice_samples)) (file_index rc pos)"

text \<open>The rows of a chunk go to their numbers in the file, with filler in the holes before them.\<close>

fun place_each ::
  "cutter \<Rightarrow> int \<Rightarrow> int \<Rightarrow> int \<Rightarrow> int \<Rightarrow> int \<Rightarrow> rat list \<Rightarrow> int \<Rightarrow> grid \<Rightarrow> (int \<times> rat list) list \<Rightarrow> (int \<times> rat list) list" where
  "place_each rc start offset slice_samples lo hi fill pos [] pending = pending"
| "place_each rc start offset slice_samples lo hi fill pos (row # rows) pending =
     (case row_number rc offset slice_samples pos of
        None \<Rightarrow> place_each rc start offset slice_samples lo hi fill (pos + slice_samples) rows pending
      | Some r \<Rightarrow>
          let holes = (if start \<le> pos - slice_samples
                       then (case row_number rc offset slice_samples (pos - slice_samples) of
                               None \<Rightarrow> [] | Some p \<Rightarrow> filter (\<lambda>h. lo \<le> h \<and> h < hi) [p + 1..r - 1])
                       else []);
              pending = fold (\<lambda>h. set_default h fill) holes pending;
              pending = (if lo \<le> r \<and> r < hi then dict_set r row pending else pending)
          in place_each rc start offset slice_samples lo hi fill (pos + slice_samples) rows pending)"

text \<open>Row 0 is the run's first row boundary, whatever chunk's rows arrive first.\<close>

definition locate_first :: "int \<Rightarrow> int \<Rightarrow> int \<Rightarrow> active \<Rightarrow> active" where
  "locate_first start first_chunk slice_samples act = (case ac_grid_offset act of Some _ \<Rightarrow> act
     | None \<Rightarrow> act\<lparr>ac_grid_offset := Some (case file_index (ac_cutter act)
           (first_chunk + - ((first_chunk - start) div slice_samples) * slice_samples) of None \<Rightarrow> 0 | Some i \<Rightarrow> i)\<rparr>)"

text \<open>Rows that lie in the run, the first of them at stream position \<open>first\<close>.\<close>

definition place_trimmed :: "int \<Rightarrow> int \<Rightarrow> grid \<Rightarrow> int \<Rightarrow> active \<Rightarrow> active" where
  "place_trimmed start slice_samples rows first act =
     (if concat rows = [] then act
      else
        let rc = ac_cutter act; offset = the (ac_grid_offset act); low = list_min (concat rows);
            last_row = (rs_n_samples (rc_spec rc) - offset) div slice_samples
        in act\<lparr>ac_filler := Some (case ac_filler act of None \<Rightarrow> low | Some f \<Rightarrow> min f low),
               ac_pending := place_each rc start offset slice_samples (ac_grid_rows act) last_row
                 (replicate (length (hd rows)) low) first rows (ac_pending act)\<rparr>)"

definition place_rows :: "grid \<Rightarrow> int \<Rightarrow> int \<Rightarrow> active \<Rightarrow> active" where
  "place_rows g chunk_start slice_samples act =
     (let rc = ac_cutter act in
      case (rc_stream_start rc, ac_first_chunk act) of
        (Some start, Some first_chunk) \<Rightarrow>
          if slice_samples \<le> 0 then act
          else (case (if rc_done rc then stream_end rc else Some (start + rs_n_samples (rc_spec rc))) of
            None \<Rightarrow> act
          | Some stop \<Rightarrow>
              (case trim_grid_rows g chunk_start slice_samples start stop of (rows, first) \<Rightarrow>
                 place_trimmed start slice_samples rows first (locate_first start first_chunk slice_samples act)))
      | _ \<Rightarrow> act)"

text \<open>The rows that are next in order leave the dictionary.\<close>

function take_ready :: "int \<Rightarrow> (int \<times> rat list) list \<Rightarrow> grid \<Rightarrow> grid \<times> int \<times> (int \<times> rat list) list" where
  "take_ready n pending out = (case map_of pending n of
     None \<Rightarrow> (out, n, pending)
   | Some row \<Rightarrow> take_ready (n + 1) (dict_del n pending) (out @ [row]))"
  by pat_completeness auto
termination
proof (relation "measure (\<lambda>(_, pending, _). length pending)", goal_cases)
  case (2 n pending out row)
  then have "(n, row) \<in> set pending" by (simp add: map_of_SomeD)
  then show ?case by (auto simp: dict_del_def intro: length_filter_less [where x = "(n, row)"])
qed simp

declare take_ready.simps [simp del]

text \<open>The rest at the end of a run, with filler for the rows that never came.\<close>

function take_all :: "rat list \<Rightarrow> int \<Rightarrow> int \<Rightarrow> (int \<times> rat list) list \<Rightarrow> grid \<Rightarrow> grid \<times> int \<times> (int \<times> rat list) list" where
  "take_all fill high n pending out =
     (if n \<le> high
      then take_all fill high (n + 1) (dict_del n pending)
             (out @ [case map_of pending n of None \<Rightarrow> fill | Some row \<Rightarrow> row])
      else (out, n, pending))"
  by pat_completeness auto
termination
  by (relation "measure (\<lambda>(_, high, n, _). nat (high + 1 - n))") auto

declare take_all.simps [simp del]

definition ready_rows :: "bool \<Rightarrow> active \<Rightarrow> grid \<times> active" where
  "ready_rows final act =
     (let (out, n, pending) = (if final \<and> ac_pending act \<noteq> []
            then take_all (replicate (length (snd (hd (ac_pending act)))) (case ac_filler act of None \<Rightarrow> 0 | Some f \<Rightarrow> f))
                   (list_max (map fst (ac_pending act))) (ac_grid_rows act) (ac_pending act) []
            else ([], ac_grid_rows act, ac_pending act));
          (out, n, pending) = take_ready n pending out
      in (out, act\<lparr>ac_grid_rows := n, ac_pending := pending\<rparr>))"

text \<open>Handing the writer the rows that are ready; the run's record may no longer be active.\<close>

definition flush_rows :: "run_key \<Rightarrow> bool \<Rightarrow> active \<Rightarrow> world \<Rightarrow> active \<times> world" where
  "flush_rows key final act w =
     (let (rows, act) = ready_rows final act in
      case ac_grid_meta act of
        None \<Rightarrow> (act, w)
      | Some meta \<Rightarrow>
          if rows = [] then (act, w)
          else
            let meta = meta\<lparr>gm_offset_samples := (case ac_grid_offset act of None \<Rightarrow> 0 | Some i \<Rightarrow> i)\<rparr>;
                ok = fst (put_grid key rows meta (wd_writer w));
                act = (if ok then act else act\<lparr>ac_grid_dropped := ac_grid_dropped act + int (length rows)\<rparr>)
            in (act, call (WrGrid key rows meta) w))"

text \<open>\<open>grid_of\<close> is the PSD grid of a chunk: its rows, and its two axes.\<close>

definition on_grid :: "grid \<Rightarrow> rat list \<Rightarrow> rat list \<Rightarrow> int \<Rightarrow> int \<Rightarrow> rat option \<Rightarrow> world \<Rightarrow> world" where
  "on_grid g freq_axis time_axis chunk_start slice_samples cal_offset_db w =
     (let meta = \<lparr>gm_freq_axis = freq_axis,
                  gm_time_res = (if 1 < length time_axis then time_axis ! 1 - time_axis ! 0 else 0),
                  gm_offset_samples = 0, gm_slice_samples = slice_samples, gm_cal_offset_db = cal_offset_db\<rparr>;
          keys = map fst (eg_active (wd_engine w))
      in fold (\<lambda>key w. case map_of (eg_active (wd_engine w)) key of None \<Rightarrow> w
           | Some act \<Rightarrow>
               let act = act\<lparr>ac_grid_seen := max (ac_grid_seen act) (chunk_start + int (length g) * slice_samples),
                             ac_grid_meta := Some (case ac_grid_meta act of None \<Rightarrow> meta | Some m \<Rightarrow> m)\<rparr>;
                   (act, w) = flush_rows key False (place_rows g chunk_start slice_samples act) w
               in put_active key act w)
         keys (on_engine (\<lambda>e. e\<lparr>eg_grids_flow := True\<rparr>) w))"

section \<open>Closing\<close>

definition info_of :: "active \<Rightarrow> int \<Rightarrow> run_info" where
  "info_of act refused =
     (let rc = ac_cutter act; i = cutter_info_of rc in
      \<lparr>ri_status = Some (if refused \<noteq> 0 \<and> cutter_status rc = ''recorded'' then ''partial'' else cutter_status rc),
       ri_reason = rc_reason rc, ri_gaps = ci_gaps i, ri_writer_refused = [],
       ri_first_sample_epoch = ci_first_sample_epoch i, ri_start_error_ns = ci_start_error_ns i,
       ri_late_start_samples = ci_late_start_samples i, ri_refused_samples = refused,
       ri_grid_rows_dropped = ac_grid_dropped act\<rparr>)"

definition close_run :: "run_key \<Rightarrow> world \<Rightarrow> world" where
  "close_run key w = (case map_of (eg_active (wd_engine w)) key of None \<Rightarrow> w
     | Some act \<Rightarrow>
         let w = on_engine (\<lambda>e. e\<lparr>eg_active := dict_del key (eg_active e)\<rparr>) w;
             (act, w) = flush_rows key True act w;
             refused = eg_refused (wd_engine w) key;
             w = on_engine (\<lambda>e. e\<lparr>eg_refused := (eg_refused e)(key := 0)\<rparr>) w
         in call (WrClose key (info_of act refused)) w)"

definition stop_one :: "string \<Rightarrow> run_key \<Rightarrow> world \<Rightarrow> world" where
  "stop_one reason key w = (case map_of (eg_active (wd_engine w)) key of None \<Rightarrow> w
     | Some act \<Rightarrow> close_run key
         (if ac_closing_since act = None then put_active key (act\<lparr>ac_cutter := cutter_end reason (ac_cutter act)\<rparr>) w
          else w))"

definition engine_stop :: "string \<Rightarrow> world \<Rightarrow> world" where
  "engine_stop reason w = fold (stop_one reason) (map fst (eg_active (wd_engine w))) w"

section \<open>Starting runs\<close>

definition stamp :: "int \<Rightarrow> string" where
  "stamp secs = (let (y, m, d) = ord2ymd (secs div 86400 + epoch_ord); t = nat (secs mod 86400)
     in show_nat 4 (nat y) @ show_nat 2 m @ show_nat 2 d @ ''T'' @ show_nat 2 (t div 3600) @
        show_nat 2 (t div 60 mod 60) @ show_nat 2 (t mod 60))"

definition or_else :: "string option \<Rightarrow> string \<Rightarrow> string" where
  "or_else s d = (case s of None \<Rightarrow> d | Some x \<Rightarrow> if x = [] then d else x)"

definition path_of :: "surroundings \<Rightarrow> run_spec \<Rightarrow> fname" where
  "path_of env spec =
     (sd_directory env @ ''/'' @ or_else (sd_serial env) ''sensor'' @ ''-'' @ or_else (sd_hostname env) ''host'' @
      ''-'' @ stamp (rs_start_ms spec div 1000) @ show_nat 3 (nat (rs_start_ms spec mod 1000)) @ ''-sched-'' @
      rs_schedule_id spec @ ''-'' @ dec (nat (rs_run spec)), ''.sc16'')"

definition file_name :: "fname \<Rightarrow> string" where
  "file_name p = rev (takeWhile (\<lambda>c. c \<noteq> CHR ''/'') (rev (fst p))) @ snd p"

text \<open>Runs recording samples, that is not only waiting for their PSD rows.\<close>

definition recording_runs :: "engine \<Rightarrow> nat" where
  "recording_runs e = length (filter (\<lambda>(_, act). ac_closing_since act = None) (eg_active e))"

definition spec_of :: "schedule \<Rightarrow> int \<Rightarrow> rat \<Rightarrow> rat \<Rightarrow> run_spec" where
  "spec_of s k center_freq_hz rate_hz = \<lparr>rs_schedule_id = sch_id s, rs_run = k, rs_start_ms = run_start_ms s k,
     rs_n_samples = max 1 (py_round (of_int (sch_duration_ms s) * rate_hz / 1000)), rs_rate_hz = rate_hz,
     rs_center_freq_hz = center_freq_hz, rs_label = sch_label s\<rparr>"

definition start_run :: "surroundings \<Rightarrow> rat \<Rightarrow> rat \<Rightarrow> rat \<Rightarrow> schedule \<Rightarrow> int \<Rightarrow> world \<Rightarrow> world" where
  "start_run env oldest_time center_freq_hz rate_hz s k w =
     (let start_ms = run_start_ms s k; key = (sch_id s, k) in
      if of_int (start_ms + sch_duration_ms s) / 1000 \<le> oldest_time
      then report (sch_id s) k (missed ''not_running'' start_ms None) w
      else if MAX_CONCURRENT_RUNS \<le> recording_runs (wd_engine w)
      then report (sch_id s) k (missed ''busy'' start_ms None) w
      else case sd_refusal env key of
        Some refused \<Rightarrow> report (sch_id s) k (missed ''storage'' start_ms (Some [(''detail'', JStr refused)])) w
      | None \<Rightarrow>
          let spec = spec_of s k center_freq_hz rate_hz;
              path = path_of env spec
          in report (sch_id s) k \<lparr>en_status = ''recording'', en_reason = None, en_start_ms = start_ms,
                 en_filename = Some (file_name path), en_info = None\<rparr>
               (put_active key (active_new (cutter_new spec) path) (call (WrOpen key path spec) w)))"

text \<open>
  The loop over a schedule's due runs. The starts of its runs increase, so the number
  of milliseconds up to the end of the chunk is fuel enough.
\<close>

fun due_loop ::
  "nat \<Rightarrow> surroundings \<Rightarrow> rat \<Rightarrow> rat \<Rightarrow> rat \<Rightarrow> rat \<Rightarrow> schedule \<Rightarrow> int option \<Rightarrow> world \<Rightarrow> int option \<times> world" where
  "due_loop fuel env chunk_end oldest_time freq rate s None w = (None, w)"
| "due_loop 0 env chunk_end oldest_time freq rate s (Some k) w = (Some k, w)"
| "due_loop (Suc fuel) env chunk_end oldest_time freq rate s (Some k) w =
     (if of_int (run_start_ms s k) / 1000 < chunk_end
      then due_loop fuel env chunk_end oldest_time freq rate s (first_run_from s (run_start_ms s k + 1))
             (start_run env oldest_time freq rate s k w)
      else (Some k, w))"

definition due_fuel :: "rat \<Rightarrow> schedule \<Rightarrow> int option \<Rightarrow> nat" where
  "due_fuel chunk_end s k = (case k of None \<Rightarrow> 0 | Some k \<Rightarrow> nat (\<lceil>chunk_end * 1000\<rceil> - run_start_ms s k))"

definition start_due_one ::
  "surroundings \<Rightarrow> rat \<Rightarrow> rat \<Rightarrow> rat \<Rightarrow> rat \<Rightarrow> string \<times> schedule \<times> int option \<Rightarrow> world \<Rightarrow> world" where
  "start_due_one env chunk_end oldest_time freq rate = (\<lambda>(sid, s, k) w.
     let (k, w) = due_loop (due_fuel chunk_end s k) env chunk_end oldest_time freq rate s k w
     in on_engine (\<lambda>e. e\<lparr>eg_next := dict_set sid (s, k) (eg_next e)\<rparr>) w)"

definition start_due :: "surroundings \<Rightarrow> rat \<Rightarrow> rat \<Rightarrow> rat \<Rightarrow> rat \<Rightarrow> world \<Rightarrow> world" where
  "start_due env chunk_end oldest_time freq rate w =
     fold (start_due_one env chunk_end oldest_time freq rate) (eg_next (wd_engine w)) w"

text \<open>The next run of a schedule that is new in the plan.\<close>

definition first_planned :: "int \<Rightarrow> book \<Rightarrow> schedule \<Rightarrow> int option" where
  "first_planned from_ms b s =
     (case first_run_from s from_ms of None \<Rightarrow> None
      | Some k \<Rightarrow> (case last_run (sch_id s) b of None \<Rightarrow> Some k
          | Some l \<Rightarrow> if k \<le> l then (if l + 1 < total_runs s then Some (l + 1) else None) else Some k))"

definition refresh :: "rat \<Rightarrow> world \<Rightarrow> world" where
  "refresh capture_time w =
     (let e = wd_engine w; (version, schedules) = snapshot (wd_book w);
          from_ms = py_int (capture_time * 1000) - eg_grace_ms e
      in if int version = eg_version e then w
         else on_engine (\<lambda>e. e\<lparr>eg_version := int version,
           eg_next := dict_of (map (\<lambda>s. (sch_id s, case map_of (eg_next e) (sch_id s) of
             Some p \<Rightarrow> p | None \<Rightarrow> (s, first_planned from_ms (wd_book w) s))) schedules)\<rparr>) w)"

definition mark_one :: "int \<Rightarrow> schedule \<Rightarrow> world \<Rightarrow> world" where
  "mark_one now_ms s w =
     (let grace_ms = eg_grace_ms (wd_engine w); newest = last_run (sch_id s) (wd_book w) in
      if (case newest of None \<Rightarrow> False | Some k \<Rightarrow> total_runs s \<le> k + 1) then w
      else
        let t0 = (case newest of None \<Rightarrow> sch_start_ms s | Some k \<Rightarrow> run_start_ms s (k + 1));
            t0 = max t0 (sch_created_ms s - grace_ms)
        in fold (\<lambda>k. report (sch_id s) k (missed ''not_running'' (run_start_ms s k) None))
             (runs_between s t0 (now_ms - grace_ms) (int RUNS_KEPT)) w)"

definition mark_missed :: "int \<Rightarrow> world \<Rightarrow> world" where
  "mark_missed now_ms w = fold (mark_one now_ms) (snd (snapshot (wd_book w))) w"

section \<open>A chunk\<close>

definition feed_run ::
  "surroundings \<Rightarrow> iq \<Rightarrow> int \<Rightarrow> rat \<Rightarrow> gap list \<Rightarrow> rat \<Rightarrow> int ring_reader option \<Rightarrow> run_key \<Rightarrow> world \<Rightarrow> world" where
  "feed_run env chunk chunk_start capture_time gaps freq ring key w =
     (case map_of (eg_active (wd_engine w)) key of None \<Rightarrow> w
      | Some act \<Rightarrow>
          if ac_closing_since act \<noteq> None then w
          else
            let (rc, ops) = cutter_feed chunk chunk_start capture_time gaps freq ring (ac_cutter act);
                act = act\<lparr>ac_cutter := rc,
                  ac_first_chunk := (if ac_first_chunk act = None \<and> rc_started rc then Some chunk_start
                                     else ac_first_chunk act)\<rparr>;
                w = (if ops = [] then w
                     else let refused = fst (put_ops key ops (wd_writer w))
                          in on_engine (\<lambda>e. e\<lparr>eg_refused := (eg_refused e)(key := eg_refused e key + refused)\<rparr>)
                               (call (WrOps key ops) w));
                act = (if rc_done rc
                       then act\<lparr>ac_closing_since := Some (fst (sd_clock env key)),
                                ac_grid_until := (if rc_stream_start rc = None then None else stream_end rc)\<rparr>
                       else act)
            in put_active key act w)"

definition ready_to_close :: "surroundings \<Rightarrow> run_key \<Rightarrow> world \<Rightarrow> bool" where
  "ready_to_close env key w = (case map_of (eg_active (wd_engine w)) key of None \<Rightarrow> False
     | Some act \<Rightarrow> (case ac_closing_since act of None \<Rightarrow> False
        | Some since \<Rightarrow> \<not> eg_grids_flow (wd_engine w) \<or>
            (case ac_grid_until act of None \<Rightarrow> True
             | Some stop \<Rightarrow> stop \<le> ac_grid_seen act \<and> ac_pending act = []) \<or>
            GRID_WAIT_SEC \<le> snd (sd_clock env key) - since))"

definition on_chunk ::
  "surroundings \<Rightarrow> iq \<Rightarrow> int \<Rightarrow> rat \<Rightarrow> gap list \<Rightarrow> rat \<Rightarrow> rat \<Rightarrow> int ring_reader option \<Rightarrow> world \<Rightarrow> world" where
  "on_chunk env chunk chunk_start capture_time gaps freq rate ring w =
     (let w = (if eg_marked (wd_engine w) then w
               else mark_missed (py_int (capture_time * 1000)) (on_engine (\<lambda>e. e\<lparr>eg_marked := True\<rparr>) w));
          w = refresh capture_time w;
          lost = (\<Sum>(_, lost) \<leftarrow> filter (\<lambda>(off, _). 0 < off) gaps. lost);
          chunk_end = capture_time + of_int (int (length chunk) + lost) / rate;
          oldest_time = (case ring of None \<Rightarrow> capture_time
            | Some r \<Rightarrow> capture_time - of_int (chunk_start - fst (rr_bounds r)) / rate);
          w = start_due env chunk_end oldest_time freq rate w
      in fold (\<lambda>key w.
           let w = feed_run env chunk chunk_start capture_time gaps freq ring key w
           in if ready_to_close env key w then close_run key w else w)
         (map fst (eg_active (wd_engine w))) w)"

section \<open>The runs a chunk starts\<close>

definition due :: "rat \<Rightarrow> schedule \<Rightarrow> int \<Rightarrow> bool" where
  "due chunk_end s j \<longleftrightarrow> of_int (run_start_ms s j) / 1000 < chunk_end"

lemma following_run:
  assumes "sched_wf s" "0 \<le> k" "k < total_runs s"
  shows "first_run_from s (run_start_ms s k + 1) = (if k + 1 < total_runs s then Some (k + 1) else None)"
  using assms(1)
proof (cases rule: sched_wf_cases)
  case one_shot
  then show ?thesis using assms(2,3) by (simp add: first_run_from_def run_start_ms_def)
next
  case (repeating e)
  have "ceil_div (k * e + 1) e \<le> j \<longleftrightarrow> k + 1 \<le> j" for j
    using ceil_div_le_iff [OF repeating(2), of "k * e + 1" j] mult_less_cancel_right_pos [OF repeating(2), of k j]
    by linarith
  then have "ceil_div (k * e + 1) e = k + 1" by (metis order_antisym order_refl)
  then show ?thesis
    using first_run_from_repeating [OF repeating(1,2), of "run_start_ms s k + 1"] repeating(1) assms(2)
    by (simp add: run_start_ms_def)
qed

lemma run_start_mono: "sched_wf s \<Longrightarrow> j \<le> k \<Longrightarrow> run_start_ms s j \<le> run_start_ms s k"
  by (erule sched_wf_cases) (simp_all add: run_start_ms_def mult_right_mono)

lemma due_mono: "sched_wf s \<Longrightarrow> j \<le> k \<Longrightarrow> due ce s k \<Longrightarrow> due ce s j"
  using run_start_mono [of s j k] by (simp add: due_def)

lemma due_fuel_enough: "due ce s k \<Longrightarrow> 0 < due_fuel ce s (Some k)"
  by (simp add: due_def due_fuel_def) linarith

lemma upto_from: "k < n \<Longrightarrow> [k..n - 1] = k # [k + 1..n - (1 :: int)]"
  by (simp add: upto.simps)

lemma none_due:
  assumes "sched_wf s" "\<not> due ce s k"
  shows "filter (due ce s) [k..n] = []"
  using assms due_mono [of s k _ ce] by (auto simp: filter_empty_conv)

lemma due_loop_exact:
  assumes "sched_wf s" "0 \<le> k" "k < total_runs s" "due_fuel ce s (Some k) \<le> fuel"
  shows "due_loop fuel env ce ot freq rate s (Some k) w =
    (find (\<lambda>j. \<not> due ce s j) [k..total_runs s - 1],
     fold (start_run env ot freq rate s) (filter (due ce s) [k..total_runs s - 1]) w)"
  using assms(2-4)
proof (induction fuel arbitrary: k w)
  case 0
  then have nd: "\<not> due ce s k" using due_fuel_enough [of ce s k] by auto
  then have "find (\<lambda>j. \<not> due ce s j) [k..total_runs s - 1] = Some k" using 0 by (simp add: upto_from)
  then show ?case using none_due [OF assms(1) nd] by simp
next
  case (Suc fuel)
  show ?case
  proof (cases "due ce s k")
    case False
    then have "find (\<lambda>j. \<not> due ce s j) [k..total_runs s - 1] = Some k" using Suc.prems by (simp add: upto_from)
    then show ?thesis using none_due [OF assms(1) False] False [unfolded due_def] by simp
  next
    case True
    show ?thesis
    proof (cases "k + 1 < total_runs s")
      case last: False
      then have "[k..total_runs s - 1] = [k]" using Suc.prems by (simp add: upto_from)
      then show ?thesis
        using True last following_run [OF assms(1) Suc.prems(1,2)] by (simp add: due_def)
    next
      case more: True
      have "run_start_ms s k < run_start_ms s (k + 1)"
        using assms(1)
      proof (cases rule: sched_wf_cases)
        case one_shot
        then show ?thesis using more Suc.prems(1) by simp
      qed (simp add: run_start_ms_def ring_distribs)
      then have "due_fuel ce s (Some (k + 1)) \<le> fuel" using Suc.prems(3) by (simp add: due_fuel_def)
      then have IH: "due_loop fuel env ce ot freq rate s (Some (k + 1)) w' =
        (find (\<lambda>j. \<not> due ce s j) [k + 1..total_runs s - 1],
         fold (start_run env ot freq rate s) (filter (due ce s) [k + 1..total_runs s - 1]) w')" for w'
        using Suc.IH [of "k + 1" w'] more Suc.prems(1) by simp
      show ?thesis
        using True more following_run [OF assms(1) Suc.prems(1,2)] IH Suc.prems
        by (simp add: upto_from) (simp add: due_def)
    qed
  qed
qed

text \<open>
  C14: the due runs of a schedule. For a schedule of the book, a chunk starts exactly the
  runs from the planned one on that begin before the chunk's end, each once and in
  order (the loop ends), and the run planned next is the first later one, none if the
  schedule is over.
\<close>

theorem due_runs_started:
  assumes "sched_wf s" "0 \<le> k" "k < total_runs s"
  shows "start_due_one env chunk_end oldest freq rate (sid, s, Some k) w =
    (let runs = [k..total_runs s - 1]
     in on_engine (\<lambda>e. e\<lparr>eg_next := dict_set sid (s, find (\<lambda>j. \<not> due chunk_end s j) runs) (eg_next e)\<rparr>)
          (fold (start_run env oldest freq rate s) (filter (due chunk_end s) runs) w))"
  using due_loop_exact [OF assms order_refl] by (simp add: start_due_one_def Let_def)

section \<open>At most two runs record\<close>

text \<open>What the operations do to the active runs' state other than their PSD rows.\<close>

definition same_run :: "active \<Rightarrow> active \<Rightarrow> bool" where
  "same_run a b \<longleftrightarrow> ac_cutter a = ac_cutter b \<and> ac_path a = ac_path b \<and> ac_closing_since a = ac_closing_since b \<and>
     ac_first_chunk a = ac_first_chunk b"

lemma same_run_ready: "ready_rows final act = (rows, act') \<Longrightarrow> same_run act' act"
  by (auto simp: ready_rows_def same_run_def Let_def split: prod.splits)

lemma same_run_simps: "same_run (locate_first st fc ss act) act" "same_run (place_trimmed st ss rows f act') act'"
  by (simp_all add: locate_first_def place_trimmed_def same_run_def Let_def split: option.split)

lemma same_run_trans: "same_run a b \<Longrightarrow> same_run b c \<Longrightarrow> same_run a c"
  by (simp add: same_run_def)

lemma same_run_refl: "same_run a a"
  by (simp add: same_run_def)

lemma same_run_place: "same_run (place_rows g cs ss act) act"
  using same_run_trans [OF same_run_simps(2,1)]
  by (simp add: place_rows_def Let_def same_run_refl split: option.split prod.split)

lemma flush_rows_cases:
  assumes "flush_rows key final act w = (act', w')"
  shows "same_run act' act \<and> (w' = w \<or> (\<exists>rows meta. w' = call (WrGrid key rows meta) w))"
proof -
  obtain rows a where r: "ready_rows final act = (rows, a)" by fastforce
  note s = same_run_ready [OF r]
  have "same_run (a\<lparr>ac_grid_dropped := n\<rparr>) act" for n using s by (simp add: same_run_def)
  then show ?thesis using assms s by (auto simp: flush_rows_def r Let_def split: option.splits if_splits)
qed

lemma world_sel [simp]:
  "wd_engine (call ev w) = wd_engine w" "wd_book (call ev w) = wd_book w" "wd_db (call ev w) = wd_db w"
  "wd_calls (call ev w) = wd_calls w @ [ev]"
  "wd_engine (on_engine f w) = f (wd_engine w)" "wd_book (on_engine f w) = wd_book w" "wd_db (on_engine f w) = wd_db w"
  "wd_calls (on_engine f w) = wd_calls w" "wd_writer (on_engine f w) = wd_writer w"
  "wd_engine (report i k e w) = wd_engine w" "wd_calls (report i k e w) = wd_calls w" "wd_db (report i k e w) = wd_db w"
  "wd_book (report i k e w) = report_run i k e (wd_book w)" "wd_writer (report i k e w) = wd_writer w"
  "wd_book (put_active key act w) = wd_book w" "wd_calls (put_active key act w) = wd_calls w"
  "wd_db (put_active key act w) = wd_db w" "wd_writer (put_active key act w) = wd_writer w"
  "wd_engine (put_active key act w) = (wd_engine w)\<lparr>eg_active := dict_set key act (eg_active (wd_engine w))\<rparr>"
  by (simp_all add: call_def on_engine_def report_def put_active_def)

section \<open>PSD rows arrive in any order\<close>

























theorem due_runs_started_witness:
  "\<forall>env freq rate w. start_due_one env 1793212205 0 freq rate (''x'', example_sched, Some 0) w =
     on_engine (\<lambda>e. e\<lparr>eg_next := dict_set ''x'' (example_sched, Some 1) (eg_next e)\<rparr>)
       (start_run env 0 freq rate example_sched 0 w)"
  by (intro allI, subst due_runs_started [OF example_sched_wf])
    (simp_all add: example_sched_def total_runs_def upto.simps due_def run_start_ms_def Let_def)

end
