(* ===== verification/Sched_System.thy ===== *)
theory Sched_System
  imports Sched_Engine
begin

text \<open>
  The scheduled captures as a system: the receiver thread's chunks, the dispatch
  thread's PSD grids, the API's and the event loop's steps on the book, the writer
  thread's steps and the stopping of the pipeline, in any order. An event is one step.
  The theory follows one run key through the events: it is opened at most once, fed
  every chunk from then on, and closed once.
\<close>

section \<open>Events\<close>

datatype sys_event =
  SyChunk surroundings iq int rat "gap list" rat rat "int ring_reader option"
| SyGrid grid "rat list" "rat list" int int "rat option"
| SyStop string
| SyBook book_event
| SyStartWriter
| SyWriter

definition world_new :: "int \<Rightarrow> int \<Rightarrow> (fname \<times> iq) list \<Rightarrow> world" where
  "world_new grace_ms budget disk = \<lparr>wd_engine = engine_new grace_ms, wd_book = bind_loop book_new,
     wd_db = db_empty, wd_writer = writer_new budget disk, wd_calls = []\<rparr>"

fun sys_do :: "io_oracle \<Rightarrow> sys_event \<Rightarrow> world \<Rightarrow> world" where
  "sys_do io (SyChunk env chunk chunk_start t gaps freq rate ring) w =
     on_chunk env chunk chunk_start t gaps freq rate ring w"
| "sys_do io (SyGrid g freq_axis time_axis chunk_start ss cal) w = on_grid g freq_axis time_axis chunk_start ss cal w"
| "sys_do io (SyStop reason) w = engine_stop reason w"
| "sys_do io (SyBook ev) w =
     w\<lparr>wd_db := fst (book_step ev (wd_db w, wd_book w)), wd_book := snd (book_step ev (wd_db w, wd_book w))\<rparr>"
| "sys_do io SyStartWriter w = call WrStart w"
| "sys_do io SyWriter w = w\<lparr>wd_writer := writer_step io (wd_writer w), wd_calls := wd_calls w @ [WrStep]\<rparr>"

definition sys_run :: "io_oracle \<Rightarrow> sys_event list \<Rightarrow> world \<Rightarrow> world" where
  "sys_run io evs w = fold (sys_do io) evs w"

lemma sys_run_simps: "sys_run io [] w = w" "sys_run io (evs @ [ev]) w = sys_do io ev (sys_run io evs w)"
  by (simp_all add: sys_run_def)

text \<open>An invariant of a step is one of the loop.\<close>

lemma fold_invariant: "(\<And>x w. x \<in> set xs \<Longrightarrow> P w \<Longrightarrow> P (f x w)) \<Longrightarrow> P w \<Longrightarrow> P (fold f xs w)"
  by (induction xs arbitrary: w) auto

section \<open>At most two runs record\<close>

definition waits_or :: "active \<Rightarrow> active \<Rightarrow> bool" where
  "waits_or a b \<longleftrightarrow> (ac_closing_since a = None \<longrightarrow> ac_closing_since b = None)"

definition recs :: "(run_key \<times> active) list \<Rightarrow> nat" where
  "recs d = length (filter (\<lambda>(_, act). ac_closing_since act = None) d)"

lemma recs_dict_del: "recs (dict_del k d) \<le> recs d"
  unfolding recs_def dict_del_def by (induction d) auto

lemma recs_simps: "recs (xs @ ys) = recs xs + recs ys" "recs ((k, a) # xs) = (if ac_closing_since a = None then 1 else 0) + recs xs"
  by (simp_all add: recs_def)

lemma recs_dict_set:
  assumes "distinct (map fst d)"
  shows "recs (dict_set k a d) \<le> recs d + 1"
    and "map_of d k = Some b \<Longrightarrow> waits_or a b \<Longrightarrow> recs (dict_set k a d) \<le> recs d"
proof -
  show "recs (dict_set k a d) \<le> recs d + 1"
  proof (cases "map_of d k")
    case None
    then have "k \<notin> fst ` set d" by (simp add: map_of_eq_None_iff)
    then show ?thesis by (simp add: dict_set_def recs_def)
  next
    case (Some b)
    from dict_set_split [OF assms this, of a] show ?thesis by (auto simp: recs_simps)
  qed
  assume b: "map_of d k = Some b" "waits_or a b"
  from dict_set_split [OF assms b(1), of a] b(2) show "recs (dict_set k a d) \<le> recs d"
    by (auto simp: recs_simps waits_or_def)
qed

definition runs_ok :: "world \<Rightarrow> bool" where
  "runs_ok w \<longleftrightarrow> distinct (map fst (eg_active (wd_engine w))) \<and> recs (eg_active (wd_engine w)) \<le> MAX_CONCURRENT_RUNS"

lemma runs_ok_same: "eg_active (wd_engine w') = eg_active (wd_engine w) \<Longrightarrow> runs_ok w \<Longrightarrow> runs_ok w'"
  by (simp add: runs_ok_def)

lemma runs_ok_set:
  "runs_ok w \<Longrightarrow> map_of (eg_active (wd_engine w)) key = Some b \<Longrightarrow> waits_or a b \<Longrightarrow> runs_ok (put_active key a w)"
  using recs_dict_set(2) [of "eg_active (wd_engine w)" key b a] by (simp add: runs_ok_def distinct_dict_set)

lemma same_run_waits: "same_run a b \<Longrightarrow> waits_or a b"
  by (simp add: same_run_def waits_or_def)

lemma flush_rows_engine: "flush_rows key final act w = (act', w') \<Longrightarrow> wd_engine w' = wd_engine w \<and> wd_book w' = wd_book w \<and> wd_db w' = wd_db w"
  using flush_rows_cases [of key final act w act' w'] by auto

lemma runs_ok_close: "runs_ok w \<Longrightarrow> runs_ok (close_run key w)"
proof (cases "map_of (eg_active (wd_engine w)) key")
  case (Some act)
  assume r: "runs_ok w"
  define w1 where "w1 = on_engine (\<lambda>e. e\<lparr>eg_active := dict_del key (eg_active e)\<rparr>) w"
  obtain act2 w2 where f: "flush_rows key True act w1 = (act2, w2)" by fastforce
  have "wd_engine w2 = wd_engine w1" using flush_rows_engine [OF f] by simp
  then have "eg_active (wd_engine (close_run key w)) = dict_del key (eg_active (wd_engine w))"
    using Some f by (simp add: close_run_def w1_def [symmetric] Let_def del: map_of_eq_Some_iff) (simp add: w1_def)
  then show ?thesis
    using r recs_dict_del [of key "eg_active (wd_engine w)"] by (simp add: runs_ok_def distinct_dict_del)
qed (simp add: close_run_def)

lemma runs_ok_stop: "runs_ok w \<Longrightarrow> runs_ok (stop_one reason key w)"
  by (auto simp: stop_one_def waits_or_def intro!: runs_ok_close runs_ok_set split: option.splits)

lemma start_run_cases:
  "(\<exists>e. start_run env ot freq rate s k w = report (sch_id s) k e w) \<or>
   \<not> MAX_CONCURRENT_RUNS \<le> recording_runs (wd_engine w) \<and>
   (\<exists>e path. start_run env ot freq rate s k w = report (sch_id s) k e
      (put_active (sch_id s, k) (active_new (cutter_new (spec_of s k freq rate)) path)
        (call (WrOpen (sch_id s, k) path (spec_of s k freq rate)) w)))"
proof (cases "of_int (run_start_ms s k + sch_duration_ms s) / 1000 \<le> ot")
  case False
  show ?thesis
  proof (cases "MAX_CONCURRENT_RUNS \<le> recording_runs (wd_engine w)")
    case nb: False
    show ?thesis
    proof (cases "sd_refusal env (sch_id s, k)")
      case None
      define path where "path = path_of env (spec_of s k freq rate)"
      have "\<exists>e. start_run env ot freq rate s k w = report (sch_id s) k e
        (put_active (sch_id s, k) (active_new (cutter_new (spec_of s k freq rate)) path)
          (call (WrOpen (sch_id s, k) path (spec_of s k freq rate)) w))"
        unfolding start_run_def Let_def path_def [symmetric] if_not_P [OF False] if_not_P [OF nb] None option.case by (rule exI) (rule refl)
      then show ?thesis using nb by blast
    next
      case (Some a)
      then show ?thesis using False nb unfolding start_run_def Let_def by (intro disjI1) auto
    qed
  qed (use False in \<open>auto simp: start_run_def Let_def\<close>)
qed (auto simp: start_run_def Let_def)

lemma runs_ok_start: "runs_ok w \<Longrightarrow> runs_ok (start_run env ot freq rate s k w)"
proof -
  assume r: "runs_ok w"
  from start_run_cases [of env ot freq rate s k w] show ?thesis
  proof (elim disjE exE conjE)
    fix e assume "start_run env ot freq rate s k w = report (sch_id s) k e w"
    then show ?thesis using r by (simp add: runs_ok_def)
  next
    fix e path assume "\<not> MAX_CONCURRENT_RUNS \<le> recording_runs (wd_engine w)"
      "start_run env ot freq rate s k w = report (sch_id s) k e
        (put_active (sch_id s, k) (active_new (cutter_new (spec_of s k freq rate)) path)
          (call (WrOpen (sch_id s, k) path (spec_of s k freq rate)) w))"
    then show ?thesis
      using r recs_dict_set(1) [of "eg_active (wd_engine w)" "(sch_id s, k)" "active_new (cutter_new (spec_of s k freq rate)) path"]
      by (simp add: runs_ok_def distinct_dict_set recording_runs_def recs_def [symmetric])
  qed
qed

lemma runs_ok_due: "runs_ok w \<Longrightarrow> runs_ok (snd (due_loop fuel env ce ot freq rate s k w))"
  by (induction fuel env ce ot freq rate s k w rule: due_loop.induct) (simp_all add: runs_ok_start)

lemma runs_ok_feed: "runs_ok w \<Longrightarrow> runs_ok (feed_run env chunk cs t gaps freq ring key w)"
proof (cases "map_of (eg_active (wd_engine w)) key")
  case (Some act)
  assume r: "runs_ok w"
  show ?thesis
  proof (cases "ac_closing_since act")
    case None
    obtain rc ops where c: "cutter_feed chunk cs t gaps freq ring (ac_cutter act) = (rc, ops)" by fastforce
    obtain act' w' where s: "feed_run env chunk cs t gaps freq ring key w = put_active key act' w'"
      "eg_active (wd_engine w') = eg_active (wd_engine w)"
      using Some None c by (simp add: feed_run_def Let_def del: map_of_eq_Some_iff)
    show ?thesis
      unfolding s(1) by (rule runs_ok_set [of _ _ act]) (use r s Some None in \<open>simp_all add: runs_ok_def waits_or_def\<close>)
  next
    case (Some a)
    then show ?thesis using r \<open>map_of (eg_active (wd_engine w)) key = Some act\<close>
      by (simp add: feed_run_def del: map_of_eq_Some_iff)
  qed
qed (simp add: feed_run_def)

text \<open>The step of a grid for one run.\<close>

definition grid_run :: "grid \<Rightarrow> grid_meta \<Rightarrow> int \<Rightarrow> int \<Rightarrow> run_key \<Rightarrow> world \<Rightarrow> world" where
  "grid_run g meta chunk_start slice_samples key w = (case map_of (eg_active (wd_engine w)) key of None \<Rightarrow> w
     | Some act \<Rightarrow>
         let act = act\<lparr>ac_grid_seen := max (ac_grid_seen act) (chunk_start + int (length g) * slice_samples),
                       ac_grid_meta := Some (case ac_grid_meta act of None \<Rightarrow> meta | Some m \<Rightarrow> m)\<rparr>;
             (act, w) = flush_rows key False (place_rows g chunk_start slice_samples act) w
         in put_active key act w)"

lemma on_grid_fold:
  "\<exists>meta. on_grid g fa ta cs ss cal w = fold (grid_run g meta cs ss) (map fst (eg_active (wd_engine w)))
     (on_engine (\<lambda>e. e\<lparr>eg_grids_flow := True\<rparr>) w)"
  unfolding on_grid_def grid_run_def [abs_def] Let_def by blast

lemma grid_run_cases:
  "grid_run g meta cs ss key w = w \<or> (\<exists>act act' w'. map_of (eg_active (wd_engine w)) key = Some act \<and> same_run act' act \<and>
     (w' = w \<or> (\<exists>rows m. w' = call (WrGrid key rows m) w)) \<and> grid_run g meta cs ss key w = put_active key act' w')"
proof (cases "map_of (eg_active (wd_engine w)) key")
  case (Some act)
  define act1 where "act1 = act\<lparr>ac_grid_seen := max (ac_grid_seen act) (cs + int (length g) * ss),
                       ac_grid_meta := Some (case ac_grid_meta act of None \<Rightarrow> meta | Some m \<Rightarrow> m)\<rparr>"
  obtain act' w' where f: "flush_rows key False (place_rows g cs ss act1) w = (act', w')" by fastforce
  have "same_run act1 act" by (simp add: same_run_def act1_def)
  then have "same_run act' act" using flush_rows_cases [OF f] same_run_place same_run_trans by blast
  moreover have "grid_run g meta cs ss key w = put_active key act' w'"
    using Some f by (simp add: grid_run_def act1_def [symmetric] Let_def del: map_of_eq_Some_iff)
  ultimately show ?thesis using flush_rows_cases [OF f] Some by blast
qed (simp add: grid_run_def)

lemma runs_ok_grid: "runs_ok w \<Longrightarrow> runs_ok (grid_run g meta cs ss key w)"
proof -
  assume r: "runs_ok w"
  consider "grid_run g meta cs ss key w = w"
    | (put) act act' w' where "map_of (eg_active (wd_engine w)) key = Some act" "same_run act' act"
      "w' = w \<or> (\<exists>rows m. w' = call (WrGrid key rows m) w)" "grid_run g meta cs ss key w = put_active key act' w'"
    using grid_run_cases [of g meta cs ss key w] by blast
  then show ?thesis
  proof cases
    case a: put
    have e: "wd_engine w' = wd_engine w" using a(3) by auto
    show ?thesis
      unfolding a(4) by (rule runs_ok_set [of _ _ act]) (use r e a(1,2) in \<open>simp_all add: runs_ok_def same_run_waits\<close>)
  qed (use r in simp)
qed

text \<open>The step of a chunk for one run, and what precedes it.\<close>

definition chunk_run ::
  "surroundings \<Rightarrow> iq \<Rightarrow> int \<Rightarrow> rat \<Rightarrow> gap list \<Rightarrow> rat \<Rightarrow> int ring_reader option \<Rightarrow> run_key \<Rightarrow> world \<Rightarrow> world" where
  "chunk_run env chunk cs t gaps freq ring key w =
     (let w = feed_run env chunk cs t gaps freq ring key w in if ready_to_close env key w then close_run key w else w)"

definition chunk_plan :: "rat \<Rightarrow> world \<Rightarrow> world" where
  "chunk_plan t w = refresh t (if eg_marked (wd_engine w) then w
     else mark_missed (py_int (t * 1000)) (on_engine (\<lambda>e. e\<lparr>eg_marked := True\<rparr>) w))"

lemma on_chunk_parts:
  "\<exists>ce ot. on_chunk env chunk cs t gaps freq rate ring w =
     (let w = start_due env ce ot freq rate (chunk_plan t w)
      in fold (chunk_run env chunk cs t gaps freq ring) (map fst (eg_active (wd_engine w))) w)"
  unfolding on_chunk_def chunk_run_def [abs_def] chunk_plan_def Let_def by blast

lemma mark_one_cases: "\<exists>ks es. mark_one now s w = fold (\<lambda>k. report (sch_id s) k (es k)) ks w"
proof -
  have "\<exists>ks es. w = fold (\<lambda>k. report (sch_id s) k (es k)) ks w" by (intro exI [of _ "[]"]) simp
  then show ?thesis unfolding mark_one_def Let_def by (auto split: if_splits)
qed

lemma mark_missed_engine: "wd_engine (mark_missed now w) = wd_engine w \<and> wd_calls (mark_missed now w) = wd_calls w"
  unfolding mark_missed_def
proof (rule fold_invariant)
  fix s and w' :: world
  assume "wd_engine w' = wd_engine w \<and> wd_calls w' = wd_calls w"
  moreover obtain ks es where "mark_one now s w' = fold (\<lambda>k. report (sch_id s) k (es k)) ks w'"
    using mark_one_cases by blast
  moreover have "wd_engine (fold (\<lambda>k. report i k (es k)) ks w') = wd_engine w' \<and>
      wd_calls (fold (\<lambda>k. report i k (es k)) ks w') = wd_calls w'" for i and es and ks
    by (rule fold_invariant) simp_all
  ultimately show "wd_engine (mark_one now s w') = wd_engine w \<and> wd_calls (mark_one now s w') = wd_calls w" by simp
qed simp

lemma refresh_engine: "eg_active (wd_engine (refresh t w)) = eg_active (wd_engine w) \<and> wd_calls (refresh t w) = wd_calls w \<and>
    wd_book (refresh t w) = wd_book w"
  by (simp add: refresh_def Let_def split: prod.split)

lemma chunk_plan_engine: "eg_active (wd_engine (chunk_plan t w)) = eg_active (wd_engine w) \<and> wd_calls (chunk_plan t w) = wd_calls w"
  using refresh_engine mark_missed_engine by (simp add: chunk_plan_def)

lemma runs_ok_due_one: "runs_ok w \<Longrightarrow> runs_ok (start_due_one env ce ot freq rate (sid, s, k) w)"
  using runs_ok_due [of w "due_fuel ce s k" env ce ot freq rate s k]
  by (auto simp: start_due_one_def runs_ok_def split: prod.split)

lemma runs_ok_event: "runs_ok w \<Longrightarrow> runs_ok (sys_do io ev w)"
proof (cases ev)
  case (SyChunk env chunk cs t gaps freq rate ring)
  assume r: "runs_ok w"
  have "runs_ok (chunk_plan t w)" by (rule runs_ok_same [OF _ r]) (simp add: chunk_plan_engine)
  then have "runs_ok (start_due env ce ot freq rate (chunk_plan t w))" for ce ot
    unfolding start_due_def by (rule fold_invariant [where P = runs_ok, rotated]) (auto intro: runs_ok_due_one)
  moreover have "runs_ok w' \<Longrightarrow> runs_ok (chunk_run env chunk cs t gaps freq ring key w')" for key w'
    by (simp add: chunk_run_def Let_def runs_ok_feed runs_ok_close)
  then have "runs_ok w' \<Longrightarrow> runs_ok (fold (chunk_run env chunk cs t gaps freq ring) keys w')" for keys w'
    by (rule fold_invariant [where P = runs_ok])
  moreover obtain ce ot where "on_chunk env chunk cs t gaps freq rate ring w =
     (let w = start_due env ce ot freq rate (chunk_plan t w)
      in fold (chunk_run env chunk cs t gaps freq ring) (map fst (eg_active (wd_engine w))) w)"
    using on_chunk_parts by blast
  ultimately show ?thesis by (simp add: SyChunk Let_def)
next
  case (SyGrid g fa ta cs ss cal)
  assume r: "runs_ok w"
  have "runs_ok (on_engine (\<lambda>e. e\<lparr>eg_grids_flow := True\<rparr>) w)" by (rule runs_ok_same [OF _ r]) simp
  then have "runs_ok (fold (grid_run g meta cs ss) keys (on_engine (\<lambda>e. e\<lparr>eg_grids_flow := True\<rparr>) w))" for meta keys
    by (rule fold_invariant [where P = runs_ok, rotated]) (rule runs_ok_grid)
  then show ?thesis using on_grid_fold [of g fa ta cs ss cal w] by (auto simp: SyGrid)
next
  case (SyStop reason)
  then show "runs_ok w \<Longrightarrow> ?thesis"
    by (simp add: engine_stop_def) (rule fold_invariant [where P = runs_ok], simp_all add: runs_ok_stop)
qed (simp_all add: runs_ok_def)

text \<open>
  C36: at most two scheduled runs record at a time. Whatever is scheduled, whatever
  order the threads run in and whatever fails, never more than
  \<open>MAX_CONCURRENT_RUNS\<close> runs record samples (a run that only waits for its PSD rows
  is not counted), and no key is active twice.
\<close>

theorem two_runs_at_most:
  "recording_runs (wd_engine (sys_run io evs (world_new grace_ms budget disk))) \<le> MAX_CONCURRENT_RUNS \<and>
   distinct (map fst (eg_active (wd_engine (sys_run io evs (world_new grace_ms budget disk)))))"
proof -
  have "runs_ok (world_new grace_ms budget disk)" by (simp add: runs_ok_def world_new_def engine_new_def recs_def)
  then have "runs_ok (sys_run io evs (world_new grace_ms budget disk))"
    unfolding sys_run_def by (rule fold_invariant [where P = runs_ok, rotated]) (simp add: runs_ok_event)
  then show ?thesis by (simp add: runs_ok_def recording_runs_def recs_def)
qed

section \<open>Following one run\<close>

type_synonym fed_chunk = "iq \<times> int \<times> rat \<times> gap list \<times> rat \<times> rat \<times> int ring_reader option"

fun feed1 :: "fed_chunk \<Rightarrow> cut_state \<Rightarrow> cut_state" where
  "feed1 (chunk, cs, t, gaps, freq, rate, ring) (c, ops) =
     (let (c', new) = cutter_feed chunk cs t gaps freq ring c in (c', ops @ new))"

definition feeds :: "fed_chunk list \<Rightarrow> run_spec \<Rightarrow> cut_state" where
  "feeds fs spec = fold feed1 fs (cutter_new spec, [])"

abbreviation view :: "run_key \<Rightarrow> world \<Rightarrow> active option" where
  "view k w \<equiv> map_of (eg_active (wd_engine w)) k"

text \<open>A step that leaves run \<open>k\<close> alone.\<close>

definition quiet :: "run_key \<Rightarrow> world \<Rightarrow> world \<Rightarrow> bool" where
  "quiet k w w' \<longleftrightarrow> (\<exists>evs. wd_calls w' = wd_calls w @ evs \<and> list_all (bystander k) evs \<and> offered k evs = []) \<and>
     rel_option same_run (view k w') (view k w)"

definition idle :: "run_key \<Rightarrow> world \<Rightarrow> bool" where
  "idle k w \<longleftrightarrow> view k w = None \<and> list_all (bystander k) (wd_calls w)"

text \<open>Opened: the calls so far, and what was offered to the writer.\<close>

definition opened :: "run_key \<Rightarrow> run_spec \<Rightarrow> cut_op list \<Rightarrow> world \<Rightarrow> bool" where
  "opened k sp ops w \<longleftrightarrow> view k w \<noteq> None \<and> (\<exists>before p during. wd_calls w = before @ WrOpen k p sp # during \<and>
     list_all (bystander k) (before @ during) \<and> offered k during = ops)"

definition fed :: "run_key \<Rightarrow> run_spec \<Rightarrow> fed_chunk list \<Rightarrow> world \<Rightarrow> bool" where
  "fed k sp fs w \<longleftrightarrow> opened k sp (snd (feeds fs sp)) w \<and>
     (\<exists>act. view k w = Some act \<and> ac_cutter act = fst (feeds fs sp) \<and>
        (ac_closing_since act \<noteq> None \<longrightarrow> rc_done (ac_cutter act)))"

definition over :: "run_key \<Rightarrow> run_spec \<Rightarrow> cut_op list \<Rightarrow> world \<Rightarrow> bool" where
  "over k sp ops w \<longleftrightarrow> view k w = None \<and> (\<exists>before p during info after.
     wd_calls w = before @ WrOpen k p sp # during @ WrClose k info # after \<and>
     list_all (bystander k) (before @ during @ after) \<and> offered k during = ops)"

lemma offered_append: "offered k (a @ b) = offered k a @ offered k b"
  by (simp add: offered_def)

lemma quiet_refl: "quiet k w w"
  by (auto simp: quiet_def same_run_refl offered_def intro: option.rel_refl exI [of _ "[]"])

lemma quiet_trans:
  assumes "quiet k w w'" "quiet k w' w''"
  shows "quiet k w w''"
proof -
  obtain a b where ab: "wd_calls w' = wd_calls w @ a" "list_all (bystander k) a" "offered k a = []"
    "wd_calls w'' = wd_calls w' @ b" "list_all (bystander k) b" "offered k b = []"
    using assms by (auto simp: quiet_def)
  then have "wd_calls w'' = wd_calls w @ (a @ b) \<and> list_all (bystander k) (a @ b) \<and> offered k (a @ b) = []"
    by (simp add: offered_append)
  moreover have "rel_option same_run (view k w'') (view k w)"
    using assms by (cases "view k w"; cases "view k w'"; cases "view k w''") (auto simp: quiet_def intro: same_run_trans)
  ultimately show ?thesis unfolding quiet_def by blast
qed

lemma quiet_fold: "(\<And>x w. x \<in> set xs \<Longrightarrow> quiet k w (f x w)) \<Longrightarrow> quiet k w (fold f xs w)"
  by (induction xs arbitrary: w) (auto intro: quiet_refl quiet_trans)

lemma quiet_same: "wd_calls w' = wd_calls w \<Longrightarrow> view k w' = view k w \<Longrightarrow> quiet k w w'"
  by (auto simp: quiet_def same_run_refl offered_def intro: option.rel_refl exI [of _ "[]"])

lemma quiet_call: "bystander k ev \<Longrightarrow> offered k [ev] = [] \<Longrightarrow> quiet k w (call ev w)"
  by (auto simp: quiet_def same_run_refl intro: option.rel_refl)

lemma view_put: "view k (put_active key act w) = (if k = key then Some act else view k w)"
  by (simp add: map_of_dict_set)

lemma quiet_put: "k \<noteq> key \<or> (\<exists>b. view k w = Some b \<and> same_run act b) \<Longrightarrow> quiet k w (put_active key act w)"
  by (auto simp: quiet_def view_put same_run_refl offered_def intro: option.rel_refl exI [of _ "[]"] simp del: world_sel(19))

lemma idle_quiet: "quiet k w w' \<Longrightarrow> idle k w \<Longrightarrow> idle k w'"
  by (auto simp: quiet_def idle_def)

lemma opened_quiet: "quiet k w w' \<Longrightarrow> opened k sp ops w \<Longrightarrow> opened k sp ops w'"
proof -
  assume q: "quiet k w w'" and o: "opened k sp ops w"
  obtain before p during where c: "wd_calls w = before @ WrOpen k p sp # during"
    "list_all (bystander k) (before @ during)" "offered k during = ops" "view k w \<noteq> None"
    using o by (auto simp: opened_def simp del: map_of_eq_None_iff)
  obtain evs where e: "wd_calls w' = wd_calls w @ evs" "list_all (bystander k) evs" "offered k evs = []"
    using q by (auto simp: quiet_def)
  have "wd_calls w' = before @ WrOpen k p sp # (during @ evs) \<and> list_all (bystander k) (before @ during @ evs) \<and>
      offered k (during @ evs) = ops"
    using c e by (simp add: offered_append)
  moreover have "view k w' \<noteq> None"
    using q c(4) by (cases "view k w"; cases "view k w'") (simp_all add: quiet_def)
  ultimately show ?thesis unfolding opened_def by blast
qed

lemma fed_quiet: "quiet k w w' \<Longrightarrow> fed k sp fs w \<Longrightarrow> fed k sp fs w'"
proof -
  assume q: "quiet k w w'" and f: "fed k sp fs w"
  obtain act where a: "view k w = Some act" "ac_cutter act = fst (feeds fs sp)" "ac_closing_since act \<noteq> None \<longrightarrow> rc_done (ac_cutter act)"
    using f by (auto simp: fed_def)
  obtain act' where "view k w' = Some act'" "same_run act' act"
    using q a(1) by (cases "view k w'") (simp_all add: quiet_def del: map_of_eq_Some_iff)
  then show ?thesis
    using a(2,3) f opened_quiet [OF q] by (auto simp: fed_def same_run_def)
qed

lemma over_quiet: "quiet k w w' \<Longrightarrow> over k sp ops w \<Longrightarrow> over k sp ops w'"
proof -
  assume q: "quiet k w w'" and o: "over k sp ops w"
  obtain before p during info after where c: "wd_calls w = before @ WrOpen k p sp # during @ WrClose k info # after"
    "list_all (bystander k) (before @ during @ after)" "offered k during = ops" "view k w = None"
    using o by (auto simp: over_def simp del: map_of_eq_None_iff)
  obtain evs where e: "wd_calls w' = wd_calls w @ evs" "list_all (bystander k) evs"
    using q by (auto simp: quiet_def)
  have "wd_calls w' = before @ WrOpen k p sp # during @ WrClose k info # (after @ evs) \<and>
      list_all (bystander k) (before @ during @ after @ evs)"
    using c e by simp
  moreover have "view k w' = None"
    using q c(4) by (cases "view k w'") (simp_all add: quiet_def del: map_of_eq_None_iff)
  ultimately show ?thesis using c(3) unfolding over_def by blast
qed

section \<open>The operations on other runs\<close>

lemma flush_quiet: "flush_rows key final act w = (act', w') \<Longrightarrow> quiet k w w'"
  using flush_rows_cases [of key final act w act' w']
  by (auto simp: bystander_def offered_def intro!: quiet_refl quiet_call)

lemma quiet_close:
  assumes "key \<noteq> k" shows "quiet k w (close_run key w)"
proof (cases "view key w")
  case (Some act)
  define w1 where "w1 = on_engine (\<lambda>e. e\<lparr>eg_active := dict_del key (eg_active e)\<rparr>) w"
  obtain act2 w2 where f: "flush_rows key True act w1 = (act2, w2)" by fastforce
  define w3 where "w3 = on_engine (\<lambda>e. e\<lparr>eg_refused := (eg_refused e)(key := 0)\<rparr>) w2"
  have c: "close_run key w = call (WrClose key (info_of act2 (eg_refused (wd_engine w2) key))) w3"
    using Some f by (simp add: close_run_def w1_def [symmetric] w3_def Let_def del: map_of_eq_Some_iff)
  have "quiet k w w1" using assms by (intro quiet_same) (simp_all add: w1_def map_of_dict_del)
  moreover have "quiet k w1 w2" by (rule flush_quiet [OF f])
  moreover have "quiet k w2 w3" by (intro quiet_same) (simp_all add: w3_def)
  moreover have "quiet k w3 (close_run key w)"
    unfolding c using assms by (intro quiet_call) (simp_all add: bystander_def offered_def)
  ultimately show ?thesis using quiet_trans by blast
qed (simp add: close_run_def quiet_refl)

lemma quiet_stop:
  assumes "key \<noteq> k" shows "quiet k w (stop_one reason key w)"
proof (cases "view key w")
  case (Some act)
  define w1 where "w1 = (if ac_closing_since act = None
    then put_active key (act\<lparr>ac_cutter := cutter_end reason (ac_cutter act)\<rparr>) w else w)"
  have "quiet k w w1" using assms by (auto simp: w1_def intro: quiet_refl quiet_put)
  moreover have "stop_one reason key w = close_run key w1"
    using Some by (simp add: stop_one_def w1_def del: map_of_eq_Some_iff)
  ultimately show ?thesis using quiet_close [OF assms, of w1] quiet_trans by simp
qed (simp add: stop_one_def quiet_refl)

lemma feed_run_cases:
  assumes v: "view key w = Some act" "ac_closing_since act = None"
    and c: "cutter_feed chunk cs t gaps freq ring (ac_cutter act) = (rc, ops)"
  obtains act' w' where "feed_run env chunk cs t gaps freq ring key w = put_active key act' w'"
    "eg_active (wd_engine w') = eg_active (wd_engine w)" "ac_cutter act' = rc"
    "ac_closing_since act' \<noteq> None \<longrightarrow> rc_done rc"
    "wd_calls w' = wd_calls w @ (if ops = [] then [] else [WrOps key ops])"
    "eg_next (wd_engine w') = eg_next (wd_engine w)" "wd_book w' = wd_book w"
proof -
  define act1 where "act1 = act\<lparr>ac_cutter := rc,
    ac_first_chunk := (if ac_first_chunk act = None \<and> rc_started rc then Some cs else ac_first_chunk act)\<rparr>"
  define act' where "act' = (if rc_done rc then act1\<lparr>ac_closing_since := Some (fst (sd_clock env key)),
    ac_grid_until := (if rc_stream_start rc = None then None else stream_end rc)\<rparr> else act1)"
  define w' where "w' = (if ops = [] then w
    else on_engine (\<lambda>e. e\<lparr>eg_refused := (eg_refused e)(key := eg_refused e key + fst (put_ops key ops (wd_writer w)))\<rparr>)
      (call (WrOps key ops) w))"
  have eq: "feed_run env chunk cs t gaps freq ring key w = put_active key act' w'"
    using v c by (simp add: feed_run_def Let_def act1_def act'_def w'_def del: map_of_eq_Some_iff)
  have c': "ac_cutter act' = rc" "ac_closing_since act' \<noteq> None \<longrightarrow> rc_done rc"
    using v(2) by (simp_all add: act'_def act1_def)
  show thesis by (rule that [OF eq _ c']) (simp_all add: w'_def)
qed

lemma quiet_feed:
  assumes "key \<noteq> k" shows "quiet k w (feed_run env chunk cs t gaps freq ring key w)"
proof (cases "view key w")
  case (Some act)
  show ?thesis
  proof (cases "ac_closing_since act")
    case None
    obtain rc ops where c: "cutter_feed chunk cs t gaps freq ring (ac_cutter act) = (rc, ops)" by fastforce
    obtain act' w' where f: "feed_run env chunk cs t gaps freq ring key w = put_active key act' w'"
      "eg_active (wd_engine w') = eg_active (wd_engine w)"
      "wd_calls w' = wd_calls w @ (if ops = [] then [] else [WrOps key ops])"
      by (rule feed_run_cases [OF Some None c]) blast
    have "quiet k w w'"
      using f(2,3) assms by (auto simp: quiet_def bystander_def offered_def same_run_refl intro: option.rel_refl)
    then show ?thesis unfolding f(1) using quiet_put [of k key w' act'] assms quiet_trans by blast
  next
    case (Some a)
    then show ?thesis using \<open>view key w = Some act\<close> by (simp add: feed_run_def quiet_refl del: map_of_eq_Some_iff)
  qed
qed (simp add: feed_run_def quiet_refl)

lemma quiet_chunk_run: "key \<noteq> k \<Longrightarrow> quiet k w (chunk_run env chunk cs t gaps freq ring key w)"
  using quiet_trans [OF quiet_feed quiet_close, of key k key w env chunk cs t gaps freq ring]
    quiet_feed [of key k w env chunk cs t gaps freq ring]
  by (simp add: chunk_run_def Let_def)

lemma quiet_grid: "quiet k w (grid_run g meta cs ss key w)"
proof -
  consider "grid_run g meta cs ss key w = w"
    | (put) act act' w' where "map_of (eg_active (wd_engine w)) key = Some act" "same_run act' act"
      "w' = w \<or> (\<exists>rows m. w' = call (WrGrid key rows m) w)" "grid_run g meta cs ss key w = put_active key act' w'"
    using grid_run_cases [of g meta cs ss key w] by blast
  then show ?thesis
  proof cases
    case put
    have "quiet k w w'" using put(3) by (auto simp: bystander_def offered_def intro!: quiet_refl quiet_call)
    moreover have "eg_active (wd_engine w') = eg_active (wd_engine w)" using put(3) by auto
    then have "quiet k w' (put_active key act' w')" using put(1,2) by (intro quiet_put) auto
    ultimately show ?thesis unfolding put(4) by (rule quiet_trans)
  qed (simp add: quiet_refl)
qed

lemma quiet_report: "quiet k w (report i j e w)"
  by (rule quiet_same) simp_all

lemma quiet_start:
  assumes "(sch_id s, j) \<noteq> k" shows "quiet k w (start_run env ot freq rate s j w)"
proof -
  consider e where "start_run env ot freq rate s j w = report (sch_id s) j e w"
    | e path where "start_run env ot freq rate s j w = report (sch_id s) j e
        (put_active (sch_id s, j) (active_new (cutter_new (spec_of s j freq rate)) path)
          (call (WrOpen (sch_id s, j) path (spec_of s j freq rate)) w))"
    using start_run_cases [of env ot freq rate s j w] by blast
  then show ?thesis
  proof cases
    case 1
    then show ?thesis by (simp add: quiet_report)
  next
    case 2
    have "quiet k w (call (WrOpen (sch_id s, j) path (spec_of s j freq rate)) w)"
      using assms by (intro quiet_call) (auto simp: bystander_def offered_def)
    then show ?thesis
      unfolding 2 using quiet_put [of k "(sch_id s, j)"] assms quiet_trans quiet_report by blast
  qed
qed

section \<open>The operations on the run itself\<close>

lemma close_opened:
  assumes "opened k sp ops w" shows "over k sp ops (close_run k w)"
proof -
  obtain act where a: "view k w = Some act" using assms by (auto simp: opened_def)
  define w1 where "w1 = on_engine (\<lambda>e. e\<lparr>eg_active := dict_del k (eg_active e)\<rparr>) w"
  obtain act2 w2 where f: "flush_rows k True act w1 = (act2, w2)" by fastforce
  have c: "close_run k w = call (WrClose k (info_of act2 (eg_refused (wd_engine w2) k)))
      (on_engine (\<lambda>e. e\<lparr>eg_refused := (eg_refused e)(k := 0)\<rparr>) w2)"
    using a f by (simp add: close_run_def w1_def [symmetric] Let_def del: map_of_eq_Some_iff)
  obtain before p during where o: "wd_calls w = before @ WrOpen k p sp # during"
    "list_all (bystander k) (before @ during)" "offered k during = ops"
    using assms by (auto simp: opened_def)
  obtain evs where e: "wd_calls w2 = wd_calls w @ evs" "list_all (bystander k) evs" "offered k evs = []"
    using flush_quiet [OF f, of k] by (auto simp: quiet_def w1_def)
  have "wd_engine w2 = wd_engine w1" using flush_rows_engine [OF f] by simp
  then have "view k (close_run k w) = None" by (simp add: c w1_def map_of_dict_del)
  moreover have "wd_calls (close_run k w) = before @ WrOpen k p sp # (during @ evs) @
      WrClose k (info_of act2 (eg_refused (wd_engine w2) k)) # []"
    by (simp add: c e(1) o(1))
  moreover have "list_all (bystander k) (before @ (during @ evs) @ [])" "offered k (during @ evs) = ops"
    using o e by (simp_all add: offered_append)
  ultimately show ?thesis unfolding over_def by blast
qed

lemma feed_fed:
  assumes "fed k sp fs w"
  shows "fed k sp (fs @ [(chunk, cs, t, gaps, freq, rate, ring)]) (feed_run env chunk cs t gaps freq ring k w)"
proof -
  let ?x = "(chunk, cs, t, gaps, freq, rate, ring)"
  obtain act where a: "view k w = Some act" "ac_cutter act = fst (feeds fs sp)"
    "ac_closing_since act \<noteq> None \<longrightarrow> rc_done (ac_cutter act)"
    using assms by (auto simp: fed_def)
  obtain rc ops where c: "cutter_feed chunk cs t gaps freq ring (ac_cutter act) = (rc, ops)" by fastforce
  have step: "feeds (fs @ [?x]) sp = (rc, snd (feeds fs sp) @ ops)"
    using c by (cases "feeds fs sp") (simp add: feeds_def a(2))
  show ?thesis
  proof (cases "ac_closing_since act")
    case None
    obtain act' w' where f: "feed_run env chunk cs t gaps freq ring k w = put_active k act' w'"
      "eg_active (wd_engine w') = eg_active (wd_engine w)" "ac_cutter act' = rc"
      "ac_closing_since act' \<noteq> None \<longrightarrow> rc_done rc"
      "wd_calls w' = wd_calls w @ (if ops = [] then [] else [WrOps k ops])"
      by (rule feed_run_cases [OF a(1) None c]) blast
    obtain before p during where o: "wd_calls w = before @ WrOpen k p sp # during"
      "list_all (bystander k) (before @ during)" "offered k during = snd (feeds fs sp)"
      using assms by (auto simp: fed_def opened_def)
    let ?during = "during @ (if ops = [] then [] else [WrOps k ops])"
    have "wd_calls (put_active k act' w') = before @ WrOpen k p sp # ?during" by (simp add: f(5) o(1))
    moreover have "list_all (bystander k) (before @ ?during)" using o(2) by (simp add: bystander_def)
    moreover have "offered k ?during = snd (feeds (fs @ [?x]) sp)"
      using o(3) by (simp add: step offered_append) (simp add: offered_def)
    moreover have "view k (put_active k act' w') \<noteq> None" by (simp add: view_put del: world_sel(19))
    ultimately have "opened k sp (snd (feeds (fs @ [?x]) sp)) (put_active k act' w')"
      unfolding opened_def by blast
    then show ?thesis using f(3,4) unfolding f(1) fed_def step by (simp add: view_put del: world_sel(19))
  next
    case (Some a')
    then have "rc = ac_cutter act" "ops = []" using a(3) c by (simp_all add: cutter_feed_def)
    then have "feeds (fs @ [?x]) sp = feeds fs sp" by (simp add: step a(2))
    then show ?thesis using assms a Some by (simp add: feed_run_def fed_def del: map_of_eq_Some_iff)
  qed
qed

text \<open>A chunk's step for the run.\<close>

lemma chunk_run_fed:
  assumes "fed k sp fs w" and fs'_def: "fs' = fs @ [(chunk, cs, t, gaps, freq, rate, ring)]"
  shows "fed k sp fs' (chunk_run env chunk cs t gaps freq ring k w) \<or>
    over k sp (snd (feeds fs' sp)) (chunk_run env chunk cs t gaps freq ring k w)"
proof -
  have f: "fed k sp fs' (feed_run env chunk cs t gaps freq ring k w)"
    unfolding fs'_def by (rule feed_fed [OF assms(1)])
  then have "opened k sp (snd (feeds fs' sp)) (feed_run env chunk cs t gaps freq ring k w)" by (simp add: fed_def)
  then show ?thesis using f close_opened unfolding chunk_run_def Let_def by (simp split: if_split)
qed

section \<open>The plan is always ahead of the runs that were started\<close>

fun entry_ok :: "schedule set \<Rightarrow> string \<times> schedule \<times> int option \<Rightarrow> bool" where
  "entry_ok S (sid, s, ko) \<longleftrightarrow> sch_id s = sid \<and> s \<in> S \<and> sched_wf s \<and>
     (case ko of None \<Rightarrow> True | Some j \<Rightarrow> 0 \<le> j \<and> j < total_runs s)"

definition plan_ok :: "schedule set \<Rightarrow> world \<Rightarrow> bool" where
  "plan_ok S w \<longleftrightarrow> distinct (map fst (eg_next (wd_engine w))) \<and> list_all (entry_ok S) (eg_next (wd_engine w)) \<and>
     list_all (\<lambda>(_, s). s \<in> S \<and> sched_wf s) (bk_active (wd_book w))"

definition ahead :: "run_key \<Rightarrow> world \<Rightarrow> bool" where
  "ahead k w \<longleftrightarrow> (\<forall>s j. map_of (eg_next (wd_engine w)) (fst k) = Some (s, Some j) \<longrightarrow> snd k < j) \<and>
     (\<exists>l. bk_last (wd_book w) (fst k) = Some l \<and> snd k \<le> l)"

definition same_plan :: "world \<Rightarrow> world \<Rightarrow> bool" where
  "same_plan w w' \<longleftrightarrow> eg_next (wd_engine w') = eg_next (wd_engine w) \<and> bk_active (wd_book w') = bk_active (wd_book w) \<and>
     (\<forall>i l. bk_last (wd_book w) i = Some l \<longrightarrow> (\<exists>l'. bk_last (wd_book w') i = Some l' \<and> l \<le> l'))"

lemma same_plan_refl: "same_plan w w"
  by (auto simp: same_plan_def)

lemma same_plan_trans: "same_plan w w' \<Longrightarrow> same_plan w' w'' \<Longrightarrow> same_plan w w''"
  unfolding same_plan_def by (metis order_trans)

lemma same_plan_fold: "(\<And>x w. x \<in> set xs \<Longrightarrow> same_plan w (f x w)) \<Longrightarrow> same_plan w (fold f xs w)"
  by (induction xs arbitrary: w) (auto intro: same_plan_refl same_plan_trans)

lemma same_plan_plan: "same_plan w w' \<Longrightarrow> plan_ok S w \<Longrightarrow> plan_ok S w'"
  by (simp add: same_plan_def plan_ok_def)

lemma same_plan_ahead: "same_plan w w' \<Longrightarrow> ahead k w \<Longrightarrow> ahead k w'"
  unfolding same_plan_def ahead_def by (metis order_trans)

lemma same_planI: "eg_next (wd_engine w') = eg_next (wd_engine w) \<Longrightarrow> wd_book w' = wd_book w \<Longrightarrow> same_plan w w'"
  by (simp add: same_plan_def)

lemma same_plan_report: "same_plan w (report i k e w)"
  by (auto simp: same_plan_def report_run_def split: option.splits)

lemma same_plan_close: "same_plan w (close_run key w)"
proof (cases "view key w")
  case (Some act)
  define w1 where "w1 = on_engine (\<lambda>e. e\<lparr>eg_active := dict_del key (eg_active e)\<rparr>) w"
  obtain act2 w2 where f: "flush_rows key True act w1 = (act2, w2)" by fastforce
  show ?thesis
    using Some f flush_rows_engine [OF f]
    by (intro same_planI) (simp_all add: close_run_def w1_def [symmetric] Let_def del: map_of_eq_Some_iff, simp_all add: w1_def)
qed (simp add: close_run_def same_plan_refl)

lemma same_plan_stop: "same_plan w (stop_one reason key w)"
proof -
  have "same_plan w (put_active key act w)" for act by (intro same_planI) simp_all
  then show ?thesis
    by (auto simp: stop_one_def same_plan_refl same_plan_close intro: same_plan_trans [OF _ same_plan_close] split: option.split)
qed

lemma same_plan_chunk_run: "same_plan w (chunk_run env chunk cs t gaps freq ring key w)"
proof -
  have "same_plan w (feed_run env chunk cs t gaps freq ring key w)"
  proof (cases "view key w")
    case (Some act)
    show ?thesis
    proof (cases "ac_closing_since act")
      case None
      obtain rc ops where c: "cutter_feed chunk cs t gaps freq ring (ac_cutter act) = (rc, ops)" by fastforce
      show ?thesis by (rule feed_run_cases [OF Some None c, of env]) (intro same_planI, simp_all)
    next
      case (Some a)
      then show ?thesis using \<open>view key w = Some act\<close> by (simp add: feed_run_def same_plan_refl del: map_of_eq_Some_iff)
    qed
  qed (simp add: feed_run_def same_plan_refl)
  then show ?thesis using same_plan_close same_plan_trans by (simp add: chunk_run_def Let_def)
qed

lemma same_plan_grid: "same_plan w (grid_run g meta cs ss key w)"
  using grid_run_cases [of g meta cs ss key w] by (auto intro!: same_planI)

lemma same_plan_start: "same_plan w (start_run env ot freq rate s j w)"
proof -
  consider e where "start_run env ot freq rate s j w = report (sch_id s) j e w"
    | e path where "start_run env ot freq rate s j w = report (sch_id s) j e
        (put_active (sch_id s, j) (active_new (cutter_new (spec_of s j freq rate)) path)
          (call (WrOpen (sch_id s, j) path (spec_of s j freq rate)) w))"
    using start_run_cases [of env ot freq rate s j w] by blast
  then show ?thesis
  proof cases
    case 2
    show ?thesis unfolding 2 by (rule same_plan_trans [OF same_planI same_plan_report]) simp_all
  qed (simp add: same_plan_report)
qed

lemma start_run_last: "0 \<le> j \<Longrightarrow> \<exists>l. bk_last (wd_book (start_run env ot freq rate s j w)) (sch_id s) = Some l \<and> j \<le> l"
proof -
  assume j: "0 \<le> j"
  have "\<exists>e w'. start_run env ot freq rate s j w = report (sch_id s) j e w'"
    using start_run_cases [of env ot freq rate s j w] by blast
  then show ?thesis using j by (auto simp: report_run_def split: option.splits)
qed

lemma same_plan_mark: "same_plan w (mark_missed now w)"
proof -
  have "same_plan w (mark_one now s w)" for s w
  proof -
    obtain ks es where "mark_one now s w = fold (\<lambda>k. report (sch_id s) k (es k)) ks w" using mark_one_cases by blast
    then show ?thesis using same_plan_fold same_plan_report by metis
  qed
  then show ?thesis unfolding mark_missed_def by (intro same_plan_fold)
qed

text \<open>Rebuilding the plan.\<close>

lemma first_run_valid:
  assumes "sched_wf s" "first_run_from s t = Some j"
  shows "0 \<le> j \<and> j < total_runs s"
  using assms(1)
proof (cases rule: sched_wf_cases)
  case one_shot
  then show ?thesis using assms(2) by (auto simp: first_run_from_def Let_def split: if_splits)
next
  case (repeating e)
  then show ?thesis
    using assms(2) by (auto simp: first_run_from_repeating [OF repeating(1,2)] Let_def split: if_splits)
qed

lemma first_planned_valid:
  assumes "sched_wf s" "first_planned from_ms b s = Some j"
  shows "0 \<le> j \<and> j < total_runs s \<and> (\<forall>l. bk_last b (sch_id s) = Some l \<longrightarrow> l < j)"
proof -
  obtain k where k: "first_run_from s from_ms = Some k" using assms(2) by (auto simp: first_planned_def split: option.splits)
  from first_run_valid [OF assms(1) k] show ?thesis
    using assms(2) by (auto simp: first_planned_def k last_run_def split: option.splits if_splits)
qed

lemma plan_ok_refresh:
  assumes p: "plan_ok S w" shows "plan_ok S (refresh t w)"
proof (cases "int (bk_version (wd_book w)) = eg_version (wd_engine w)")
  case True
  then show ?thesis using p by (simp add: refresh_def snapshot_def Let_def)
next
  case False
  let ?e = "wd_engine w" and ?b = "wd_book w"
  define entry where "entry s = (sch_id s, case map_of (eg_next ?e) (sch_id s) of
     Some p \<Rightarrow> p | None \<Rightarrow> (s, first_planned (py_int (t * 1000) - eg_grace_ms ?e) ?b s))" for s
  have next': "eg_next (wd_engine (refresh t w)) = dict_of (map entry (map snd (bk_active ?b)))"
    using False by (simp add: refresh_def snapshot_def Let_def entry_def comp_def)
  have "entry_ok S (entry s)" if "s \<in> snd ` set (bk_active ?b)" for s
  proof (cases "map_of (eg_next ?e) (sch_id s)")
    case None
    have "s \<in> S \<and> sched_wf s" using p that by (auto simp: plan_ok_def list_all_iff)
    then show ?thesis
      using first_planned_valid [of s "py_int (t * 1000) - eg_grace_ms ?e" ?b] None
      by (auto simp: entry_def split: option.split)
  next
    case (Some x)
    then have "(sch_id s, x) \<in> set (eg_next ?e)" by (rule map_of_SomeD)
    then show ?thesis using p Some by (cases x) (auto simp: entry_def plan_ok_def list_all_iff)
  qed
  then have "list_all (entry_ok S) (dict_of (map entry (map snd (bk_active ?b))))"
    using set_dict_sets [of "map entry (map snd (bk_active ?b))" "[]"] by (force simp: dict_of_def list_all_iff)
  moreover have "distinct (map fst (dict_of (map entry (map snd (bk_active ?b)))))"
    unfolding dict_of_def by (rule distinct_dict_sets) simp
  moreover have "wd_book (refresh t w) = ?b" using refresh_engine by blast
  ultimately show ?thesis using p by (simp add: plan_ok_def next')
qed

lemma ahead_refresh:
  assumes p: "plan_ok S w" and a: "ahead k w" shows "ahead k (refresh t w)"
proof (cases "int (bk_version (wd_book w)) = eg_version (wd_engine w)")
  case True
  then show ?thesis using a by (simp add: refresh_def snapshot_def Let_def)
next
  case False
  let ?e = "wd_engine w" and ?b = "wd_book w"
  define entry where "entry s = (sch_id s, case map_of (eg_next ?e) (sch_id s) of
     Some p \<Rightarrow> p | None \<Rightarrow> (s, first_planned (py_int (t * 1000) - eg_grace_ms ?e) ?b s))" for s
  have next': "eg_next (wd_engine (refresh t w)) = dict_of (map entry (map snd (bk_active ?b)))"
    using False by (simp add: refresh_def snapshot_def Let_def entry_def comp_def)
  obtain l where l: "bk_last ?b (fst k) = Some l" "snd k \<le> l" using a by (auto simp: ahead_def)
  have "snd k < j" if "map_of (eg_next (wd_engine (refresh t w))) (fst k) = Some (s, Some j)" for s j
  proof -
    have "(fst k, s, Some j) \<in> set (map entry (map snd (bk_active ?b))) \<or> map_of [] (fst k) = Some (s, Some j)"
      by (rule map_of_dict_sets_Some) (use that in \<open>simp only: next' dict_of_def\<close>)
    then have "(fst k, s, Some j) \<in> entry ` snd ` set (bk_active ?b)"
      by (simp only: set_map map_of.simps option.distinct simp_thms)
    then obtain s' where s': "s' \<in> snd ` set (bk_active ?b)" "entry s' = (fst k, s, Some j)"
      by (metis (no_types, lifting) imageE)
    have i: "sch_id s' = fst k" using s'(2) by (simp add: entry_def)
    show ?thesis
    proof (cases "map_of (eg_next ?e) (sch_id s')")
      case None
      have "sched_wf s'" using p s'(1) by (auto simp: plan_ok_def list_all_iff)
      then show ?thesis
        using first_planned_valid [of s' "py_int (t * 1000) - eg_grace_ms ?e" ?b j] None s'(2) l i
        by (auto simp: entry_def)
    next
      case (Some x)
      then show ?thesis using a s'(2) i by (auto simp: entry_def ahead_def)
    qed
  qed
  moreover have "wd_book (refresh t w) = ?b" using refresh_engine by blast
  ultimately show ?thesis using l unfolding ahead_def by auto
qed

text \<open>Starting the due runs of one schedule.\<close>

lemma start_due_one_runs:
  assumes "entry_ok S (sid, s, Some k0)"
  shows "start_due_one env ce ot freq rate (sid, s, Some k0) w =
    on_engine (\<lambda>e. e\<lparr>eg_next := dict_set sid (s, find (\<lambda>j. \<not> due ce s j) [k0..total_runs s - 1]) (eg_next e)\<rparr>)
      (fold (start_run env ot freq rate s) (filter (due ce s) [k0..total_runs s - 1]) w)"
  using assms due_loop_exact [OF _ _ _ order_refl, of s k0 ce env ot freq rate w] by (simp add: start_due_one_def)

lemma plan_ok_next:
  assumes "plan_ok S w" "entry_ok S (sid, s, ko)"
  shows "plan_ok S (on_engine (\<lambda>e. e\<lparr>eg_next := dict_set sid (s, ko) (eg_next e)\<rparr>) w)"
  using assms set_dict_set [of sid "(s, ko)" "eg_next (wd_engine w)"]
  by (auto simp: plan_ok_def distinct_dict_set list_all_iff)

lemma find_upto: "find P [a..b] = Some j \<Longrightarrow> a \<le> j \<and> j \<le> b \<and> P j \<and> (\<forall>i. a \<le> i \<and> i < j \<longrightarrow> \<not> P i)"
proof -
  assume "find P [a..b] = Some j"
  then obtain i where i: "i < length [a..b]" "P ([a..b] ! i)" "j = [a..b] ! i" "\<forall>i' < i. \<not> P ([a..b] ! i')"
    by (auto simp: find_Some_iff)
  have j: "j = a + int i" "a \<le> j" "j \<le> b" using i(1,3) by auto
  have "\<not> P x" if "a \<le> x" "x < j" for x
    using i(4) [rule_format, of "nat (x - a)"] that j i(1) by simp
  then show ?thesis using i(2,3) j by blast
qed

lemma plan_ok_due_one:
  assumes p: "plan_ok S w" and e: "entry_ok S (sid, s, ko)"
  shows "plan_ok S (start_due_one env ce ot freq rate (sid, s, ko) w)"
proof (cases ko)
  case None
  then show ?thesis using plan_ok_next [OF p e] by (simp add: start_due_one_def)
next
  case (Some k0)
  have e': "entry_ok S (sid, s, Some k0)" using e by (simp add: Some)
  have "plan_ok S (fold (start_run env ot freq rate s) (filter (due ce s) [k0..total_runs s - 1]) w)"
    by (rule same_plan_plan [OF same_plan_fold [OF same_plan_start] p])
  then show ?thesis
    unfolding Some start_due_one_runs [OF e']
    by (rule plan_ok_next) (use e' in \<open>fastforce dest: find_upto split: option.split\<close>)
qed

lemma ahead_next:
  assumes "ahead k w" "fst k = sid \<Longrightarrow> (case ko of None \<Rightarrow> True | Some j \<Rightarrow> snd k < j)"
  shows "ahead k (on_engine (\<lambda>e. e\<lparr>eg_next := dict_set sid (s, ko) (eg_next e)\<rparr>) w)"
  using assms by (auto simp: ahead_def map_of_dict_set)

text \<open>A run that is over or recording is not started again.\<close>

lemma due_one_ahead:
  assumes p: "plan_ok S w" and e: "entry_ok S (sid, s, ko)" and a: "ahead k w"
    and ko: "\<forall>j. ko = Some j \<longrightarrow> fst k = sid \<longrightarrow> snd k < j"
  shows "quiet k w (start_due_one env ce ot freq rate (sid, s, ko) w) \<and>
    ahead k (start_due_one env ce ot freq rate (sid, s, ko) w)"
proof (cases ko)
  case None
  then show ?thesis using ahead_next [OF a, of sid None s] by (simp add: start_due_one_def quiet_same)
next
  case (Some k0)
  have e': "entry_ok S (sid, s, Some k0)" using e by (simp add: Some)
  define w1 where "w1 = fold (start_run env ot freq rate s) (filter (due ce s) [k0..total_runs s - 1]) w"
  have "quiet k w w1"
    unfolding w1_def
  proof (rule quiet_fold)
    fix j w assume "j \<in> set (filter (due ce s) [k0..total_runs s - 1])"
    then have "(sch_id s, j) \<noteq> k" using ko e' Some by auto
    then show "quiet k w (start_run env ot freq rate s j w)" by (rule quiet_start)
  qed
  moreover have "ahead k w1" unfolding w1_def by (rule same_plan_ahead [OF same_plan_fold [OF same_plan_start] a])
  moreover have "fst k = sid \<Longrightarrow> (case find (\<lambda>j. \<not> due ce s j) [k0..total_runs s - 1] of None \<Rightarrow> True | Some j \<Rightarrow> snd k < j)"
    using ko Some by (fastforce dest: find_upto split: option.split)
  ultimately show ?thesis
    unfolding Some start_due_one_runs [OF e'] w1_def [symmetric]
    by (intro conjI quiet_trans [OF \<open>quiet k w w1\<close> quiet_same] ahead_next) simp_all
qed

text \<open>A run that is not yet known may be started.\<close>

lemma start_idle:
  assumes "idle (sch_id s, j) w"
  shows "idle (sch_id s, j) (start_run env ot freq rate s j w) \<or>
    fed (sch_id s, j) (spec_of s j freq rate) [] (start_run env ot freq rate s j w)"
proof -
  let ?k = "(sch_id s, j)"
  consider e where "start_run env ot freq rate s j w = report (sch_id s) j e w"
    | e path where "start_run env ot freq rate s j w = report (sch_id s) j e
        (put_active ?k (active_new (cutter_new (spec_of s j freq rate)) path)
          (call (WrOpen ?k path (spec_of s j freq rate)) w))"
    using start_run_cases [of env ot freq rate s j w] by blast
  then show ?thesis
  proof cases
    case 1
    then show ?thesis using idle_quiet [OF quiet_report assms] by simp
  next
    case 2
    define w' where "w' = start_run env ot freq rate s j w"
    have c: "wd_calls w' = wd_calls w @ WrOpen ?k path (spec_of s j freq rate) # []"
      "view ?k w' = Some (active_new (cutter_new (spec_of s j freq rate)) path)"
      unfolding w'_def 2 by (simp_all add: map_of_dict_set)
    have "list_all (bystander ?k) (wd_calls w @ [])" "offered ?k [] = []"
      using assms by (simp_all add: idle_def offered_def)
    then have "opened ?k (spec_of s j freq rate) [] w'" using c unfolding opened_def by blast
    then have "fed ?k (spec_of s j freq rate) [] w'"
      using c(2) by (simp add: fed_def feeds_def active_new_def del: map_of_eq_Some_iff)
    then show ?thesis by (simp add: w'_def)
  qed
qed

definition started :: "schedule set \<Rightarrow> run_key \<Rightarrow> schedule \<Rightarrow> rat \<Rightarrow> rat \<Rightarrow> world \<Rightarrow> bool" where
  "started S k s freq rate w \<longleftrightarrow> sch_id s = fst k \<and> s \<in> S \<and> sched_wf s \<and> 0 \<le> snd k \<and> snd k < total_runs s \<and>
     fed k (spec_of s (snd k) freq rate) [] w"

lemma quiet_starts:
  assumes "sch_id s = fst k \<longrightarrow> snd k \<notin> set js"
  shows "quiet k w (fold (start_run env ot freq rate s) js w)"
proof (rule quiet_fold)
  fix j w assume "j \<in> set js"
  then have "(sch_id s, j) \<noteq> k" using assms by auto
  then show "quiet k w (start_run env ot freq rate s j w)" by (rule quiet_start)
qed

lemma starts_idle:
  assumes "distinct js" "idle k w" "sch_id s = fst k" "\<forall>j \<in> set js. 0 \<le> j"
  shows "idle k (fold (start_run env ot freq rate s) js w) \<or>
    snd k \<in> set js \<and> fed k (spec_of s (snd k) freq rate) [] (fold (start_run env ot freq rate s) js w) \<and>
    (\<exists>l. bk_last (wd_book (fold (start_run env ot freq rate s) js w)) (fst k) = Some l \<and> snd k \<le> l)"
proof (cases "snd k \<in> set js")
  case False
  then show ?thesis using idle_quiet [OF quiet_starts assms(2)] by blast
next
  case True
  then obtain xs ys where js: "js = xs @ snd k # ys" "snd k \<notin> set xs" "snd k \<notin> set ys"
    using assms(1) by (metis split_list distinct_append distinct.simps(2) disjoint_iff list.set_intros(1))
  let ?st = "start_run env ot freq rate s"
  have k: "(sch_id s, snd k) = k" using assms(3) by simp
  define w1 where "w1 = fold ?st xs w"
  define w2 where "w2 = ?st (snd k) w1"
  have w3: "fold ?st js w = fold ?st ys w2" by (simp add: js(1) w1_def w2_def)
  have "idle k w1" unfolding w1_def by (rule idle_quiet [OF quiet_starts assms(2)]) (simp add: js)
  then have "idle k w2 \<or> fed k (spec_of s (snd k) freq rate) [] w2"
    unfolding w2_def using start_idle [of s "snd k" w1] unfolding k by blast
  moreover have q: "quiet k w2 (fold ?st ys w2)" by (rule quiet_starts) (simp add: js)
  moreover have "\<exists>l. bk_last (wd_book (fold ?st ys w2)) (fst k) = Some l \<and> snd k \<le> l"
  proof -
    obtain l where l: "bk_last (wd_book w2) (fst k) = Some l" "snd k \<le> l"
      using start_run_last [of "snd k" env ot freq rate s w1] assms(3,4) True by (auto simp: w2_def)
    have "same_plan w2 (fold ?st ys w2)" by (rule same_plan_fold [OF same_plan_start])
    then obtain l' where "bk_last (wd_book (fold ?st ys w2)) (fst k) = Some l'" "l \<le> l'"
      using l(1) unfolding same_plan_def by blast
    then show ?thesis using l(2) by (intro exI [of _ l']) simp
  qed
  ultimately show ?thesis using True idle_quiet [OF q] fed_quiet [OF q] unfolding w3 by blast
qed

lemma due_one_idle:
  assumes e: "entry_ok S (sid, s, ko)" and i: "idle k w"
  shows "idle k (start_due_one env ce ot freq rate (sid, s, ko) w) \<or>
    fst k = sid \<and> started S k s freq rate (start_due_one env ce ot freq rate (sid, s, ko) w) \<and>
    ahead k (start_due_one env ce ot freq rate (sid, s, ko) w)"
proof (cases ko)
  case None
  then show ?thesis using idle_quiet [OF quiet_same i] by (simp add: start_due_one_def)
next
  case (Some k0)
  let ?js = "filter (due ce s) [k0..total_runs s - 1]" and ?next = "find (\<lambda>j. \<not> due ce s j) [k0..total_runs s - 1]"
  have e': "entry_ok S (sid, s, Some k0)" using e by (simp add: Some)
  define w1 where "w1 = fold (start_run env ot freq rate s) ?js w"
  define w2 where "w2 = on_engine (\<lambda>e. e\<lparr>eg_next := dict_set sid (s, ?next) (eg_next e)\<rparr>) w1"
  have w2: "start_due_one env ce ot freq rate (sid, s, ko) w = w2"
    unfolding Some w2_def w1_def by (rule start_due_one_runs [OF e'])
  have q: "quiet k w1 w2" by (rule quiet_same) (simp_all add: w2_def)
  show ?thesis
  proof (cases "fst k = sid")
    case False
    then have "quiet k w w1" unfolding w1_def using e' by (intro quiet_starts) auto
    then show ?thesis unfolding w2 using idle_quiet [OF quiet_trans [OF _ q] i] by blast
  next
    case True
    then have sid: "sch_id s = fst k" using e' by simp
    consider "idle k w1" | "snd k \<in> set ?js" "fed k (spec_of s (snd k) freq rate) [] w1"
      "\<exists>l. bk_last (wd_book w1) (fst k) = Some l \<and> snd k \<le> l"
      using starts_idle [of ?js k w s env ot freq rate] i sid e' unfolding w1_def by fastforce
    then show ?thesis
    proof cases
      case 1
      then show ?thesis unfolding w2 using idle_quiet [OF q] by blast
    next
      case 2
      have j: "due ce s (snd k)" "k0 \<le> snd k" "snd k \<le> total_runs s - 1" using 2(1) by auto
      have "snd k < j'" if "?next = Some j'" for j'
      proof -
        have "\<not> due ce s j'" using find_upto [OF that] by blast
        then show ?thesis using due_mono [of s j' "snd k" ce] j(1) e' by fastforce
      qed
      then have "ahead k w2"
        using 2(3) True by (simp add: ahead_def w2_def map_of_dict_set)
      moreover have "started S k s freq rate w2"
        using fed_quiet [OF q 2(2)] sid e' j unfolding started_def by simp
      ultimately show ?thesis unfolding w2 using True by blast
    qed
  qed
qed

lemma plan_ok_due:
  assumes "list_all (entry_ok S) es" "plan_ok S w"
  shows "plan_ok S (fold (start_due_one env ce ot freq rate) es w)"
  using assms
proof (induction es arbitrary: w)
  case (Cons x es)
  obtain sid s ko where x: "x = (sid, s, ko)" by (cases x)
  show ?case using Cons plan_ok_due_one [of S w sid s ko] by (simp add: x)
qed simp

lemma due_ahead:
  assumes "list_all (entry_ok S) es" "plan_ok S w" "ahead k w"
    "\<forall>s j. (fst k, s, Some j) \<in> set es \<longrightarrow> snd k < j"
  shows "quiet k w (fold (start_due_one env ce ot freq rate) es w) \<and> ahead k (fold (start_due_one env ce ot freq rate) es w)"
  using assms
proof (induction es arbitrary: w)
  case (Cons x es)
  obtain sid s ko where x: "x = (sid, s, ko)" by (cases x)
  define w1 where "w1 = start_due_one env ce ot freq rate (sid, s, ko) w"
  have e: "entry_ok S (sid, s, ko)" using Cons.prems(1) by (simp add: x)
  have "\<forall>j. ko = Some j \<longrightarrow> fst k = sid \<longrightarrow> snd k < j" using Cons.prems(4) by (auto simp: x)
  then have "quiet k w w1 \<and> ahead k w1"
    unfolding w1_def by (rule due_one_ahead [OF Cons.prems(2) e Cons.prems(3)])
  moreover have "plan_ok S w1" unfolding w1_def by (rule plan_ok_due_one [OF Cons.prems(2) e])
  then have "ahead k w1 \<Longrightarrow> quiet k w1 (fold (start_due_one env ce ot freq rate) es w1) \<and>
      ahead k (fold (start_due_one env ce ot freq rate) es w1)"
    using Cons.prems(1,4) by (intro Cons.IH) (simp_all add: x)
  ultimately show ?case using quiet_trans by (simp add: x w1_def [symmetric]) blast
qed (simp add: quiet_refl)

lemma due_idle:
  assumes "list_all (entry_ok S) es" "distinct (map fst es)" "plan_ok S w" "idle k w"
  shows "idle k (fold (start_due_one env ce ot freq rate) es w) \<or>
    (\<exists>s. started S k s freq rate (fold (start_due_one env ce ot freq rate) es w)) \<and>
    ahead k (fold (start_due_one env ce ot freq rate) es w)"
  using assms
proof (induction es arbitrary: w)
  case (Cons x es)
  obtain sid s ko where x: "x = (sid, s, ko)" by (cases x)
  let ?rest = "fold (start_due_one env ce ot freq rate) es"
  define w1 where "w1 = start_due_one env ce ot freq rate (sid, s, ko) w"
  have e: "entry_ok S (sid, s, ko)" using Cons.prems(1) by (simp add: x)
  have p: "plan_ok S w1" unfolding w1_def by (rule plan_ok_due_one [OF Cons.prems(3) e])
  have w: "fold (start_due_one env ce ot freq rate) (x # es) w = ?rest w1" by (simp add: x w1_def)
  consider "idle k w1" | "fst k = sid" "started S k s freq rate w1" "ahead k w1"
    using due_one_idle [OF e Cons.prems(4)] unfolding w1_def by blast
  then show ?case
  proof cases
    case 1
    then show ?thesis unfolding w using Cons.prems(1,2) p by (intro Cons.IH) (simp_all add: x)
  next
    case 2
    have "fst k \<notin> fst ` set es" using Cons.prems(2) 2(1) by (simp add: x)
    then have "\<forall>s j. (fst k, s, Some j) \<in> set es \<longrightarrow> snd k < j" by force
    then have "quiet k w1 (?rest w1) \<and> ahead k (?rest w1)"
      using Cons.prems(1) p 2(3) by (intro due_ahead) (simp_all add: x)
    then show ?thesis unfolding w using 2(2) fed_quiet unfolding started_def by blast
  qed
qed simp

section \<open>Every event\<close>

fun chunk_of :: "sys_event \<Rightarrow> fed_chunk list" where
  "chunk_of (SyChunk env chunk cs t gaps freq rate ring) = [(chunk, cs, t, gaps, freq, rate, ring)]"
| "chunk_of _ = []"

definition chunks_of :: "sys_event list \<Rightarrow> fed_chunk list" where
  "chunks_of evs = concat (map chunk_of evs)"

fun freq_of :: "fed_chunk \<Rightarrow> rat" where "freq_of (_, _, _, _, freq, _, _) = freq"
fun rate_of :: "fed_chunk \<Rightarrow> rat" where "rate_of (_, _, _, _, _, rate, _) = rate"

text \<open>The run \<open>k\<close> was opened at a chunk of the list as the run of a schedule.\<close>

definition opened_at :: "schedule set \<Rightarrow> run_key \<Rightarrow> fed_chunk list \<Rightarrow> nat \<Rightarrow> run_spec \<Rightarrow> bool" where
  "opened_at S k xs n sp \<longleftrightarrow> n < length xs \<and> (\<exists>s. sch_id s = fst k \<and> s \<in> S \<and> sched_wf s \<and> 0 \<le> snd k \<and> snd k < total_runs s \<and>
     sp = spec_of s (snd k) (freq_of (xs ! n)) (rate_of (xs ! n)))"

definition being_recorded :: "schedule set \<Rightarrow> run_key \<Rightarrow> fed_chunk list \<Rightarrow> world \<Rightarrow> bool" where
  "being_recorded S k xs w \<longleftrightarrow> (\<exists>n sp. opened_at S k xs n sp \<and> fed k sp (drop n xs) w)"

definition finished :: "schedule set \<Rightarrow> run_key \<Rightarrow> fed_chunk list \<Rightarrow> world \<Rightarrow> bool" where
  "finished S k xs w \<longleftrightarrow> (\<exists>n m sp. opened_at S k xs n sp \<and> n < m \<and> m \<le> length xs \<and>
     over k sp (snd (feeds (drop n (take m xs)) sp)) w)"

definition run_inv :: "schedule set \<Rightarrow> run_key \<Rightarrow> fed_chunk list \<Rightarrow> world \<Rightarrow> bool" where
  "run_inv S k xs w \<longleftrightarrow> plan_ok S w \<and> (idle k w \<or> ahead k w \<and> (being_recorded S k xs w \<or> finished S k xs w))"

lemma opened_at_snoc: "opened_at S k xs n sp \<Longrightarrow> opened_at S k (xs @ [x]) n sp"
  by (auto simp: opened_at_def nth_append)

lemma finished_snoc: "finished S k xs w \<Longrightarrow> finished S k (xs @ [x]) w"
proof -
  assume "finished S k xs w"
  then obtain n m sp where f: "opened_at S k xs n sp" "n < m" "m \<le> length xs"
    "over k sp (snd (feeds (drop n (take m xs)) sp)) w"
    unfolding finished_def by blast
  then have "over k sp (snd (feeds (drop n (take m (xs @ [x]))) sp)) w" by simp
  then show ?thesis
    unfolding finished_def using opened_at_snoc [OF f(1)] f(2,3) by (intro exI [of _ n] exI [of _ m] exI [of _ sp]) simp
qed

lemma recorded_over:
  assumes "opened_at S k xs n sp" "over k sp (snd (feeds (drop n xs) sp)) w" shows "finished S k xs w"
  unfolding finished_def
  by (intro exI [of _ n] exI [of _ "length xs"] exI [of _ sp]) (use assms in \<open>simp_all add: opened_at_def\<close>)

text \<open>A step that leaves the run alone and keeps the plan.\<close>

lemma run_inv_quiet:
  assumes q: "quiet k w w'" and p: "plan_ok S w \<Longrightarrow> plan_ok S w'" and a: "plan_ok S w \<Longrightarrow> ahead k w \<Longrightarrow> ahead k w'"
    and i: "run_inv S k xs w"
  shows "run_inv S k xs w'"
proof -
  have "being_recorded S k xs w \<Longrightarrow> being_recorded S k xs w'" using fed_quiet [OF q] unfolding being_recorded_def by blast
  moreover have "finished S k xs w \<Longrightarrow> finished S k xs w'" using over_quiet [OF q] unfolding finished_def by blast
  ultimately show ?thesis using i p a idle_quiet [OF q] unfolding run_inv_def by blast
qed

lemma run_inv_same_plan:
  assumes "quiet k w w'" "same_plan w w'" "run_inv S k xs w" shows "run_inv S k xs w'"
  by (rule run_inv_quiet [OF assms(1) _ _ assms(3)])
    (simp_all add: same_plan_plan [OF assms(2)] same_plan_ahead [OF assms(2)])

text \<open>The steps of the active runs for one chunk.\<close>

lemma same_plan_chunk_runs: "same_plan w (fold (chunk_run env chunk cs t gaps freq ring) keys w)"
  by (rule same_plan_fold [OF same_plan_chunk_run])

lemma quiet_chunk_runs: "k \<notin> set keys \<Longrightarrow> quiet k w (fold (chunk_run env chunk cs t gaps freq ring) keys w)"
  by (rule quiet_fold) (metis quiet_chunk_run)

lemma chunk_runs_fed:
  assumes f: "fed k sp fs w" and d: "distinct (map fst (eg_active (wd_engine w)))"
    and fs'_def: "fs' = fs @ [(chunk, cs, t, gaps, freq, rate, ring)]"
    and w'_def: "w' = fold (chunk_run env chunk cs t gaps freq ring) (map fst (eg_active (wd_engine w))) w"
  shows "fed k sp fs' w' \<or> over k sp (snd (feeds fs' sp)) w'"
proof -
  let ?step = "chunk_run env chunk cs t gaps freq ring"
  have "view k w \<noteq> None" using f by (auto simp: fed_def)
  then have "k \<in> set (map fst (eg_active (wd_engine w)))" by (simp add: map_of_eq_None_iff)
  then obtain xs ys where ks: "map fst (eg_active (wd_engine w)) = xs @ k # ys" "k \<notin> set xs" "k \<notin> set ys"
    using d by (metis split_list distinct_append distinct.simps(2) disjoint_iff list.set_intros(1))
  define w1 where "w1 = fold ?step xs w"
  define w2 where "w2 = ?step k w1"
  have w': "w' = fold ?step ys w2" unfolding w'_def ks(1) w1_def w2_def by simp
  have "fed k sp fs w1" unfolding w1_def by (rule fed_quiet [OF quiet_chunk_runs [OF ks(2)] f])
  then have "fed k sp fs' w2 \<or> over k sp (snd (feeds fs' sp)) w2" unfolding w2_def by (rule chunk_run_fed [OF _ fs'_def])
  then show ?thesis
    unfolding w' using fed_quiet [OF quiet_chunk_runs [OF ks(3)]] over_quiet [OF quiet_chunk_runs [OF ks(3)]] by blast
qed

lemma quiet_inactive:
  "view k w = None \<Longrightarrow> quiet k w (fold (chunk_run env chunk cs t gaps freq ring) (map fst (eg_active (wd_engine w))) w)"
  by (rule quiet_chunk_runs) (simp add: map_of_eq_None_iff)

text \<open>The steps before the due runs are started.\<close>

lemma chunk_plan_inv: "run_inv S k xs w \<Longrightarrow> run_inv S k xs (chunk_plan t w)"
proof -
  assume i: "run_inv S k xs w"
  define w1 where "w1 = on_engine (\<lambda>e. e\<lparr>eg_marked := True\<rparr>) w"
  define w2 where "w2 = (if eg_marked (wd_engine w) then w else mark_missed (py_int (t * 1000)) w1)"
  have "quiet k w w2"
    using mark_missed_engine [of "py_int (t * 1000)" w1] by (intro quiet_same) (simp_all add: w2_def w1_def)
  moreover have "same_plan w w1" by (rule same_planI) (simp_all add: w1_def)
  then have "same_plan w w2"
    using same_plan_trans [OF _ same_plan_mark] by (simp add: w2_def same_plan_refl)
  ultimately have i2: "run_inv S k xs w2" by (rule run_inv_same_plan [OF _ _ i])
  have "quiet k w2 (refresh t w2)" by (rule quiet_same) (simp_all add: refresh_engine)
  then have "run_inv S k xs (refresh t w2)"
    by (rule run_inv_quiet [OF _ _ _ i2]) (simp_all add: plan_ok_refresh ahead_refresh)
  then show ?thesis by (simp only: chunk_plan_def w2_def w1_def)
qed

lemma due_inv:
  assumes "run_inv S k xs w"
    and w'_def: "w' = start_due env ce ot freq rate w"
  shows "run_inv S k xs w' \<or> plan_ok S w' \<and> ahead k w' \<and> (\<exists>s. started S k s freq rate w')"
proof -
  let ?es = "eg_next (wd_engine w)"
  have p: "plan_ok S w" using assms(1) by (simp add: run_inv_def)
  then have es: "list_all (entry_ok S) ?es" "distinct (map fst ?es)" by (simp_all add: plan_ok_def)
  have p': "plan_ok S w'" unfolding w'_def start_due_def by (rule plan_ok_due [OF es(1) p])
  consider "idle k w" | "ahead k w" using assms(1) unfolding run_inv_def by blast
  then show ?thesis
  proof cases
    case 1
    then have "idle k w' \<or> (\<exists>s. started S k s freq rate w') \<and> ahead k w'"
      unfolding w'_def start_due_def by (rule due_idle [OF es p])
    then show ?thesis using p' by (auto simp: run_inv_def)
  next
    case 2
    have "\<forall>s j. (fst k, s, Some j) \<in> set ?es \<longrightarrow> snd k < j"
      using 2 es(2) unfolding ahead_def by (metis map_of_is_SomeI)
    then have "quiet k w w' \<and> ahead k w'"
      unfolding w'_def start_due_def by (rule due_ahead [OF es(1) p 2])
    then have "run_inv S k xs w'" using p' by (intro run_inv_quiet [OF _ _ _ assms(1)]) simp_all
    then show ?thesis by blast
  qed
qed

text \<open>A chunk.\<close>

lemma run_inv_chunk:
  assumes i: "run_inv S k xs w" and r: "runs_ok w"
    and x_def: "x = (chunk, cs, t, gaps, freq, rate, ring)"
  shows "run_inv S k (xs @ [x]) (on_chunk env chunk cs t gaps freq rate ring w)"
proof -
  obtain ce ot where oc: "on_chunk env chunk cs t gaps freq rate ring w =
     (let w = start_due env ce ot freq rate (chunk_plan t w)
      in fold (chunk_run env chunk cs t gaps freq ring) (map fst (eg_active (wd_engine w))) w)"
    using on_chunk_parts by blast
  define w1 where "w1 = start_due env ce ot freq rate (chunk_plan t w)"
  define w2 where "w2 = fold (chunk_run env chunk cs t gaps freq ring) (map fst (eg_active (wd_engine w1))) w1"
  have w2: "on_chunk env chunk cs t gaps freq rate ring w = w2" by (simp add: oc w1_def w2_def Let_def)
  have "runs_ok (chunk_plan t w)" by (rule runs_ok_same [OF _ r]) (simp add: chunk_plan_engine)
  then have "runs_ok w1"
    unfolding w1_def start_due_def by (rule fold_invariant [where P = runs_ok, rotated]) (auto intro: runs_ok_due_one)
  then have d: "distinct (map fst (eg_active (wd_engine w1)))" by (simp add: runs_ok_def)
  have sp: "same_plan w1 w2" unfolding w2_def by (rule same_plan_chunk_runs)
  consider "run_inv S k xs w1" | s where "plan_ok S w1" "ahead k w1" "started S k s freq rate w1"
    using due_inv [OF chunk_plan_inv [OF i], of w1 env ce ot freq rate t] w1_def by blast
  then show ?thesis
  proof cases
    case 1
    show ?thesis
    proof (cases "being_recorded S k xs w1")
      case True
      then obtain n sp where n: "opened_at S k xs n sp" "fed k sp (drop n xs) w1" unfolding being_recorded_def by blast
      have x: "drop n (xs @ [x]) = drop n xs @ [(chunk, cs, t, gaps, freq, rate, ring)]"
        using n(1) by (simp add: opened_at_def x_def)
      have "fed k sp (drop n (xs @ [x])) w2 \<or> over k sp (snd (feeds (drop n (xs @ [x])) sp)) w2"
        by (rule chunk_runs_fed [OF n(2) d x w2_def])
      then have "being_recorded S k (xs @ [x]) w2 \<or> finished S k (xs @ [x]) w2"
        using opened_at_snoc [OF n(1)] recorded_over unfolding being_recorded_def by blast
      moreover have "view k w1 \<noteq> None" using n(2) by (auto simp: fed_def)
      then have "ahead k w1" using 1 True unfolding run_inv_def idle_def by argo
      ultimately show ?thesis
        using 1 same_plan_plan [OF sp] same_plan_ahead [OF sp] unfolding w2 run_inv_def by blast
    next
      case False
      then consider "idle k w1" | "finished S k xs w1" using 1 unfolding run_inv_def by blast
      then have v: "view k w1 = None" by cases (auto simp: idle_def finished_def over_def)
      have q: "quiet k w1 w2" unfolding w2_def by (rule quiet_inactive [OF v])
      have "run_inv S k xs w2" by (rule run_inv_same_plan [OF q sp 1])
      moreover have "\<not> being_recorded S k xs w2"
      proof
        assume "being_recorded S k xs w2"
        then have "view k w2 \<noteq> None" unfolding being_recorded_def fed_def by auto
        moreover have "rel_option same_run (view k w2) (view k w1)"
          using q unfolding quiet_def by blast
        ultimately show False using v by simp
      qed
      ultimately show ?thesis using finished_snoc unfolding w2 run_inv_def by blast
    qed
  next
    case 2
    have o: "opened_at S k (xs @ [x]) (length xs) (spec_of s (snd k) freq rate)"
      using 2(3) by (auto simp: opened_at_def started_def x_def)
    have "fed k (spec_of s (snd k) freq rate) [] w1" using 2(3) by (simp add: started_def)
    then have "fed k (spec_of s (snd k) freq rate) [x] w2 \<or>
        over k (spec_of s (snd k) freq rate) (snd (feeds [x] (spec_of s (snd k) freq rate))) w2"
      by (rule chunk_runs_fed [OF _ d _ w2_def]) (simp add: x_def)
    then have "being_recorded S k (xs @ [x]) w2 \<or> finished S k (xs @ [x]) w2"
      using o recorded_over [OF o, of w2] unfolding being_recorded_def by force
    then show ?thesis
      using 2 same_plan_plan [OF sp] same_plan_ahead [OF sp] unfolding w2 run_inv_def by blast
  qed
qed

text \<open>The stop of the pipeline.\<close>

lemma stop_opened: "opened k sp ops w \<Longrightarrow> over k sp ops (stop_one reason k w)"
proof -
  assume o: "opened k sp ops w"
  then obtain act where a: "view k w = Some act" unfolding opened_def by blast
  have "opened k sp ops (put_active k act' w)" for act'
    using o unfolding opened_def by (simp add: view_put del: world_sel(19))
  then show ?thesis using a close_opened o by (simp add: stop_one_def del: map_of_eq_Some_iff)
qed

lemma stop_all_opened:
  assumes o: "opened k sp ops w" and d: "distinct (map fst (eg_active (wd_engine w)))"
  shows "over k sp ops (engine_stop reason w)"
proof -
  have "k \<in> set (map fst (eg_active (wd_engine w)))" using o by (auto simp: opened_def map_of_eq_None_iff)
  then obtain xs ys where ks: "map fst (eg_active (wd_engine w)) = xs @ k # ys" "k \<notin> set xs" "k \<notin> set ys"
    using d by (metis split_list distinct_append distinct.simps(2) disjoint_iff list.set_intros(1))
  have q: "k \<notin> set zs \<Longrightarrow> quiet k w' (fold (stop_one reason) zs w')" for zs w'
    by (rule quiet_fold) (metis quiet_stop)
  have "over k sp ops (stop_one reason k (fold (stop_one reason) xs w))"
    by (rule stop_opened [OF opened_quiet [OF q [OF ks(2)] o]])
  then show ?thesis
    unfolding engine_stop_def ks(1) using over_quiet [OF q [OF ks(3)]] by simp
qed

lemma run_inv_stop:
  assumes i: "run_inv S k xs w" and r: "runs_ok w"
  shows "run_inv S k xs (engine_stop reason w)"
proof -
  let ?w = "engine_stop reason w"
  have sp: "same_plan w ?w" unfolding engine_stop_def by (rule same_plan_fold [OF same_plan_stop])
  show ?thesis
  proof (cases "view k w")
    case None
    have "quiet k w ?w" unfolding engine_stop_def
    proof (rule quiet_fold)
      fix key w' assume "key \<in> set (map fst (eg_active (wd_engine w)))"
      then have "key \<noteq> k" using None by (auto simp: map_of_eq_None_iff)
      then show "quiet k w' (stop_one reason key w')" by (rule quiet_stop)
    qed
    then show ?thesis using sp i by (rule run_inv_same_plan)
  next
    case (Some act)
    have rec: "being_recorded S k xs w \<and> ahead k w \<and> plan_ok S w"
      using i Some unfolding run_inv_def idle_def finished_def over_def by auto
    then obtain n sp where n: "opened_at S k xs n sp" "fed k sp (drop n xs) w" unfolding being_recorded_def by blast
    have "over k sp (snd (feeds (drop n xs) sp)) ?w"
      by (rule stop_all_opened) (use n(2) r in \<open>simp_all add: fed_def runs_ok_def\<close>)
    then have "finished S k xs ?w" by (rule recorded_over [OF n(1)])
    then show ?thesis
      using rec same_plan_plan [OF sp] same_plan_ahead [OF sp] unfolding run_inv_def by blast
  qed
qed

text \<open>A step on the book.\<close>

lemma book_step_active:
  assumes "book_step ev (db, b) = (db', b')"
  shows "bk_active b' = bk_active b \<or> (\<exists>s. ev = EvAdd s \<and> bk_active b' = dict_set (sch_id s) s (bk_active b)) \<or>
    (\<exists>i. bk_active b' = dict_del i (bk_active b))"
proof (cases ev)
  case (EvAdd s)
  show ?thesis
  proof (cases "add_schedule s db b")
    case (Inl e)
    then show ?thesis using assms by (simp add: EvAdd)
  next
    case (Inr r)
    then have "snd r = (db', b')" using assms by (cases r) (simp add: EvAdd)
    then have "add_schedule s db b = Inr (fst r, db', b')" using Inr by (cases r) simp
    then show ?thesis by (auto simp: EvAdd add_schedule_def split: sum.splits option.splits if_splits)
  qed
next
  case (EvDelete i t)
  then show ?thesis
    using assms by (auto simp: remove_schedule_def Let_def split: prod.splits if_splits)
next
  case (EvReport i k e)
  then show ?thesis using assms by (simp add: report_run_def split: option.splits) auto
next
  case (EvPersist ok n)
  then show ?thesis using assms persist_latest [of ok n db b db' b'] by simp
qed

lemma book_step_last:
  assumes "book_step ev (db, b) = (db', b')"
  shows "bk_last b' = bk_last b \<or> (\<exists>i k e. ev = EvReport i k e \<and> b' = report_run i k e b)"
proof (cases ev)
  case (EvAdd s)
  show ?thesis
  proof (cases "add_schedule s db b")
    case (Inr r)
    then have "add_schedule s db b = Inr (fst r, db', b')" using assms by (cases r) (simp add: EvAdd)
    then show ?thesis using add_latest by blast
  qed (use assms in \<open>simp add: EvAdd\<close>)
next
  case (EvDelete i t)
  then have "remove_schedule i t db b = (fst (remove_schedule i t db b), db', b')"
    using assms by (cases "remove_schedule i t db b") simp
  then show ?thesis using remove_latest by blast
next
  case (EvPersist ok n)
  then show ?thesis using assms persist_latest [of ok n db b db' b'] by simp
qed (use assms in simp)

lemma book_step_plan:
  assumes w: "list_all (\<lambda>(_, s). s \<in> S \<and> sched_wf s) (bk_active b)" and s: "\<And>s. ev = EvAdd s \<Longrightarrow> s \<in> S \<and> sched_wf s"
    and step: "book_step ev (db, b) = (db', b')"
  shows "list_all (\<lambda>(_, s). s \<in> S \<and> sched_wf s) (bk_active b')"
  using book_step_active [OF step]
proof (elim disjE exE conjE)
  fix s assume a: "ev = EvAdd s" "bk_active b' = dict_set (sch_id s) s (bk_active b)"
  then show ?thesis using w s [OF a(1)] set_dict_set [of "sch_id s" s "bk_active b"] by (fastforce simp: list_all_iff)
next
  fix i assume "bk_active b' = dict_del i (bk_active b)"
  then show ?thesis using w by (simp add: dict_del_def list_all_iff)
qed (use w in simp)

lemma book_step_grows:
  assumes step: "book_step ev (db, b) = (db', b')" and l: "bk_last b i = Some l"
  shows "\<exists>l'. bk_last b' i = Some l' \<and> l \<le> l'"
  using book_step_last [OF step]
proof (elim disjE exE conjE)
  fix j k e assume "b' = report_run j k e b"
  then show ?thesis using l by (auto simp: report_run_def split: option.splits)
qed (use l in simp)

lemma run_inv_book:
  assumes i: "run_inv S k xs w" and s: "\<And>s. ev = EvAdd s \<Longrightarrow> s \<in> S \<and> sched_wf s"
  shows "run_inv S k xs (sys_do io (SyBook ev) w)"
proof -
  obtain db' b' where step: "book_step ev (wd_db w, wd_book w) = (db', b')" by fastforce
  have w': "sys_do io (SyBook ev) w = w\<lparr>wd_db := db', wd_book := b'\<rparr>" by (simp add: step)
  show ?thesis
    unfolding w'
  proof (rule run_inv_quiet [OF _ _ _ i])
    show "quiet k w (w\<lparr>wd_db := db', wd_book := b'\<rparr>)" by (rule quiet_same) simp_all
  next
    assume "plan_ok S w"
    then show "plan_ok S (w\<lparr>wd_db := db', wd_book := b'\<rparr>)"
      using book_step_plan [OF _ s step] by (simp add: plan_ok_def)
  next
    assume "plan_ok S w" "ahead k w"
    then show "ahead k (w\<lparr>wd_db := db', wd_book := b'\<rparr>)"
      using book_step_grows [OF step] unfolding plan_ok_def ahead_def by (simp, metis order_trans)
  qed
qed

lemma run_inv_event:
  assumes i: "run_inv S k xs w" and r: "runs_ok w" and s: "\<And>s. ev = SyBook (EvAdd s) \<Longrightarrow> s \<in> S \<and> sched_wf s"
  shows "run_inv S k (xs @ chunk_of ev) (sys_do io ev w)"
proof (cases ev)
  case (SyChunk env chunk cs t gaps freq rate ring)
  then show ?thesis using run_inv_chunk [OF i r refl] by simp
next
  case (SyGrid g fa ta cs ss cal)
  obtain meta where m: "on_grid g fa ta cs ss cal w = fold (grid_run g meta cs ss) (map fst (eg_active (wd_engine w)))
     (on_engine (\<lambda>e. e\<lparr>eg_grids_flow := True\<rparr>) w)" using on_grid_fold by blast
  define w1 where "w1 = on_engine (\<lambda>e. e\<lparr>eg_grids_flow := True\<rparr>) w"
  define w2 where "w2 = fold (grid_run g meta cs ss) (map fst (eg_active (wd_engine w))) w1"
  have "quiet k w w1" "same_plan w w1" by (auto simp: w1_def intro: quiet_same same_planI)
  moreover have "quiet k w1 w2" "same_plan w1 w2"
    unfolding w2_def by (rule quiet_fold [OF quiet_grid], rule same_plan_fold [OF same_plan_grid])
  ultimately have "run_inv S k xs w2" using run_inv_same_plan i by blast
  then show ?thesis by (simp add: SyGrid m w1_def w2_def)
next
  case (SyStop reason)
  then show ?thesis using run_inv_stop [OF i r] by simp
next
  case (SyBook b)
  then show ?thesis using run_inv_book [OF i, of b io] s by simp
next
  case SyStartWriter
  have "quiet k w (call WrStart w)" by (rule quiet_call) (simp_all add: bystander_def offered_def)
  moreover have "same_plan w (call WrStart w)" by (rule same_planI) simp_all
  ultimately show ?thesis using run_inv_same_plan i by (simp add: SyStartWriter)
next
  case SyWriter
  have "quiet k w (sys_do io SyWriter w)"
    by (auto simp: quiet_def same_run_refl bystander_def offered_def intro: option.rel_refl)
  moreover have "same_plan w (sys_do io SyWriter w)" by (rule same_planI) simp_all
  ultimately show ?thesis using run_inv_same_plan i by (simp add: SyWriter)
qed

lemma runs_ok_system: "runs_ok (sys_run io evs (world_new grace_ms budget disk))"
proof -
  have "runs_ok (world_new grace_ms budget disk)" by (simp add: runs_ok_def world_new_def engine_new_def recs_def)
  then show ?thesis
    unfolding sys_run_def by (rule fold_invariant [where P = runs_ok, rotated]) (simp add: runs_ok_event)
qed

text \<open>The schedules that were stored.\<close>

definition added :: "sys_event list \<Rightarrow> schedule set" where
  "added evs = {s. SyBook (EvAdd s) \<in> set evs}"

lemma run_inv_system:
  assumes "\<forall>s. SyBook (EvAdd s) \<in> set evs \<longrightarrow> s \<in> S \<and> sched_wf s"
  shows "run_inv S k (chunks_of evs) (sys_run io evs (world_new grace_ms budget disk))"
  using assms
proof (induction evs rule: rev_induct)
  case Nil
  show ?case
    by (simp add: run_inv_def plan_ok_def idle_def sys_run_def chunks_of_def world_new_def engine_new_def book_new_def bind_loop_def)
next
  case (snoc ev evs)
  then have "run_inv S k (chunks_of evs @ chunk_of ev) (sys_do io ev (sys_run io evs (world_new grace_ms budget disk)))"
    by (intro run_inv_event runs_ok_system) simp_all
  then show ?case by (simp add: sys_run_simps chunks_of_def)
qed

text \<open>
  C7: a scheduled run is recorded once, from one chunk on without a hole. Whatever the order of
  chunks, PSD grids, schedule changes, database writes, writer steps and stops: a run key
  has no call at the writer at all, or it was opened exactly once, as the run of that
  number of a stored schedule of that id, with the rate and the centre frequency of the chunk
  at which it was opened; since then its cutter got every chunk in order and the
  writer was offered exactly what the cutter made of them; and it is still active, or
  it was closed exactly once and got no chunk after that.
\<close>

theorem run_recorded_once:
  assumes "\<forall>s \<in> added evs. sched_wf s"
    and "w = sys_run io evs (world_new grace_ms budget disk)"
  shows "idle k w \<or> being_recorded (added evs) k (chunks_of evs) w \<or> finished (added evs) k (chunks_of evs) w"
  using run_inv_system [of evs "added evs" k] assms unfolding run_inv_def added_def by blast

text \<open>A run of one second, in one chunk.\<close>

definition wit_sched :: schedule where
  "wit_sched = \<lparr>sch_id = ''s'', sch_start_ms = 1000, sch_duration_ms = 1000, sch_every_ms = None, sch_count = None,
     sch_until_ms = None, sch_label = [], sch_source = ''api'', sch_created_ms = 0\<rparr>"

definition wit_ring :: "int ring_reader option" where
  "wit_ring = Some (ring_view (ring_write (ring_new 4 0) [7, 8]))"

definition wit_env :: surroundings where
  "wit_env = \<lparr>sd_refusal = (\<lambda>_. None), sd_serial = None, sd_hostname = None, sd_directory = ''d'', sd_clock = (\<lambda>_. (0, 0))\<rparr>"

lemma wit_fields: "sch_id wit_sched = ''s''" "sch_start_ms wit_sched = 1000" "sch_duration_ms wit_sched = 1000"
  "sch_created_ms wit_sched = 0" "sch_label wit_sched = []"
  by (simp_all add: wit_sched_def)

lemma wit_entry: "entry_ok {wit_sched} (''s'', wit_sched, Some 0)"
  by (simp add: wit_sched_def sched_wf_def total_runs_def) code_simp

lemma wit_runs: "first_run_from wit_sched 1000 = Some 0" "total_runs wit_sched = 1" "run_start_ms wit_sched 0 = 1000"
  "runs_between wit_sched 1000 1000 n = []"
  by (simp_all add: wit_sched_def first_run_from_def total_runs_def run_start_ms_def runs_between_def)

text \<open>After the schedule is stored, after the plan is made, after the run is started.\<close>

definition wit_booked :: world where "wit_booked = sys_run (\<lambda>_. None) [SyBook (EvAdd wit_sched)] (world_new 0 1000 [])"
definition wit_planned :: world where "wit_planned = chunk_plan 1 wit_booked"
definition wit_due :: world where "wit_due = start_due wit_env 2 1 100 2 wit_planned"
definition wit_spec1 :: run_spec where "wit_spec1 = spec_of wit_sched 0 100 2"

lemma wit_booked:
  "bk_active (wd_book wit_booked) = [(''s'', wit_sched)]" "bk_version (wd_book wit_booked) = 1"
  "bk_last (wd_book wit_booked) = (\<lambda>_. None)" "wd_engine wit_booked = engine_new 0" "wd_calls wit_booked = []"
  by (simp_all add: wit_booked_def sys_run_def world_new_def book_new_def bind_loop_def add_schedule_def get_schedule_def
    insert_schedule_def db_empty_def dict_set_def wit_fields)

lemma wit_planned:
  "eg_next (wd_engine wit_planned) = [(''s'', wit_sched, Some 0)]" "eg_active (wd_engine wit_planned) = []"
  "wd_calls wit_planned = []" "eg_grids_flow (wd_engine wit_planned) = False"
  by (simp_all add: wit_planned_def chunk_plan_def wit_booked engine_new_def mark_missed_def snapshot_def refresh_def
      mark_one_def last_run_def py_int_def wit_runs wit_fields dict_of_def dict_set_def Let_def first_planned_def)

lemma wit_ring: "(case wit_ring of None \<Rightarrow> 1 | Some r \<Rightarrow> 1 - rat_of_int (0 - fst (rr_bounds r)) / 2) = 1"
  by (simp add: wit_ring_def ring_view_def ring_bounds_def ring_write_def ring_new_def)

lemma wit_env: "sd_refusal wit_env = (\<lambda>_. None)" "sd_clock wit_env = (\<lambda>_. (0, 0))"
  by (simp_all add: wit_env_def)

lemma wit_due:
  "wd_calls wit_due = [WrOpen (''s'', 0) (path_of wit_env wit_spec1) wit_spec1]"
  "eg_active (wd_engine wit_due) = [((''s'', 0), active_new (cutter_new wit_spec1) (path_of wit_env wit_spec1))]"
  "eg_grids_flow (wd_engine wit_due) = False"
  by (simp_all add: wit_due_def start_due_def wit_planned start_due_one_runs [OF wit_entry] wit_runs due_def
      start_run_def wit_fields recording_runs_def MAX_CONCURRENT_RUNS_def dict_set_def Let_def wit_spec1_def wit_env)

lemma wit_spec1: "wit_spec1 = \<lparr>rs_schedule_id = ''s'', rs_run = 0, rs_start_ms = 1000, rs_n_samples = 2, rs_rate_hz = 2,
    rs_center_freq_hz = 100, rs_label = []\<rparr>"
  by (simp add: wit_spec1_def spec_of_def wit_runs wit_fields py_round_def)

lemma wit_feed: "rc_done (fst (cutter_feed [7, 8] 0 1 [] 100 wit_ring (cutter_new wit_spec1))) \<and>
   snd (cutter_feed [7, 8] 0 1 [] 100 wit_ring (cutter_new wit_spec1)) = [IQ [7, 8]]"
  unfolding wit_spec1 wit_ring_def by code_simp

definition wit_world :: world where
  "wit_world = sys_run (\<lambda>_. None) [SyBook (EvAdd wit_sched), SyChunk wit_env [7, 8] 0 1 [] 100 2 wit_ring] (world_new 0 1000 [])"

lemma wit_world_parts: "wit_world = chunk_run wit_env [7, 8] 0 1 [] 100 wit_ring (''s'', 0) wit_due"
proof -
  have "wit_world = on_chunk wit_env [7, 8] 0 1 [] 100 2 wit_ring wit_booked"
    unfolding wit_world_def wit_booked_def sys_run_def by simp
  then show ?thesis
    by (simp add: on_chunk_def wit_planned_def [unfolded chunk_plan_def, symmetric] wit_ring wit_due_def [symmetric] wit_due
        chunk_run_def Let_def)
qed

lemma wit_world: "view (''s'', 0) wit_world = None" "\<not> list_all (bystander (''s'', 0)) (wd_calls wit_world)"
  "\<exists>info. wd_calls wit_world = [WrOpen (''s'', 0) (path_of wit_env wit_spec1) wit_spec1,
     WrOps (''s'', 0) [IQ [7, 8]], WrClose (''s'', 0) info]"
proof -
  obtain c ops where c: "cutter_feed [7, 8] 0 1 [] 100 wit_ring (cutter_new wit_spec1) = (c, ops)" by fastforce
  have d: "rc_done c" "ops = [IQ [7, 8]]" using wit_feed by (simp_all add: c)
  have v: "view (''s'', 0) wit_due = Some (active_new (cutter_new wit_spec1) (path_of wit_env wit_spec1))" by (simp add: wit_due)
  obtain act w1 where f: "feed_run wit_env [7, 8] 0 1 [] 100 wit_ring (''s'', 0) wit_due = put_active (''s'', 0) act w1"
    "wd_calls w1 = wd_calls wit_due @ [WrOps (''s'', 0) ops]" "eg_grids_flow (wd_engine w1) = False" "ac_closing_since act = Some 0"
    "ac_grid_meta act = None"
    using c d v by (simp add: feed_run_def Let_def active_new_def wit_env wit_due(3))
  let ?w = "put_active (''s'', 0) act w1"
  have "wit_world = close_run (''s'', 0) ?w"
    unfolding wit_world_parts chunk_run_def f(1) Let_def
    by (simp add: ready_to_close_def map_of_dict_set f put_active_def on_engine_def)
  moreover have "\<exists>info. wd_calls (close_run (''s'', 0) ?w) = wd_calls ?w @ [WrClose (''s'', 0) info]"
    using f(5) by (simp add: close_run_def map_of_dict_set flush_rows_def ready_rows_def Let_def split: prod.split)
  moreover have "wd_calls ?w = [] @ WrOpen (''s'', 0) (path_of wit_env wit_spec1) wit_spec1 # [WrOps (''s'', 0) ops]"
    "list_all (bystander (''s'', 0)) ([] @ [WrOps (''s'', 0) ops])" "view (''s'', 0) ?w \<noteq> None"
    by (simp_all add: f wit_due bystander_def map_of_dict_set)
  then have "opened (''s'', 0) wit_spec1 (offered (''s'', 0) [WrOps (''s'', 0) ops]) ?w"
    unfolding opened_def by blast
  ultimately show "\<exists>info. wd_calls wit_world = [WrOpen (''s'', 0) (path_of wit_env wit_spec1) wit_spec1,
     WrOps (''s'', 0) [IQ [7, 8]], WrClose (''s'', 0) info]"
    by (simp add: d f wit_due)
  have o: "over (''s'', 0) wit_spec1 (offered (''s'', 0) [WrOps (''s'', 0) ops]) wit_world"
    using close_opened \<open>wit_world = _\<close> \<open>opened _ _ _ _\<close> by metis
  show "view (''s'', 0) wit_world = None" "\<not> list_all (bystander (''s'', 0)) (wd_calls wit_world)"
    using o by (auto simp: over_def bystander_def)
qed

text \<open>The run is recorded from the chunk and closed with it.\<close>

theorem run_recorded_once_witness: "finished {wit_sched} (''s'', 0) [([7, 8], 0, 1, [], 100, 2, wit_ring)] wit_world"
proof -
  let ?evs = "[SyBook (EvAdd wit_sched), SyChunk wit_env [7, 8] 0 1 [] 100 2 wit_ring]"
  have "idle (''s'', 0) wit_world \<or> being_recorded {wit_sched} (''s'', 0) (chunks_of ?evs) wit_world \<or>
      finished {wit_sched} (''s'', 0) (chunks_of ?evs) wit_world"
    using wit_entry run_recorded_once [OF _ wit_world_def, of "(''s'', 0)"] by (simp add: added_def)
  moreover have "\<not> being_recorded {wit_sched} (''s'', 0) (chunks_of ?evs) wit_world"
    using wit_world(1) by (auto simp: being_recorded_def fed_def)
  ultimately show ?thesis using wit_world(2) by (simp add: idle_def chunks_of_def)
qed

end
