(* ===== verification/Psd_Tiers.thy ===== *)
theory Psd_Tiers
  imports Dicts
begin

text \<open>
  \<open>storage/psd_tiers.py\<close> and the storing of its rows (\<open>SensorDatabase._store_tier_rows\<close>,
  \<open>_add_to_tiers\<close>, \<open>close\<close>): averages of averaged windows over periods of 10, 60 and 600
  seconds, kept as running sums and stored as each period ends. Values are exact
  rationals (no rounding to 32 bits); a PSD bin is \<open>None\<close> when it is not finite.
\<close>

section \<open>Rows\<close>

record tuning =
  tn_center :: rat
  tn_rate :: rat
  tn_gain :: "rat option"
  tn_num_bins :: int
  tn_freq_start :: rat
  tn_freq_step :: rat

type_synonym psd = "rat option list"

record tier_row =
  tr_level :: int
  tr_bucket :: int
  tr_tuning :: tuning
  tr_n :: nat
  tr_n_psd :: nat
  tr_sum_avg :: rat
  tr_sum_median :: rat
  tr_sum_std :: rat
  tr_sum_kurtosis :: rat
  tr_max_max :: "rat option"
  tr_min_avg :: "rat option"
  tr_psd_min :: "rat option"
  tr_psd_max :: "rat option"
  tr_psd_sum :: "psd option"

definition tier_new :: "int \<Rightarrow> int \<Rightarrow> tuning \<Rightarrow> tier_row" where
  "tier_new level bucket tn = \<lparr>tr_level = level, tr_bucket = bucket, tr_tuning = tn, tr_n = 0, tr_n_psd = 0,
     tr_sum_avg = 0, tr_sum_median = 0, tr_sum_std = 0, tr_sum_kurtosis = 0, tr_max_max = None, tr_min_avg = None,
     tr_psd_min = None, tr_psd_max = None, tr_psd_sum = None\<rparr>"

definition opt_of :: "(rat \<Rightarrow> rat \<Rightarrow> rat) \<Rightarrow> rat option \<Rightarrow> rat option \<Rightarrow> rat option" where
  "opt_of f a b = (case a of None \<Rightarrow> b | Some x \<Rightarrow> (case b of None \<Rightarrow> a | Some y \<Rightarrow> Some (f x y)))"

fun cell_add :: "rat option \<Rightarrow> rat option \<Rightarrow> rat option" where
  "cell_add (Some x) (Some y) = Some (x + y)"
| "cell_add _ _ = None"

definition psd_add :: "psd \<Rightarrow> psd \<Rightarrow> psd" where
  "psd_add p q = map2 cell_add p q"

definition psd_mean :: "tier_row \<Rightarrow> psd option" where
  "psd_mean r = (case tr_psd_sum r of None \<Rightarrow> None
     | Some s \<Rightarrow> if tr_n_psd r = 0 then None else Some (map (map_option (\<lambda>x. x / of_nat (tr_n_psd r))) s))"

definition tier_merge :: "tier_row \<Rightarrow> tier_row \<Rightarrow> tier_row" where
  "tier_merge a b = a\<lparr>tr_n := tr_n a + tr_n b, tr_n_psd := tr_n_psd a + tr_n_psd b,
     tr_sum_avg := tr_sum_avg a + tr_sum_avg b, tr_sum_median := tr_sum_median a + tr_sum_median b,
     tr_sum_std := tr_sum_std a + tr_sum_std b, tr_sum_kurtosis := tr_sum_kurtosis a + tr_sum_kurtosis b,
     tr_max_max := opt_of max (tr_max_max a) (tr_max_max b), tr_min_avg := opt_of min (tr_min_avg a) (tr_min_avg b),
     tr_psd_min := opt_of min (tr_psd_min a) (tr_psd_min b), tr_psd_max := opt_of max (tr_psd_max a) (tr_psd_max b),
     tr_psd_sum := (case tr_psd_sum b of None \<Rightarrow> tr_psd_sum a
       | Some q \<Rightarrow> (case tr_psd_sum a of None \<Rightarrow> Some q
           | Some p \<Rightarrow> if length p = length q then Some (psd_add p q) else Some p))\<rparr>"

section \<open>The colour range of a window\<close>





section \<open>The accumulator\<close>

record avg_window =
  aw_epoch :: rat
  aw_tuning :: tuning
  aw_avg :: rat
  aw_max :: "rat option"
  aw_median :: rat
  aw_std :: rat
  aw_kurtosis :: rat
  aw_powers :: "psd option"


definition TIER_SECONDS :: "int list" where "TIER_SECONDS = [10, 60, 600]"








section \<open>The stored rows\<close>







text \<open>The writer: a window stored, or the database closed and opened again.\<close>

datatype tier_event = TierWindow avg_window | TierRestart



section \<open>Which tier a range uses\<close>

definition choose_forced :: "rat \<Rightarrow> (int \<times> rat) option" where
  "choose_forced b =
     map_option (\<lambda>level. (level, b))
       (find (\<lambda>level. let ratio = b / of_int level
                in 1 \<le> ratio \<and> \<bar>ratio - of_int (py_round ratio)\<bar> < 1 / 10 ^ 9) (rev (sort TIER_SECONDS)))"

definition bucket_for :: "rat \<Rightarrow> int \<Rightarrow> int" where
  "bucket_for target level = \<lceil>target / of_int level - 1 / 10 ^ 9\<rceil> * level"

definition choose_tier :: "rat \<Rightarrow> nat \<Rightarrow> rat option \<Rightarrow> (int \<times> rat) option" where
  "choose_tier span_sec max_rows forced =
     (if (case forced of None \<Rightarrow> False | Some b \<Rightarrow> 0 < b) then choose_forced (the forced)
      else
        let target = span_sec / of_nat max_rows
        in map_option (\<lambda>level. (level, of_int (bucket_for target level)))
             (find (\<lambda>level. of_int level \<le> target \<and> of_int (bucket_for target level) \<le> 5 / 4 * target)
               (rev (sort TIER_SECONDS))))"

section \<open>Adding windows and merging rows\<close>


definition row_ok :: "nat \<Rightarrow> tier_row \<Rightarrow> bool" where
  "row_ok L r \<longleftrightarrow> (case tr_psd_sum r of None \<Rightarrow> tr_n_psd r = 0 | Some s \<Rightarrow> 0 < tr_n_psd r \<and> length s = L)"

lemma opt_of_None [simp]: "opt_of f a None = a" "opt_of f None b = b"
  by (simp_all add: opt_of_def split: option.split)



lemma length_psd_add [simp]: "length (psd_add p q) = min (length p) (length q)"
  by (simp add: psd_add_def)





lemma row_ok_new [simp]: "row_ok L (tier_new l b tn)"
  by (simp add: row_ok_def tier_new_def)

lemma tier_new_fields [simp]: "tr_level (tier_new l b tn) = l" "tr_bucket (tier_new l b tn) = b" "tr_tuning (tier_new l b tn) = tn"
  by (simp_all add: tier_new_def)



lemma merge_new [simp]: "tier_merge d (tier_new l b tn) = d"
  by (simp add: tier_merge_def tier_new_def)



section \<open>Every period is one row\<close>

type_synonym period = "int \<times> int \<times> tuning"

definition period_of :: "tier_row \<Rightarrow> period" where
  "period_of r = (tr_level r, tr_bucket r, tr_tuning r)"






lemma period_of_merge [simp]: "period_of (tier_merge a b) = period_of a"
  by (simp add: period_of_def tier_merge_def)



























section \<open>The table\<close>


fun windows_of :: "tier_event list \<Rightarrow> avg_window list" where
  "windows_of [] = []"
| "windows_of (TierWindow w # evs) = w # windows_of evs"
| "windows_of (TierRestart # evs) = windows_of evs"

lemma windows_of_append [simp]: "windows_of (a @ b) = windows_of a @ windows_of b"
  by (induction a rule: windows_of.induct) simp_all
















section \<open>What a stored row says\<close>













section \<open>The tier of a range\<close>

text \<open>A multiple of the period is at most a quarter above the target and not below it (but for rounding).\<close>

definition bucket_fits :: "rat \<Rightarrow> int \<Rightarrow> rat \<Rightarrow> bool" where
  "bucket_fits target level b \<longleftrightarrow> (\<exists>k. b = of_int (k * level)) \<and> target - of_int level / 10 ^ 9 \<le> b \<and> b \<le> 5 / 4 * target"

lemma bucket_for_least:
  assumes "0 < level"
  shows "target - of_int level / 10 ^ 9 \<le> of_int (bucket_for target level)"
    and "target - of_int level / 10 ^ 9 \<le> of_int (k * level) \<Longrightarrow> bucket_for target level \<le> k * level"
proof -
  have l: "(0 :: rat) < of_int level" using assms by simp
  let ?x = "target / of_int level - 1 / 10 ^ 9"
  have x: "?x * of_int level = target - of_int level / 10 ^ 9" using l by (simp add: left_diff_distrib)
  have "?x * of_int level \<le> of_int \<lceil>?x\<rceil> * of_int level" using l by (intro mult_right_mono) simp_all
  then show "target - of_int level / 10 ^ 9 \<le> of_int (bucket_for target level)" unfolding x bucket_for_def of_int_mult .
  assume "target - of_int level / 10 ^ 9 \<le> of_int (k * level)"
  then have "?x * of_int level \<le> of_int k * of_int level" unfolding x of_int_mult .
  then have "?x \<le> of_int k" using l by simp
  then have "\<lceil>?x\<rceil> \<le> k" by (simp add: ceiling_le_iff)
  then show "bucket_for target level \<le> k * level" using assms by (simp add: bucket_for_def mult_right_mono)
qed

lemma bucket_for_fits: "0 < level \<Longrightarrow> (\<exists>b. bucket_fits target level b) \<longleftrightarrow> of_int (bucket_for target level) \<le> 5 / 4 * target"
proof
  assume l: "0 < level" and "\<exists>b. bucket_fits target level b"
  then obtain k where k: "target - of_int level / 10 ^ 9 \<le> of_int (k * level)" "of_int (k * level) \<le> 5 / 4 * target"
    by (auto simp: bucket_fits_def)
  have "(of_int (bucket_for target level) :: rat) \<le> of_int (k * level)" using bucket_for_least(2) [OF l k(1)] by (simp only: of_int_le_iff)
  then show "of_int (bucket_for target level) \<le> 5 / 4 * target" using k(2) by linarith
next
  assume "0 < level" "of_int (bucket_for target level) \<le> 5 / 4 * target"
  then show "\<exists>b. bucket_fits target level b"
    using bucket_for_least(1) [of level target] unfolding bucket_fits_def bucket_for_def by blast
qed

lemma find_first: "find P xs = Some x \<Longrightarrow> sorted_wrt (\<lambda>a b. b < a) xs \<Longrightarrow> x \<in> set xs \<and> P x \<and> (\<forall>y \<in> set xs. x < (y :: int) \<longrightarrow> \<not> P y)"
  by (induction xs) (auto split: if_splits)

lemma find_tier:
  "case find P (rev (sort TIER_SECONDS)) of None \<Rightarrow> \<forall>l \<in> set TIER_SECONDS. \<not> P l
   | Some l \<Rightarrow> l \<in> set TIER_SECONDS \<and> P l \<and> (\<forall>l' \<in> set TIER_SECONDS. l < l' \<longrightarrow> \<not> P l')"
proof -
  have s: "rev (sort TIER_SECONDS) = [600, 60, 10]" "set TIER_SECONDS = set [600, 60, 10]" by (auto simp: TIER_SECONDS_def)
  have "sorted_wrt (\<lambda>a b. b < a) [600, 60, 10 :: int]" by simp
  then show ?thesis unfolding s
  proof (cases "find P [600, 60, 10]")
    case None
    then have "\<forall>l \<in> set [600, 60, 10]. \<not> P l" unfolding find_None_iff by blast
    then show "case find P [600, 60, 10] of None \<Rightarrow> \<forall>l \<in> set [600, 60, 10]. \<not> P l
   | Some l \<Rightarrow> l \<in> set [600, 60, 10] \<and> P l \<and> (\<forall>l' \<in> set [600, 60, 10]. l < l' \<longrightarrow> \<not> P l')" unfolding None option.case .
  next
    case (Some l)
    assume d: "sorted_wrt (\<lambda>a b. b < a) [600, 60, 10 :: int]"
    show "case find P [600, 60, 10] of None \<Rightarrow> \<forall>l \<in> set [600, 60, 10]. \<not> P l
   | Some l \<Rightarrow> l \<in> set [600, 60, 10] \<and> P l \<and> (\<forall>l' \<in> set [600, 60, 10]. l < l' \<longrightarrow> \<not> P l')"
      unfolding Some option.case by (rule find_first [OF Some d])
  qed
qed

text \<open>
  A long range uses the coarsest tier that serves it. The tier chosen for a range has a period of at most the
  ideal bucket (the range divided by the rows asked for), the display bucket is a multiple
  of it, at most a quarter above the ideal one and not below it (but for one part in
  $10^9$ of the period); no coarser tier has such a multiple, and windows are read only when none has.
\<close>

theorem choose_tier_coarsest:
  assumes "0 < max_rows" and target: "target = span_sec / of_nat max_rows"
  shows "case choose_tier span_sec max_rows None of
      None \<Rightarrow> \<forall>l \<in> set TIER_SECONDS. of_int l \<le> target \<longrightarrow> (\<nexists>b. bucket_fits target l b)
    | Some (l, b) \<Rightarrow> l \<in> set TIER_SECONDS \<and> of_int l \<le> target \<and> bucket_fits target l b \<and>
        (\<forall>l' \<in> set TIER_SECONDS. l < l' \<and> of_int l' \<le> target \<longrightarrow> (\<nexists>b. bucket_fits target l' b))"
proof -
  let ?P = "\<lambda>level. of_int level \<le> target \<and> of_int (bucket_for target level) \<le> 5 / 4 * target"
  let ?f = "find ?P (rev (sort TIER_SECONDS))"
  have c: "choose_tier span_sec max_rows None = map_option (\<lambda>level. (level, of_int (bucket_for target level))) ?f"
    by (simp only: choose_tier_def option.case if_False Let_def target)
  have pos: "0 < l" if "l \<in> set TIER_SECONDS" for l using that by (auto simp: TIER_SECONDS_def)
  have P: "?P l \<longleftrightarrow> of_int l \<le> target \<and> (\<exists>b. bucket_fits target l b)" if "l \<in> set TIER_SECONDS" for l
    using bucket_for_fits [OF pos [OF that], of target] by blast
  note f = find_tier [of ?P]
  show ?thesis
  proof (cases ?f)
    case None
    then have "\<forall>l \<in> set TIER_SECONDS. \<not> ?P l" using f by simp
    then show ?thesis using P unfolding c None option.map option.case by blast
  next
    case (Some l)
    then have l: "l \<in> set TIER_SECONDS" "?P l" "\<forall>l' \<in> set TIER_SECONDS. l < l' \<longrightarrow> \<not> ?P l'" using f by simp_all
    have "bucket_fits target l (of_int (bucket_for target l))"
      using bucket_for_least(1) [OF pos [OF l(1)], of target] l(2) unfolding bucket_fits_def bucket_for_def by blast
    moreover have "\<forall>l' \<in> set TIER_SECONDS. l < l' \<and> of_int l' \<le> target \<longrightarrow> (\<nexists>b. bucket_fits target l' b)"
      using l(3) P by blast
    ultimately show ?thesis using l(1,2) unfolding c Some option.map option.case prod.case by blast
  qed
qed

text \<open>
  Merging rows whose PSDs have different numbers of bins adds the count of the second
  but not its PSD, so the mean that is stored is too small.
\<close>

lemma merge_keeps_count:
  assumes "tr_psd_sum a = Some p" "tr_psd_sum b = Some q" "length p \<noteq> length q" "0 < tr_n_psd a"
  shows "psd_mean (tier_merge a b) = Some (map (map_option (\<lambda>x. x / of_nat (tr_n_psd a + tr_n_psd b))) p)"
  using assms by (simp add: psd_mean_def tier_merge_def)




theorem choose_tier_coarsest_witness:
  "choose_tier 86400 1024 None = Some (10, 90) \<and> bucket_fits (675 / 8) 10 90"
proof -
  have "\<lceil>8437499999 / 1000000000 :: rat\<rceil> = 9" "\<lceil>1406249999 / 1000000000 :: rat\<rceil> = 2" by (simp_all add: ceiling_eq_iff)
  then have c: "choose_tier 86400 1024 None = Some (10, 90)"
    by (simp add: choose_tier_def TIER_SECONDS_def bucket_for_def Let_def)
  then show ?thesis using choose_tier_coarsest [of 1024 "675 / 8" 86400] by simp
qed

end
