(* ===== verification/Isolation.thy ===== *)
theory Isolation
  imports Burst Ring_Buffer
begin

text \<open>
  \<open>pipeline/isolation.py\<close> with the read ranges of \<open>processing/isolate.py\<close>: detected
  bursts are gated, their samples are copied from the ring while it is being written,
  each is shifted to baseband and handed on. The stage is a queue between the burst
  thread, a worker thread and the thread that stops it. Samples are the packed integers
  of the ring; the channelizer (\<open>processing/channelize.py\<close>, FFTs of numpy and scipy),
  the archive, the modules and the attribution queue are arguments of the model. Times
  and rates are exact rationals.
\<close>

section \<open>Bursts and the samples they need\<close>

record burst_candidate =
  cd_id :: string
  cd_burst :: fingerprint
  cd_snr_db :: rat

record burst_range =
  br_start :: int
  br_stop :: int
  br_truncated :: bool

definition br_num_samples :: "burst_range \<Rightarrow> int" where "br_num_samples r = br_stop r - br_start r"

definition GUARD_SEC :: rat where "GUARD_SEC = 2 / 1000"

definition burst_read_range :: "fingerprint \<Rightarrow> rat \<Rightarrow> rat \<Rightarrow> burst_range option" where
  "burst_read_range b rate max_burst_sec =
     (case (fp_start_sample b, fp_stop_sample b) of
        (Some s, Some e) \<Rightarrow>
          let guard = py_int (GUARD_SEC * rate); max_n = py_int (max_burst_sec * rate);
              truncated = max_n < e - s;
              e = (if truncated then s + max_n else e)
          in Some \<lparr>br_start = max 0 (s - guard), br_stop = e + guard, br_truncated = truncated\<rparr>
      | _ \<Rightarrow> None)"

datatype iso_source = FromRing | WholeCapture "int list"

record iso_batch =
  ib_candidates :: "burst_candidate list"
  ib_center_freq_hz :: rat
  ib_sample_rate_hz :: rat
  ib_source :: iso_source

definition is_whole :: "iso_batch \<Rightarrow> bool" where
  "is_whole b \<longleftrightarrow> (case ib_source b of FromRing \<Rightarrow> False | WholeCapture _ \<Rightarrow> True)"

section \<open>Isolating a burst\<close>

definition TIER_BANDWIDTH_HZ :: rat where "TIER_BANDWIDTH_HZ = 200000"

definition select_rate_and_protocols :: "rat \<Rightarrow> int \<times> string list list" where
  "select_rate_and_protocols bandwidth_hz =
     (if TIER_BANDWIDTH_HZ \<le> bandwidth_hz
      then (1600000, [[''-R'', ''383''], [''-X'', ''n=ssnmesh-like,m=FSK_PCM,s=16,l=16,r=8000'']])
      else (1000000, [[]]))"

record isolated =
  is_burst_id :: string
  is_cs16 :: "int list"
  is_rate_hz :: int
  is_passes :: "string list list"
  is_freq_hz :: rat
  is_start_sample :: "int option"
  is_num_source_samples :: nat
  is_truncated :: bool

text \<open>The channelizer: samples, rate, offset and target rate; \<open>None\<close> if it raises.\<close>

type_synonym channelizer = "int list \<Rightarrow> rat \<Rightarrow> rat \<Rightarrow> int \<Rightarrow> int list option"

definition isolate_samples ::
  "channelizer \<Rightarrow> burst_candidate \<Rightarrow> int list \<Rightarrow> int option \<Rightarrow> bool \<Rightarrow> rat \<Rightarrow> rat \<Rightarrow> isolated option" where
  "isolate_samples channelize cand data start_sample truncated rate center =
     (let b = cd_burst cand; (target, passes) = select_rate_and_protocols (fp_bandwidth_hz b)
      in map_option (\<lambda>cs16. \<lparr>is_burst_id = cd_id cand, is_cs16 = cs16, is_rate_hz = target, is_passes = passes,
           is_freq_hz = fp_peak_freq_hz b, is_start_sample = start_sample, is_num_source_samples = length data,
           is_truncated = truncated\<rparr>)
         (channelize data rate (fp_peak_freq_hz b - center) target))"

text \<open>What a burst is handed on with.\<close>

record iso_meta =
  im_burst_id :: string
  im_freq_hz :: rat
  im_freq_low_hz :: rat
  im_freq_high_hz :: rat
  im_start_time_ms :: rat
  im_stop_time_ms :: rat
  im_snr_db :: rat

definition meta_of :: "burst_candidate \<Rightarrow> isolated \<Rightarrow> iso_meta" where
  "meta_of cand isob = (let b = cd_burst cand in
     \<lparr>im_burst_id = cd_id cand, im_freq_hz = is_freq_hz isob,
      im_freq_low_hz = fp_center_freq_hz b - fp_bandwidth_hz b / 2,
      im_freq_high_hz = fp_center_freq_hz b + fp_bandwidth_hz b / 2,
      im_start_time_ms = fp_start_time b * 1000, im_stop_time_ms = fp_stop_time b * 1000,
      im_snr_db = of_int (py_round (cd_snr_db cand * 10)) / 10\<rparr>)"

datatype fan_out = Archived isolated iso_meta | ModuleFed isolated iso_meta | HandedOver isolated iso_meta

text \<open>
  The surroundings: the reads of the ring by their number (what it shows then, and
  whether reading raises), the channelizer, and for each consumer whether it is there
  and whether it takes a burst without raising.
\<close>

record iso_env =
  ie_view :: "nat \<Rightarrow> int ring_reader"
  ie_raises :: "nat \<Rightarrow> bool"
  ie_channelize :: channelizer
  ie_archive :: "(string \<Rightarrow> bool) option"
  ie_refuse_saving :: "string \<Rightarrow> bool"
  ie_module_feed :: "(string \<Rightarrow> bool) option"
  ie_handoff :: "(string \<Rightarrow> bool) option"

record iso_settings =
  iz_snr_db :: rat
  iz_max_per_sec :: int
  iz_max_burst_sec :: rat
  iz_queue_max :: int

section \<open>Counting\<close>

type_synonym iso_stats = "string \<Rightarrow> int"

definition stat_count :: "string \<Rightarrow> int \<Rightarrow> iso_stats \<Rightarrow> iso_stats" where
  "stat_count name n st = st(name := st name + n)"

section \<open>The gate\<close>

definition strongest_first :: "burst_candidate list \<Rightarrow> burst_candidate list" where
  "strongest_first = sort_key (\<lambda>c. - cd_snr_db c)"

record gate =
  ga_window_start :: rat
  ga_window_count :: int

definition gate_new :: gate where
  "gate_new = \<lparr>ga_window_start = - (10 ^ 18), ga_window_count = 0\<rparr>"

definition gate_now :: "burst_candidate list \<Rightarrow> rat \<Rightarrow> rat \<Rightarrow> rat" where
  "gate_now cands rate clock =
     (let stops = List.map_filter (\<lambda>c. fp_stop_sample (cd_burst c)) cands
      in if stops \<noteq> [] \<and> 0 < rate then of_int (list_max stops) / rate else clock)"

definition gate_pick ::
  "iso_settings \<Rightarrow> rat \<Rightarrow> burst_candidate list \<Rightarrow> rat \<Rightarrow> gate \<times> iso_stats \<Rightarrow> burst_candidate list \<times> gate \<times> iso_stats" where
  "gate_pick s clock cands rate = (\<lambda>(g, st).
     let passed = strongest_first (filter (\<lambda>c. iz_snr_db s \<le> cd_snr_db c) cands);
         now = gate_now cands rate clock;
         g = (if now < ga_window_start g \<or> 1 \<le> now - ga_window_start g
              then \<lparr>ga_window_start = now, ga_window_count = 0\<rparr> else g);
         picked = take (nat (max 0 (iz_max_per_sec s - ga_window_count g))) passed;
         g = g\<lparr>ga_window_count := ga_window_count g + int (length picked)\<rparr>;
         st = (if picked = [] then st else stat_count ''picked'' (int (length picked)) st);
         gated_out = int (length cands) - int (length picked);
         st = (if gated_out = 0 then st else stat_count ''gated_out'' gated_out st)
     in (picked, g, st))"

section \<open>Reading the samples\<close>

record work =
  wk_cand :: burst_candidate
  wk_rng :: "burst_range option"
  wk_data :: "int list option"
  wk_snapped :: bool
  wk_read_failed :: bool
  wk_bounds :: "(int \<times> int) option"

definition work_new :: "burst_candidate \<Rightarrow> burst_range option \<Rightarrow> work" where
  "work_new cand rng = \<lparr>wk_cand = cand, wk_rng = rng, wk_data = None, wk_snapped = False, wk_read_failed = False,
     wk_bounds = None\<rparr>"

definition SNAPSHOT_MAX_BYTES :: int where "SNAPSHOT_MAX_BYTES = 256 * 1024 * 1024"
definition RING_ITEMSIZE :: int where "RING_ITEMSIZE = 4"

text \<open>Access number \<open>n\<close> is the read, the next one the bounds that explain a failed read.\<close>

definition read_ring :: "iso_env \<Rightarrow> burst_range \<Rightarrow> work \<Rightarrow> nat \<Rightarrow> work \<times> nat" where
  "read_ring env r work n =
     (if ie_raises env n then (work\<lparr>wk_read_failed := True\<rparr>, Suc n)
      else case rr_read_range (ie_view env n) (br_start r) (br_stop r) of
        Some d \<Rightarrow> (work\<lparr>wk_data := Some d\<rparr>, Suc n)
      | None \<Rightarrow> if ie_raises env (Suc n) then (work\<lparr>wk_read_failed := True\<rparr>, Suc (Suc n))
                else (work\<lparr>wk_bounds := Some (rr_bounds (ie_view env (Suc n)))\<rparr>, Suc (Suc n)))"

fun snapshot_loop ::
  "iso_env \<Rightarrow> iso_settings \<Rightarrow> iso_batch \<Rightarrow> burst_candidate list \<Rightarrow> int \<Rightarrow> nat \<Rightarrow> work list \<Rightarrow> work list \<Rightarrow> work list \<times> nat" where
  "snapshot_loop env s batch [] used n lazy snapped = (lazy @ snapped, n)"
| "snapshot_loop env s batch (cand # cands) used n lazy snapped =
     (let rng = burst_read_range (cd_burst cand) (ib_sample_rate_hz batch) (iz_max_burst_sec s);
          work = work_new cand rng
      in case rng of
           None \<Rightarrow> snapshot_loop env s batch cands used n (lazy @ [work]) snapped
         | Some r \<Rightarrow>
             if is_whole batch then snapshot_loop env s batch cands used n (lazy @ [work]) snapped
             else
               let nbytes = br_num_samples r * RING_ITEMSIZE
               in if SNAPSHOT_MAX_BYTES < used + nbytes
                  then snapshot_loop env s batch cands used n (lazy @ [work]) snapped
                  else
                    let (work, n) = read_ring env r (work\<lparr>wk_snapped := True\<rparr>) n
                    in snapshot_loop env s batch cands (used + nbytes) n lazy (snapped @ [work]))"

definition snapshot_batch :: "iso_env \<Rightarrow> iso_settings \<Rightarrow> burst_candidate list \<Rightarrow> iso_batch \<Rightarrow> nat \<Rightarrow> work list \<times> nat" where
  "snapshot_batch env s picked batch n = snapshot_loop env s batch picked 0 n [] []"

text \<open>The lazy read just before the burst's own isolation; \<open>wk_read_failed\<close> when it raises.\<close>

definition read_work :: "iso_env \<Rightarrow> iso_batch \<Rightarrow> work \<Rightarrow> nat \<Rightarrow> work \<times> nat" where
  "read_work env batch work n =
     (if wk_snapped work then (work, n)
      else case wk_rng work of
        Some r \<Rightarrow> (case ib_source batch of
            FromRing \<Rightarrow> read_ring env r work n
          | WholeCapture iq \<Rightarrow> (work\<lparr>wk_data := None\<rparr>, n))
      | None \<Rightarrow> (case ib_source batch of
            FromRing \<Rightarrow> (work\<lparr>wk_data := None\<rparr>, n)
          | WholeCapture iq \<Rightarrow> (work\<lparr>wk_data := Some iq\<rparr>, n)))"

section \<open>One burst\<close>

text \<open>Why a burst of the ring has no samples; \<open>None\<close> if the age cannot be computed (a rate of 0).\<close>

definition expiry_reason :: "iso_batch \<Rightarrow> work \<Rightarrow> int \<times> int \<Rightarrow> string option" where
  "expiry_reason batch work now_bounds =
     (case wk_rng work of
        None \<Rightarrow> Some ''nopos''
      | Some r \<Rightarrow>
          let (oldest, total) = (case wk_bounds work of Some b \<Rightarrow> b | None \<Rightarrow> now_bounds)
          in if ib_sample_rate_hz batch = 0 then None
             else Some (if br_start r < oldest then ''overwritten'' else ''unwritten''))"

definition expired_burst :: "iso_env \<Rightarrow> iso_batch \<Rightarrow> work \<Rightarrow> nat \<Rightarrow> iso_stats \<Rightarrow> string \<times> iso_stats" where
  "expired_burst env batch work n st =
     (if is_whole batch then (''iq_expired'', st)
      else case expiry_reason batch work (rr_bounds (ie_view env n)) of
        None \<Rightarrow> (''error'', st)
      | Some reason \<Rightarrow> (''iq_expired'', stat_count (''iq_expired_'' @ reason) 1 st))"

text \<open>A consumer that raises is counted; the others still get the burst.\<close>

definition deliver ::
  "(string \<Rightarrow> bool) option \<Rightarrow> string \<Rightarrow> string \<Rightarrow> fan_out \<Rightarrow> iso_stats \<times> fan_out list \<Rightarrow> iso_stats \<times> fan_out list" where
  "deliver consumer err burst_id out = (\<lambda>(st, outs). case consumer of
     None \<Rightarrow> (st, outs)
   | Some ok \<Rightarrow> if ok burst_id then (st, outs @ [out]) else (stat_count err 1 st, outs))"

definition fan :: "iso_env \<Rightarrow> burst_candidate \<Rightarrow> isolated \<Rightarrow> iso_stats \<times> fan_out list \<Rightarrow> iso_stats \<times> fan_out list" where
  "fan env cand isob acc =
     (let meta = meta_of cand isob; i = cd_id cand
      in deliver (ie_handoff env) ''handoff_error'' i (HandedOver isob meta)
           (deliver (ie_module_feed env) ''module_error'' i (ModuleFed isob meta)
             (if ie_refuse_saving env i then acc
              else deliver (ie_archive env) ''archive_error'' i (Archived isob meta) acc)))"

definition one_burst ::
  "iso_env \<Rightarrow> iso_batch \<Rightarrow> work \<Rightarrow> nat \<Rightarrow> iso_stats \<times> fan_out list \<Rightarrow> string \<times> nat \<times> iso_stats \<times> fan_out list" where
  "one_burst env batch work n = (\<lambda>(st, outs).
     if wk_read_failed work then (''error'', n, st, outs)
     else
       let (work, n) = read_work env batch work n
       in if wk_read_failed work then (''error'', n, st, outs)
          else case wk_data work of
            None \<Rightarrow> (case expired_burst env batch work n st of (state, st) \<Rightarrow> (state, Suc n, st, outs))
          | Some [] \<Rightarrow> (case expired_burst env batch work n st of (state, st) \<Rightarrow> (state, Suc n, st, outs))
          | Some d \<Rightarrow>
              (case isolate_samples (ie_channelize env) (wk_cand work) d (map_option br_start (wk_rng work))
                      (case wk_rng work of None \<Rightarrow> False | Some r \<Rightarrow> br_truncated r)
                      (ib_sample_rate_hz batch) (ib_center_freq_hz batch) of
                 None \<Rightarrow> (''error'', n, st, outs)
               | Some isob \<Rightarrow> (if is_truncated isob then ''too_long'' else ''isolated'', n,
                               fan env (wk_cand work) isob (st, outs))))"

record iso_worker =
  iw_gate :: gate
  iw_stats :: iso_stats
  iw_access :: nat
  iw_outs :: "fan_out list"
  iw_results :: "(string \<times> string) list"

definition process_one :: "iso_env \<Rightarrow> iso_batch \<Rightarrow> work \<Rightarrow> iso_worker \<Rightarrow> iso_worker" where
  "process_one env batch work w =
     (let (state, n, st, outs) = one_burst env batch work (iw_access w) (iw_stats w, iw_outs w)
      in w\<lparr>iw_stats := stat_count state 1 st, iw_access := n, iw_outs := outs,
           iw_results := iw_results w @ [(cd_id (wk_cand work), state)]\<rparr>)"

definition process_batch :: "iso_env \<Rightarrow> iso_settings \<Rightarrow> rat \<Rightarrow> iso_batch \<Rightarrow> iso_worker \<Rightarrow> iso_worker" where
  "process_batch env s clock batch w =
     (let (picked, g, st) = gate_pick s clock (ib_candidates batch) (ib_sample_rate_hz batch) (iw_gate w, iw_stats w);
          (works, n) = snapshot_batch env s picked batch (iw_access w)
      in fold (process_one env batch) works (w\<lparr>iw_gate := g, iw_stats := st, iw_access := n\<rparr>))"

section \<open>The stage\<close>

datatype qitem = QBatch iso_batch | QStop

text \<open>Where the worker thread is, and the thread that stops the stage.\<close>

datatype worker_at = WNone | WCheck | WGet | WBatch iso_batch | WRelease iso_batch | WDrain | WDrop iso_batch | WEnded
datatype stopper_at = SIdle | SDrain | SDrop iso_batch | SPut | SJoin | SFinal | SFinalDrop iso_batch

record stage =
  sg_queue :: "qitem list"
  sg_thread :: bool
  sg_stop :: bool
  sg_whole_pending :: int
  sg_worker :: worker_at
  sg_stopper :: stopper_at
  sg_work :: iso_worker

definition worker_new :: iso_worker where
  "worker_new = \<lparr>iw_gate = gate_new, iw_stats = (\<lambda>_. 0), iw_access = 0, iw_outs = [], iw_results = []\<rparr>"

definition stage_new :: stage where
  "stage_new = \<lparr>sg_queue = [], sg_thread = False, sg_stop = False, sg_whole_pending = 0, sg_worker = WNone,
     sg_stopper = SIdle, sg_work = worker_new\<rparr>"

definition MAX_WHOLE_CAPTURE_BATCHES :: int where "MAX_WHOLE_CAPTURE_BATCHES = 2"

definition counted_in :: "string \<Rightarrow> int \<Rightarrow> stage \<Rightarrow> stage" where
  "counted_in name n sg = sg\<lparr>sg_work := (sg_work sg)\<lparr>iw_stats := stat_count name n (iw_stats (sg_work sg))\<rparr>\<rparr>"

definition queue_full :: "iso_settings \<Rightarrow> stage \<Rightarrow> bool" where
  "queue_full s sg \<longleftrightarrow> max 1 (iz_queue_max s) \<le> int (length (sg_queue sg))"

definition submit :: "iso_settings \<Rightarrow> iso_batch \<Rightarrow> stage \<Rightarrow> bool \<times> stage" where
  "submit s batch sg =
     (let n = int (length (ib_candidates batch)); sg = counted_in ''received'' n sg
      in if sg_stop sg then (False, counted_in ''queue_full'' n sg)
         else if is_whole batch \<and> MAX_WHOLE_CAPTURE_BATCHES \<le> sg_whole_pending sg
         then (False, counted_in ''queue_full'' n sg)
         else if queue_full s sg then (False, counted_in ''queue_full'' n sg)
         else (True, sg\<lparr>sg_queue := sg_queue sg @ [QBatch batch],
           sg_whole_pending := sg_whole_pending sg + (if is_whole batch then 1 else 0)\<rparr>))"

definition release_batch :: "iso_batch \<Rightarrow> stage \<Rightarrow> stage" where
  "release_batch batch sg = (if is_whole batch then sg\<lparr>sg_whole_pending := sg_whole_pending sg - 1\<rparr> else sg)"

definition drop_batch :: "iso_batch \<Rightarrow> stage \<Rightarrow> stage" where
  "drop_batch batch sg = counted_in ''queue_full'' (int (length (ib_candidates batch))) (release_batch batch sg)"

definition worker_alive :: "stage \<Rightarrow> bool" where
  "worker_alive sg \<longleftrightarrow> sg_worker sg \<noteq> WNone \<and> sg_worker sg \<noteq> WEnded"

definition stage_start :: "stage \<Rightarrow> stage" where
  "stage_start sg = (if sg_thread sg \<and> worker_alive sg then sg
     else sg\<lparr>sg_stop := False, sg_thread := True, sg_worker := WCheck\<rparr>)"

text \<open>A step of the worker thread; a blocking \<open>get\<close> on an empty queue waits.\<close>

definition worker_step :: "iso_env \<Rightarrow> iso_settings \<Rightarrow> rat \<Rightarrow> stage \<Rightarrow> stage" where
  "worker_step env s clock sg = (case sg_worker sg of
     WNone \<Rightarrow> sg
   | WCheck \<Rightarrow> sg\<lparr>sg_worker := (if sg_stop sg then WDrain else WGet)\<rparr>
   | WGet \<Rightarrow> (case sg_queue sg of
        [] \<Rightarrow> sg
      | QStop # q \<Rightarrow> sg\<lparr>sg_queue := q, sg_worker := WDrain\<rparr>
      | QBatch b # q \<Rightarrow> sg\<lparr>sg_queue := q, sg_worker := WBatch b\<rparr>)
   | WBatch b \<Rightarrow> sg\<lparr>sg_work := process_batch env s clock b (sg_work sg), sg_worker := WRelease b\<rparr>
   | WRelease b \<Rightarrow> (release_batch b sg)\<lparr>sg_worker := WCheck\<rparr>
   | WDrain \<Rightarrow> (case sg_queue sg of
        [] \<Rightarrow> sg\<lparr>sg_worker := WEnded\<rparr>
      | QStop # q \<Rightarrow> sg\<lparr>sg_queue := q\<rparr>
      | QBatch b # q \<Rightarrow> sg\<lparr>sg_queue := q, sg_worker := WDrop b\<rparr>)
   | WDrop b \<Rightarrow> (drop_batch b sg)\<lparr>sg_worker := WDrain\<rparr>
   | WEnded \<Rightarrow> sg)"

text \<open>A step of the thread in \<open>stop\<close>; the join ends with the worker or after its timeout.\<close>

definition stopper_step :: "iso_settings \<Rightarrow> bool \<Rightarrow> stage \<Rightarrow> stage" where
  "stopper_step s timed_out sg = (case sg_stopper sg of
     SIdle \<Rightarrow> sg
   | SDrain \<Rightarrow> (case sg_queue sg of
        [] \<Rightarrow> sg\<lparr>sg_stopper := SPut\<rparr>
      | QStop # q \<Rightarrow> sg\<lparr>sg_queue := q\<rparr>
      | QBatch b # q \<Rightarrow> sg\<lparr>sg_queue := q, sg_stopper := SDrop b\<rparr>)
   | SDrop b \<Rightarrow> (drop_batch b sg)\<lparr>sg_stopper := SDrain\<rparr>
   | SPut \<Rightarrow> sg\<lparr>sg_queue := (if queue_full s sg then sg_queue sg else sg_queue sg @ [QStop]), sg_stopper := SJoin\<rparr>
   | SJoin \<Rightarrow> (if \<not> worker_alive sg then sg\<lparr>sg_thread := False, sg_stopper := SFinal\<rparr>
               else if timed_out then sg\<lparr>sg_stopper := SIdle\<rparr> else sg)
   | SFinal \<Rightarrow> (case sg_queue sg of
        [] \<Rightarrow> sg\<lparr>sg_stopper := SIdle\<rparr>
      | QStop # q \<Rightarrow> sg\<lparr>sg_queue := q\<rparr>
      | QBatch b # q \<Rightarrow> sg\<lparr>sg_queue := q, sg_stopper := SFinalDrop b\<rparr>)
   | SFinalDrop b \<Rightarrow> (drop_batch b sg)\<lparr>sg_stopper := SFinal\<rparr>)"

definition stage_stop :: "stage \<Rightarrow> stage" where
  "stage_stop sg = (if sg_thread sg then sg\<lparr>sg_stop := True, sg_stopper := SDrain\<rparr> else sg)"

text \<open>\<open>start\<close> and \<open>stop\<close> are called from one thread, one after the other.\<close>

datatype stage_event = IsSubmit iso_batch | IsStart | IsStop | IsWorker rat | IsStopper bool

fun stage_do :: "iso_env \<Rightarrow> iso_settings \<Rightarrow> stage_event \<Rightarrow> stage \<Rightarrow> stage" where
  "stage_do env s (IsSubmit b) sg = snd (submit s b sg)"
| "stage_do env s IsStart sg = (if sg_stopper sg = SIdle then stage_start sg else sg)"
| "stage_do env s IsStop sg = (if sg_stopper sg = SIdle then stage_stop sg else sg)"
| "stage_do env s (IsWorker clock) sg = worker_step env s clock sg"
| "stage_do env s (IsStopper timed_out) sg = stopper_step s timed_out sg"

definition stage_run :: "iso_env \<Rightarrow> iso_settings \<Rightarrow> stage_event list \<Rightarrow> stage \<Rightarrow> stage" where
  "stage_run env s evs sg = fold (stage_do env s) evs sg"

section \<open>Every picked burst ends in one state\<close>

definition END_STATES :: "string list" where
  "END_STATES = [''isolated'', ''iq_expired'', ''too_long'', ''error'']"

definition MAIN_COUNTS :: "string list" where
  "MAIN_COUNTS = [''received'', ''queue_full'', ''picked'', ''gated_out''] @ END_STATES"

text \<open>The counts beside the main ones (reasons of expiry, failed consumers) leave those alone.\<close>

definition same_main :: "iso_stats \<Rightarrow> iso_stats \<Rightarrow> bool" where
  "same_main st st' \<longleftrightarrow> (\<forall>name \<in> set MAIN_COUNTS. st' name = st name)"

lemma same_main_refl [simp]: "same_main st st"
  by (simp add: same_main_def)

lemma same_main_trans: "same_main a b \<Longrightarrow> same_main b c \<Longrightarrow> same_main a c"
  by (simp add: same_main_def)

lemma same_main_other: "name \<notin> set MAIN_COUNTS \<Longrightarrow> same_main st (stat_count name n st)"
  by (auto simp: same_main_def stat_count_def)

lemma expiry_reasons: "expiry_reason batch work nb = Some reason \<Longrightarrow> reason \<in> {''nopos'', ''overwritten'', ''unwritten''}"
  by (auto simp: expiry_reason_def Let_def split: option.splits prod.splits if_splits)

lemma expired_same:
  assumes "expired_burst env batch work n st = (state, st')"
  shows "state \<in> set END_STATES \<and> same_main st st'"
proof -
  have "same_main st (stat_count (''iq_expired_'' @ reason) 1 st)" if "reason \<in> {''nopos'', ''overwritten'', ''unwritten''}" for reason
    using that by (intro same_main_other) (auto simp: MAIN_COUNTS_def END_STATES_def)
  then show ?thesis
    using assms expiry_reasons [of batch work "rr_bounds (ie_view env n)"]
    by (auto simp: expired_burst_def END_STATES_def split: if_splits option.splits)
qed

lemma deliver_same:
  assumes "err \<notin> set MAIN_COUNTS" shows "same_main (fst acc) (fst (deliver c err i out acc))"
  using same_main_other [OF assms, of "fst acc" 1] by (cases acc) (simp add: deliver_def split: option.split)

lemma fan_same: "same_main (fst acc) (fst (fan env cand i acc))"
proof -
  have e: "''handoff_error'' \<notin> set MAIN_COUNTS" "''module_error'' \<notin> set MAIN_COUNTS" "''archive_error'' \<notin> set MAIN_COUNTS"
    by (simp_all add: MAIN_COUNTS_def END_STATES_def)
  have a: "same_main (fst acc) (fst (if ie_refuse_saving env (cd_id cand) then acc
      else deliver (ie_archive env) ''archive_error'' (cd_id cand) (Archived i m) acc))" for m
    using deliver_same [OF e(3)] by simp
  show ?thesis
    unfolding fan_def Let_def
    by (rule same_main_trans [OF same_main_trans [OF a deliver_same [OF e(2)]] deliver_same [OF e(1)]])
qed

lemma one_burst_same:
  assumes "one_burst env batch work n (st, outs) = (state, n', st', outs')"
  shows "state \<in> set END_STATES \<and> same_main st st'"
proof -
  have err: "''error'' \<in> set END_STATES" by (simp add: END_STATES_def)
  obtain work' m where r: "read_work env batch work n = (work', m)" by fastforce
  obtain xs sx where x: "expired_burst env batch work' m st = (xs, sx)" by fastforce
  note ex = expired_same [OF x]
  show ?thesis
  proof (cases "wk_read_failed work \<or> wk_read_failed work'")
    case True
    then show ?thesis using assms err r by (cases "wk_read_failed work") (simp_all add: one_burst_def)
  next
    case ok: False
    show ?thesis
    proof (cases "case wk_data work' of None \<Rightarrow> [] | Some d \<Rightarrow> d")
      case Nil
      then have "state = xs \<and> st' = sx"
        using assms ok r x by (simp add: one_burst_def split: option.splits list.splits)
      then show ?thesis using ex by simp
    next
      case (Cons a d)
      then have d: "wk_data work' = Some (a # d)" by (simp split: option.splits)
      show ?thesis
      proof (cases "isolate_samples (ie_channelize env) (wk_cand work') (a # d) (map_option br_start (wk_rng work'))
          (case wk_rng work' of None \<Rightarrow> False | Some r \<Rightarrow> br_truncated r) (ib_sample_rate_hz batch) (ib_center_freq_hz batch)")
        case None
        then show ?thesis using assms ok r d err by (simp add: one_burst_def)
      next
        case (Some i)
        then have "state = (if is_truncated i then ''too_long'' else ''isolated'')" "fan env (wk_cand work') i (st, outs) = (st', outs')"
          using assms ok r d by (simp_all add: one_burst_def)
        then show ?thesis using fan_same [of "(st, outs)" env "wk_cand work'" i] by (simp add: END_STATES_def)
      qed
    qed
  qed
qed

text \<open>Each picked burst is worked on once.\<close>

lemma read_ring_cand: "wk_cand (fst (read_ring env r work n)) = wk_cand work"
  by (simp add: read_ring_def split: option.split)

lemma snapshot_loop_cands:
  assumes "snapshot_loop env s batch cands used n lazy snapped = (works, n')"
  shows "mset (map wk_cand works) = mset (map wk_cand (lazy @ snapped)) + mset cands"
  using assms
proof (induction env s batch cands used n lazy snapped arbitrary: works n' rule: snapshot_loop.induct)
  case (2 env s batch cand cands used n lazy snapped)
  let ?rng = "burst_read_range (cd_burst cand) (ib_sample_rate_hz batch) (iz_max_burst_sec s)"
  have c: "wk_cand (work_new cand r) = cand" for r by (simp add: work_new_def)
  show ?case
  proof (cases ?rng)
    case None
    then show ?thesis using 2 c by (simp add: Let_def)
  next
    case (Some r)
    show ?thesis
    proof (cases "is_whole batch \<or> SNAPSHOT_MAX_BYTES < used + br_num_samples r * RING_ITEMSIZE")
      case True
      then show ?thesis by (cases "is_whole batch") (use 2 Some c in \<open>simp_all add: Let_def\<close>)
    next
      case False
      obtain w m where w: "read_ring env r ((work_new cand (Some r))\<lparr>wk_snapped := True\<rparr>) n = (w, m)" by fastforce
      have "wk_cand w = cand" using read_ring_cand [of env r _ n] w by (metis c fst_conv work.select_convs(1) work.surjective work.update_convs(4))
      then show ?thesis using 2 Some False w by (simp add: Let_def)
    qed
  qed
qed auto

lemma snapshot_batch_cands:
  "snapshot_batch env s picked batch n = (works, n') \<Longrightarrow> mset (map wk_cand works) = mset picked \<and> length works = length picked"
proof -
  assume "snapshot_batch env s picked batch n = (works, n')"
  then have m: "mset (map wk_cand works) = mset picked"
    using snapshot_loop_cands [of env s batch picked 0 n "[]" "[]" works n'] by (simp add: snapshot_batch_def)
  then show ?thesis by (metis length_map size_mset)
qed

definition ends :: "iso_stats \<Rightarrow> int" where
  "ends st = st ''isolated'' + st ''iq_expired'' + st ''too_long'' + st ''error''"

lemma ends_count: "state \<in> set END_STATES \<Longrightarrow> ends (stat_count state 1 st) = ends st + 1"
  by (auto simp: END_STATES_def ends_def stat_count_def)

definition same_front :: "iso_stats \<Rightarrow> iso_stats \<Rightarrow> bool" where
  "same_front st st' \<longleftrightarrow> (\<forall>name \<in> {''received'', ''queue_full'', ''picked'', ''gated_out''}. st' name = st name)"

lemma process_one_counts:
  assumes "process_one env batch work w = w'"
  shows "ends (iw_stats w') = ends (iw_stats w) + 1 \<and> same_front (iw_stats w) (iw_stats w') \<and> iw_gate w' = iw_gate w"
proof -
  obtain state n st outs where o: "one_burst env batch work (iw_access w) (iw_stats w, iw_outs w) = (state, n, st, outs)"
    by (metis surj_pair)
  have s: "state \<in> set END_STATES" "same_main (iw_stats w) st" using one_burst_same [OF o] by simp_all
  have "ends st = ends (iw_stats w)" using s(2) by (simp add: same_main_def MAIN_COUNTS_def END_STATES_def ends_def)
  moreover have "same_front (iw_stats w) (stat_count state 1 st)"
    using s by (auto simp: same_front_def same_main_def MAIN_COUNTS_def END_STATES_def stat_count_def)
  ultimately show ?thesis using assms o ends_count [OF s(1), of st] by (auto simp: process_one_def)
qed

lemma process_many_counts:
  "ends (iw_stats (fold (process_one env batch) works w)) = ends (iw_stats w) + int (length works) \<and>
   same_front (iw_stats w) (iw_stats (fold (process_one env batch) works w)) \<and>
   iw_gate (fold (process_one env batch) works w) = iw_gate w"
proof (induction works arbitrary: w)
  case (Cons x works)
  then show ?case
    using process_one_counts [of env batch x w, OF refl] by (auto simp: same_front_def)
qed (simp add: same_front_def)

text \<open>The gate's window, its picks and its counts.\<close>

definition gate_open :: "gate \<Rightarrow> rat \<Rightarrow> gate" where
  "gate_open g now = (if now < ga_window_start g \<or> 1 \<le> now - ga_window_start g
     then \<lparr>ga_window_start = now, ga_window_count = 0\<rparr> else g)"

lemma gate_pick_parts:
  assumes "gate_pick s clock cands rate (g, st) = (picked, g', st')"
  defines "g1 \<equiv> gate_open g (gate_now cands rate clock)"
  shows "picked = take (nat (max 0 (iz_max_per_sec s - ga_window_count g1)))
      (strongest_first (filter (\<lambda>c. iz_snr_db s \<le> cd_snr_db c) cands))"
    and "g' = g1\<lparr>ga_window_count := ga_window_count g1 + int (length picked)\<rparr>"
    and "st' = (let st = (if picked = [] then st else stat_count ''picked'' (int (length picked)) st);
        gated_out = int (length cands) - int (length picked)
      in if gated_out = 0 then st else stat_count ''gated_out'' gated_out st)"
proof -
  note e = assms(1) [unfolded gate_pick_def Let_def prod.case, folded gate_open_def, folded g1_def, unfolded prod.inject]
  show p: "picked = take (nat (max 0 (iz_max_per_sec s - ga_window_count g1)))
      (strongest_first (filter (\<lambda>c. iz_snr_db s \<le> cd_snr_db c) cands))"
    by (rule sym, rule conjunct1 [OF e])
  show "g' = g1\<lparr>ga_window_count := ga_window_count g1 + int (length picked)\<rparr>"
    unfolding p by (rule sym, rule conjunct1 [OF conjunct2 [OF e]])
  show "st' = (let st = (if picked = [] then st else stat_count ''picked'' (int (length picked)) st);
        gated_out = int (length cands) - int (length picked)
      in if gated_out = 0 then st else stat_count ''gated_out'' gated_out st)"
    unfolding p Let_def by (rule sym, rule conjunct2 [OF conjunct2 [OF e]])
qed

lemma gate_pick_counts:
  assumes "gate_pick s clock cands rate (g, st) = (picked, g', st')"
  shows "st' ''picked'' = st ''picked'' + int (length picked)"
    and "st' ''gated_out'' = st ''gated_out'' + (int (length cands) - int (length picked))"
    and "st' ''received'' = st ''received''" "st' ''queue_full'' = st ''queue_full''" "ends st' = ends st"
  unfolding gate_pick_parts(3) [OF assms] Let_def by (simp_all add: stat_count_def ends_def)

lemma process_batch_counts:
  assumes "w' = process_batch env s clock batch w"
  shows "iw_stats w' ''received'' = iw_stats w ''received''" "iw_stats w' ''queue_full'' = iw_stats w ''queue_full''"
    and "iw_stats w' ''picked'' + iw_stats w' ''gated_out'' =
      iw_stats w ''picked'' + iw_stats w ''gated_out'' + int (length (ib_candidates batch))"
    and "iw_stats w' ''picked'' - ends (iw_stats w') = iw_stats w ''picked'' - ends (iw_stats w)"
proof -
  obtain picked g st where g: "gate_pick s clock (ib_candidates batch) (ib_sample_rate_hz batch) (iw_gate w, iw_stats w) = (picked, g, st)"
    by (metis surj_pair)
  obtain works n where sn: "snapshot_batch env s picked batch (iw_access w) = (works, n)" by fastforce
  have len: "length works = length picked" using snapshot_batch_cands [OF sn] by blast
  define w1 where "w1 = w\<lparr>iw_gate := g, iw_stats := st, iw_access := n\<rparr>"
  have w': "w' = fold (process_one env batch) works w1" using assms g sn by (simp add: process_batch_def w1_def)
  note c = gate_pick_counts [OF g] and p = process_many_counts [of env batch works w1]
  show "iw_stats w' ''received'' = iw_stats w ''received''" "iw_stats w' ''queue_full'' = iw_stats w ''queue_full''"
    "iw_stats w' ''picked'' + iw_stats w' ''gated_out'' =
      iw_stats w ''picked'' + iw_stats w ''gated_out'' + int (length (ib_candidates batch))"
    "iw_stats w' ''picked'' - ends (iw_stats w') = iw_stats w ''picked'' - ends (iw_stats w)"
    using c p len unfolding w' by (simp_all add: w1_def same_front_def)
qed

section \<open>No burst is lost between the threads\<close>

definition worker_batches :: "worker_at \<Rightarrow> iso_batch list" where
  "worker_batches a = (case a of WBatch b \<Rightarrow> [b] | WDrop b \<Rightarrow> [b] | _ \<Rightarrow> [])"

definition stopper_batches :: "stopper_at \<Rightarrow> iso_batch list" where
  "stopper_batches a = (case a of SDrop b \<Rightarrow> [b] | SFinalDrop b \<Rightarrow> [b] | _ \<Rightarrow> [])"

definition queued_batches :: "qitem list \<Rightarrow> iso_batch list" where
  "queued_batches q = List.map_filter (\<lambda>i. case i of QBatch b \<Rightarrow> Some b | QStop \<Rightarrow> None) q"

text \<open>The batches that were accepted and are neither processed nor dropped.\<close>

definition pending :: "stage \<Rightarrow> iso_batch list" where
  "pending sg = queued_batches (sg_queue sg) @ worker_batches (sg_worker sg) @ stopper_batches (sg_stopper sg)"

definition released :: "stage \<Rightarrow> iso_batch list" where
  "released sg = (case sg_worker sg of WRelease b \<Rightarrow> [b] | _ \<Rightarrow> [])"

definition bursts_in :: "iso_batch list \<Rightarrow> int" where
  "bursts_in bs = (\<Sum>b \<leftarrow> bs. int (length (ib_candidates b)))"

definition wholes_in :: "iso_batch list \<Rightarrow> int" where
  "wholes_in bs = int (length (filter is_whole bs))"

lemma sums_in [simp]:
  "bursts_in [] = 0" "bursts_in (b # bs) = int (length (ib_candidates b)) + bursts_in bs" "bursts_in (as @ bs) = bursts_in as + bursts_in bs"
  "wholes_in [] = 0" "wholes_in (b # bs) = (if is_whole b then 1 else 0) + wholes_in bs" "wholes_in (as @ bs) = wholes_in as + wholes_in bs"
  by (simp_all add: bursts_in_def wholes_in_def)

lemma queued_simps [simp]:
  "queued_batches [] = []" "queued_batches (QStop # q) = queued_batches q" "queued_batches (QBatch b # q) = b # queued_batches q"
  "queued_batches (p @ q) = queued_batches p @ queued_batches q"
  by (simp_all add: queued_batches_def List.map_filter_def)

abbreviation stat :: "stage \<Rightarrow> string \<Rightarrow> int" where
  "stat sg \<equiv> iw_stats (sg_work sg)"

definition stage_ok :: "iso_settings \<Rightarrow> stage \<Rightarrow> bool" where
  "stage_ok s sg \<longleftrightarrow>
     stat sg ''received'' = stat sg ''queue_full'' + stat sg ''picked'' + stat sg ''gated_out'' + bursts_in (pending sg) \<and>
     stat sg ''picked'' = ends (stat sg) \<and>
     sg_whole_pending sg = wholes_in (pending sg @ released sg) \<and> sg_whole_pending sg \<le> MAX_WHOLE_CAPTURE_BATCHES \<and>
     int (length (sg_queue sg)) \<le> max 1 (iz_queue_max s)"

lemma stage_ok_new: "stage_ok s stage_new"
  by (simp add: stage_ok_def stage_new_def pending_def released_def worker_batches_def stopper_batches_def worker_new_def
      ends_def MAX_WHOLE_CAPTURE_BATCHES_def)

lemma counted_in_simps [simp]:
  "sg_queue (counted_in i n sg) = sg_queue sg" "sg_worker (counted_in i n sg) = sg_worker sg"
  "sg_stopper (counted_in i n sg) = sg_stopper sg" "sg_whole_pending (counted_in i n sg) = sg_whole_pending sg"
  "sg_stop (counted_in i n sg) = sg_stop sg" "sg_thread (counted_in i n sg) = sg_thread sg"
  "stat (counted_in i n sg) = stat_count i n (stat sg)"
  by (simp_all add: counted_in_def)

lemma counted_pending [simp]: "pending (counted_in i n sg) = pending sg" "released (counted_in i n sg) = released sg"
  by (simp_all add: pending_def released_def)

lemma stage_ok_submit: "stage_ok s sg \<Longrightarrow> stage_ok s (snd (submit s b sg))"
  by (auto simp: submit_def stage_ok_def Let_def stat_count_def ends_def queue_full_def pending_def released_def
      MAX_WHOLE_CAPTURE_BATCHES_def)

lemma drop_parts:
  "sg_queue (drop_batch b sg) = sg_queue sg" "sg_worker (drop_batch b sg) = sg_worker sg" "sg_stopper (drop_batch b sg) = sg_stopper sg"
  "sg_whole_pending (drop_batch b sg) = sg_whole_pending sg - (if is_whole b then 1 else 0)"
  "stat (drop_batch b sg) = stat_count ''queue_full'' (int (length (ib_candidates b))) (stat sg)"
  by (simp_all add: drop_batch_def release_batch_def)

lemma stage_ok_worker: "stage_ok s sg \<Longrightarrow> stage_ok s (worker_step env s clock sg)"
proof -
  assume ok: "stage_ok s sg"
  show ?thesis
  proof (cases "sg_worker sg")
    case (WBatch b)
    note p = process_batch_counts [OF refl, of env s clock b "sg_work sg"]
    show ?thesis
      using ok p by (simp add: worker_step_def WBatch stage_ok_def pending_def released_def worker_batches_def)
  next
    case (WRelease b)
    then show ?thesis
      using ok by (cases "is_whole b") (simp_all add: worker_step_def stage_ok_def pending_def released_def worker_batches_def release_batch_def)
  next
    case (WDrop b)
    then show ?thesis
      using ok by (cases "is_whole b") (simp_all add: worker_step_def stage_ok_def pending_def released_def worker_batches_def drop_parts
          stat_count_def ends_def)
  next
    case WGet
    then show ?thesis
      using ok by (auto simp: worker_step_def stage_ok_def pending_def released_def worker_batches_def split: list.split qitem.split)
  next
    case WDrain
    then show ?thesis
      using ok by (auto simp: worker_step_def stage_ok_def pending_def released_def worker_batches_def split: list.split qitem.split)
  qed (use ok in \<open>simp_all add: worker_step_def stage_ok_def pending_def released_def worker_batches_def\<close>)
qed

lemma stage_ok_stopper: "stage_ok s sg \<Longrightarrow> stage_ok s (stopper_step s timed_out sg)"
proof -
  assume ok: "stage_ok s sg"
  show ?thesis
  proof (cases "sg_stopper sg")
    case SDrain
    then show ?thesis
      using ok by (auto simp: stopper_step_def stage_ok_def pending_def released_def stopper_batches_def split: list.split qitem.split)
  next
    case SFinal
    then show ?thesis
      using ok by (auto simp: stopper_step_def stage_ok_def pending_def released_def stopper_batches_def split: list.split qitem.split)
  next
    case (SDrop b)
    then show ?thesis
      using ok by (cases "is_whole b") (simp_all add: stopper_step_def stage_ok_def pending_def released_def stopper_batches_def drop_parts
          stat_count_def ends_def)
  next
    case (SFinalDrop b)
    then show ?thesis
      using ok by (cases "is_whole b") (simp_all add: stopper_step_def stage_ok_def pending_def released_def stopper_batches_def drop_parts
          stat_count_def ends_def)
  qed (use ok in \<open>auto simp: stopper_step_def stage_ok_def pending_def released_def stopper_batches_def queue_full_def\<close>)
qed

text \<open>A stage that has been stopped holds nothing back.\<close>

definition stop_ok :: "stage \<Rightarrow> bool" where
  "stop_ok sg \<longleftrightarrow> (worker_alive sg \<longrightarrow> sg_thread sg) \<and> (sg_stopper sg \<noteq> SIdle \<longrightarrow> sg_stop sg) \<and>
     (sg_stop sg \<and> sg_stopper sg = SIdle \<and> \<not> worker_alive sg \<longrightarrow> sg_queue sg = [])"

lemma stop_ok_worker: "stop_ok sg \<Longrightarrow> stop_ok (worker_step env s clock sg)"
  by (cases "sg_worker sg") (auto simp: worker_step_def stop_ok_def worker_alive_def release_batch_def drop_parts
      drop_batch_def counted_in_def split: list.split qitem.split)

lemma stop_ok_stopper: "stop_ok sg \<Longrightarrow> stop_ok (stopper_step s timed_out sg)"
  by (cases "sg_stopper sg") (auto simp: stopper_step_def stop_ok_def worker_alive_def drop_batch_def release_batch_def
      counted_in_def split: list.split qitem.split)

lemma stop_ok_submit: "stop_ok sg \<Longrightarrow> stop_ok (snd (submit s b sg))"
  by (auto simp: submit_def stop_ok_def worker_alive_def Let_def)

lemma stop_ok_calls: "stop_ok sg \<Longrightarrow> sg_stopper sg = SIdle \<Longrightarrow> stop_ok (stage_start sg) \<and> stop_ok (stage_stop sg)"
  by (auto simp: stage_start_def stage_stop_def stop_ok_def worker_alive_def)

lemma stage_ok_calls:
  assumes "stage_ok s sg" "stop_ok sg" "sg_stopper sg = SIdle"
  shows "stage_ok s (stage_start sg)" "stage_ok s (stage_stop sg)"
proof -
  have "worker_alive sg \<Longrightarrow> sg_thread sg" using assms(2) by (simp add: stop_ok_def)
  then show "stage_ok s (stage_start sg)"
    using assms(1) by (cases "sg_worker sg")
      (simp_all add: stage_start_def worker_alive_def stage_ok_def pending_def released_def worker_batches_def)
  show "stage_ok s (stage_stop sg)"
    using assms(1,3) by (simp add: stage_stop_def stage_ok_def pending_def released_def stopper_batches_def)
qed

lemma stage_do_ok: "stage_ok s sg \<and> stop_ok sg \<Longrightarrow> stage_ok s (stage_do env s ev sg) \<and> stop_ok (stage_do env s ev sg)"
  by (cases ev) (simp_all add: stage_ok_submit stop_ok_submit stage_ok_worker stop_ok_worker stage_ok_stopper stop_ok_stopper
      stage_ok_calls stop_ok_calls)

lemma stage_run_ok: "stage_ok s (stage_run env s evs stage_new) \<and> stop_ok (stage_run env s evs stage_new)"
proof (induction evs rule: rev_induct)
  case Nil
  have "stop_ok stage_new" by (simp add: stop_ok_def stage_new_def worker_alive_def)
  then show ?case using stage_ok_new by (simp add: stage_run_def)
next
  case (snoc ev evs)
  then show ?case using stage_do_ok by (simp add: stage_run_def)
qed

text \<open>
  C16: no burst is lost in the isolation stage. Whatever the order of the
  steps of the burst thread, the worker and the thread that stops the stage: the bursts received are the
  ones refused or dropped (\<open>queue_full\<close>), the ones gated out, the ones that ended in exactly one of the
  states isolated, expired, too long and error, and the ones that still wait; after
  \<open>stop\<close> has returned and the worker has ended, none wait.
\<close>

theorem every_burst_accounted:
  "let sg = stage_run env s evs stage_new in
    stat sg ''received'' = stat sg ''queue_full'' + stat sg ''gated_out'' +
      (stat sg ''isolated'' + stat sg ''iq_expired'' + stat sg ''too_long'' + stat sg ''error'') + bursts_in (pending sg) \<and>
    (sg_stop sg \<and> sg_stopper sg = SIdle \<and> \<not> worker_alive sg \<longrightarrow> pending sg = [])"
proof -
  let ?sg = "stage_run env s evs stage_new"
  have ok: "stage_ok s ?sg" "stop_ok ?sg" using stage_run_ok by simp_all
  have "pending ?sg = []" if "sg_stop ?sg" "sg_stopper ?sg = SIdle" "\<not> worker_alive ?sg"
    using ok(2) that by (auto simp: stop_ok_def pending_def worker_batches_def stopper_batches_def worker_alive_def)
  then show ?thesis using ok(1) by (auto simp: stage_ok_def ends_def)
qed

definition ex_ring :: "int ring" where
  "ex_ring = ring_write (ring_new 64 0) (replicate 50 7)"

definition ex_fp :: "int \<Rightarrow> int \<Rightarrow> fingerprint" where
  "ex_fp a b = \<lparr>fp_start_time = 1, fp_stop_time = 2, fp_center_freq_hz = 915, fp_peak_freq_hz = 915, fp_bandwidth_hz = 50,
     fp_peak_power_db = 0, fp_duration_ms = 1, fp_detection_timestamp = 2, fp_start_sample = Some a, fp_stop_sample = Some b\<rparr>"

definition ex_env :: iso_env where
  "ex_env = \<lparr>ie_view = (\<lambda>_. ring_view ex_ring), ie_raises = (\<lambda>_. False), ie_channelize = (\<lambda>d _ _ _. Some d), ie_archive = Some (\<lambda>_. True),
     ie_refuse_saving = (\<lambda>_. False), ie_module_feed = None, ie_handoff = None\<rparr>"

definition ex_settings :: iso_settings where
  "ex_settings = \<lparr>iz_snr_db = 6, iz_max_per_sec = 1, iz_max_burst_sec = 1 / 100, iz_queue_max = 4\<rparr>"

definition ex_batch :: iso_batch where
  "ex_batch = \<lparr>ib_candidates = [\<lparr>cd_id = ''a'', cd_burst = ex_fp 10 12, cd_snr_db = 7\<rparr>, \<lparr>cd_id = ''b'', cd_burst = ex_fp 20 24, cd_snr_db = 9\<rparr>],
     ib_center_freq_hz = 915, ib_sample_rate_hz = 1000, ib_source = FromRing\<rparr>"

theorem every_burst_accounted_witness:
  "let sg = stage_run ex_env ex_settings
      [IsStart, IsSubmit ex_batch, IsWorker 0, IsStop, IsStopper False, IsStopper False, IsStopper False, IsStopper False,
       IsWorker 0, IsStopper False, IsWorker 0, IsStopper False, IsStopper False, IsStopper False] stage_new
   in sg_stop sg \<and> sg_stopper sg = SIdle \<and> \<not> worker_alive sg \<and> pending sg = [] \<and> stat sg ''received'' = 2"
proof -
  let ?sg = "stage_run ex_env ex_settings
      [IsStart, IsSubmit ex_batch, IsWorker 0, IsStop, IsStopper False, IsStopper False, IsStopper False, IsStopper False,
       IsWorker 0, IsStopper False, IsWorker 0, IsStopper False, IsStopper False, IsStopper False] stage_new"
  have "sg_stop ?sg" "sg_stopper ?sg = SIdle" "\<not> worker_alive ?sg" "stat ?sg ''received'' = 2" by code_simp+
  then show ?thesis using every_burst_accounted [of ex_env ex_settings
      "[IsStart, IsSubmit ex_batch, IsWorker 0, IsStop, IsStopper False, IsStopper False, IsStopper False, IsStopper False,
       IsWorker 0, IsStopper False, IsWorker 0, IsStopper False, IsStopper False, IsStopper False]"] unfolding Let_def by blast
qed

text \<open>
  The memory held for whole captures is bounded. The slots taken are exactly the
  whole-capture batches that are queued or in flight, never more than
  \<open>MAX_WHOLE_CAPTURE_BATCHES\<close>, and the queue never exceeds its size.
\<close>

theorem whole_captures_bounded:
  "let sg = stage_run env s evs stage_new in
   sg_whole_pending sg = wholes_in (pending sg @ released sg) \<and> wholes_in (pending sg @ released sg) \<le> MAX_WHOLE_CAPTURE_BATCHES \<and>
   int (length (sg_queue sg)) \<le> max 1 (iz_queue_max s)"
  using stage_run_ok [of s env evs] unfolding stage_ok_def Let_def by auto

section \<open>The strongest pass\<close>

lemma strongest_take:
  assumes "p \<in> set (take k (strongest_first cs))" "c \<in> set (drop k (strongest_first cs))"
  shows "cd_snr_db c \<le> cd_snr_db p"
proof -
  have "sorted (map (\<lambda>c. - cd_snr_db c) (take k (strongest_first cs) @ drop k (strongest_first cs)))"
    by (simp add: strongest_first_def)
  then show ?thesis using assms unfolding map_append sorted_append by fastforce
qed

text \<open>
  The gate passes the strongest bursts. Of the bursts at or above the SNR threshold it picks as
  many as the window has room for, none weaker than one it leaves; a window, which
  starts anew after a second or when the clock goes back, never has more than
  \<open>ISOLATION_MAX_PER_SEC\<close> picks.
\<close>

theorem gate_passes_strongest:
  assumes "gate_pick s clock cands rate (g, st) = (picked, g', st')"
    and "g1 = gate_open g (gate_now cands rate clock)" "passed = filter (\<lambda>c. iz_snr_db s \<le> cd_snr_db c) cands"
    and "ga_window_count g \<le> max 0 (iz_max_per_sec s)"
  shows "mset picked \<subseteq># mset passed \<and> (\<forall>p \<in># mset picked. \<forall>c \<in># mset passed - mset picked. cd_snr_db c \<le> cd_snr_db p) \<and>
    length picked = min (length passed) (nat (iz_max_per_sec s - ga_window_count g1)) \<and>
    ga_window_count g' = ga_window_count g1 + int (length picked) \<and> ga_window_count g' \<le> max 0 (iz_max_per_sec s)"
proof -
  note p = gate_pick_parts [OF assms(1), folded assms(2,3)]
  let ?k = "nat (max 0 (iz_max_per_sec s - ga_window_count g1))"
  have m: "mset passed = mset (take ?k (strongest_first passed)) + mset (drop ?k (strongest_first passed))"
    unfolding mset_append [symmetric] append_take_drop_id by (simp add: strongest_first_def)
  have len: "length picked = min (length passed) (nat (iz_max_per_sec s - ga_window_count g1))"
    unfolding p(1) by (simp add: strongest_first_def min.commute)
  have "ga_window_count g1 \<le> max 0 (iz_max_per_sec s)" using assms(4) by (simp add: assms(2) gate_open_def)
  then have "ga_window_count g' \<le> max 0 (iz_max_per_sec s)" unfolding p(2) by (simp add: len)
  moreover have "mset passed - mset picked = mset (drop ?k (strongest_first passed))" unfolding m p(1) by simp
  moreover have "mset picked \<subseteq># mset passed" unfolding m p(1) by simp
  moreover have "cd_snr_db c \<le> cd_snr_db q" if "q \<in># mset picked" "c \<in># mset passed - mset picked" for q c
    using strongest_take [of q ?k passed c] that unfolding calculation(2) by (simp add: p(1))
  moreover have "ga_window_count g' = ga_window_count g1 + int (length picked)" unfolding p(2) by simp
  ultimately show ?thesis using len by blast
qed

section \<open>The samples that are handed on\<close>

text \<open>Every read sees the ring after some of the stream has been written.\<close>

definition views_stream :: "iso_env \<Rightarrow> int list \<Rightarrow> bool" where
  "views_stream env stream \<longleftrightarrow> (\<forall>n. \<exists>r xs ys. ie_view env n = ring_view r \<and> ring_holds r xs \<and> stream = xs @ ys)"

lemma view_slice:
  assumes "views_stream env stream" "rr_read_range (ie_view env n) a b = Some d"
  shows "d = slice a b stream"
proof -
  obtain r xs ys where r: "ie_view env n = ring_view r" "ring_holds r xs" "stream = xs @ ys"
    using assms(1) unfolding views_stream_def by blast
  have "0 \<le> a \<and> a < b \<and> d = slice a b xs" using circular.read_range_sound [OF r(2)] assms(2) r(1) by metis
  moreover have "b \<le> int (length xs)"
    using circular.read_range_lost [OF r(2), of a b] assms(2) r(1) by fastforce
  ultimately show ?thesis by (simp add: r(3) slice_def nat_diff_distrib')
qed

definition work_ok :: "iso_settings \<Rightarrow> iso_batch \<Rightarrow> int list \<Rightarrow> work \<Rightarrow> bool" where
  "work_ok s batch stream work \<longleftrightarrow>
     wk_rng work = burst_read_range (cd_burst (wk_cand work)) (ib_sample_rate_hz batch) (iz_max_burst_sec s) \<and>
     (\<forall>d. wk_data work = Some d \<longrightarrow> (\<exists>r. wk_rng work = Some r \<and> d = slice (br_start r) (br_stop r) stream))"

lemma work_ok_new: "work_ok s batch stream (work_new cand (burst_read_range (cd_burst cand) (ib_sample_rate_hz batch) (iz_max_burst_sec s)))"
  by (simp add: work_ok_def work_new_def)

lemma work_ok_read:
  assumes v: "views_stream env stream" and ok: "work_ok s batch stream work" and r: "wk_rng work = Some r"
    and e: "read_ring env r work n = (work', n')"
  shows "work_ok s batch stream work' \<and> wk_cand work' = wk_cand work \<and> wk_rng work' = wk_rng work"
proof -
  have same: "work_ok s batch stream w" if "wk_cand w = wk_cand work" "wk_rng w = wk_rng work" "wk_data w = wk_data work" for w
    using ok unfolding work_ok_def that .
  show ?thesis
  proof (cases "rr_read_range (ie_view env n) (br_start r) (br_stop r)")
    case None
    then have "work' = work\<lparr>wk_read_failed := True\<rparr> \<or> work' = work\<lparr>wk_bounds := Some (rr_bounds (ie_view env (Suc n)))\<rparr>"
      using e by (auto simp: read_ring_def split: if_splits)
    then show ?thesis by (elim disjE) (simp_all add: same)
  next
    case (Some d)
    then have c: "work' = work\<lparr>wk_read_failed := True\<rparr> \<or> work' = work\<lparr>wk_data := Some d\<rparr>"
      using e by (auto simp: read_ring_def split: if_splits)
    have "d = slice (br_start r) (br_stop r) stream" using view_slice [OF v Some] .
    then have "work_ok s batch stream (work\<lparr>wk_data := Some d\<rparr>)"
      using conjunct1 [OF ok [unfolded work_ok_def]] r unfolding work_ok_def by (intro conjI allI impI exI [of _ r]) simp_all
    with c show ?thesis by (elim disjE) (simp_all add: same)
  qed
qed

lemma snapshot_loop_ok:
  assumes "snapshot_loop env s batch cands used n lazy snapped = (works, n')" "views_stream env stream"
    and "list_all (work_ok s batch stream) lazy" "list_all (work_ok s batch stream) snapped"
  shows "list_all (work_ok s batch stream) works"
  using assms
proof (induction env s batch cands used n lazy snapped arbitrary: works n' rule: snapshot_loop.induct)
  case (2 env s batch cand cands used n lazy snapped)
  let ?rng = "burst_read_range (cd_burst cand) (ib_sample_rate_hz batch) (iz_max_burst_sec s)"
  have new: "work_ok s batch stream (work_new cand ?rng)" by (rule work_ok_new)
  show ?case
  proof (cases ?rng)
    case None
    then show ?thesis using 2 new by (simp add: Let_def)
  next
    case (Some r)
    show ?thesis
    proof (cases "is_whole batch \<or> SNAPSHOT_MAX_BYTES < used + br_num_samples r * RING_ITEMSIZE")
      case True
      then show ?thesis by (cases "is_whole batch") (use 2 Some new in \<open>simp_all add: Let_def\<close>)
    next
      case False
      obtain w m where w: "read_ring env r ((work_new cand (Some r))\<lparr>wk_snapped := True\<rparr>) n = (w, m)" by fastforce
      have "work_ok s batch stream ((work_new cand (Some r))\<lparr>wk_snapped := True\<rparr>)" using new Some by (auto simp: work_ok_def work_new_def)
      from work_ok_read [OF 2(6) this _ w] have "work_ok s batch stream w" by (simp add: work_new_def)
      then show ?thesis using 2 Some False w by (simp add: Let_def)
    qed
  qed
qed auto

text \<open>What a burst of the ring is handed on as: its candidate, and its stretch of the stream.\<close>

definition burst_of_stream ::
  "channelizer \<Rightarrow> iso_settings \<Rightarrow> iso_batch \<Rightarrow> int list \<Rightarrow> burst_candidate \<Rightarrow> isolated \<Rightarrow> bool" where
  "burst_of_stream chan s batch stream cand isob \<longleftrightarrow>
     (\<exists>r. burst_read_range (cd_burst cand) (ib_sample_rate_hz batch) (iz_max_burst_sec s) = Some r \<and>
        isolate_samples chan cand (slice (br_start r) (br_stop r) stream) (Some (br_start r)) (br_truncated r)
          (ib_sample_rate_hz batch) (ib_center_freq_hz batch) = Some isob)"

fun handed_burst :: "fan_out \<Rightarrow> isolated \<times> iso_meta" where
  "handed_burst (Archived i m) = (i, m)"
| "handed_burst (ModuleFed i m) = (i, m)"
| "handed_burst (HandedOver i m) = (i, m)"

definition outs_of_stream :: "channelizer \<Rightarrow> iso_settings \<Rightarrow> iso_batch \<Rightarrow> int list \<Rightarrow> burst_candidate set \<Rightarrow> fan_out list \<Rightarrow> bool" where
  "outs_of_stream chan s batch stream cands outs \<longleftrightarrow>
     (\<forall>out \<in> set outs. \<exists>cand \<in> cands. burst_of_stream chan s batch stream cand (fst (handed_burst out)) \<and>
        snd (handed_burst out) = meta_of cand (fst (handed_burst out)))"

lemma fan_outs:
  "\<exists>new. snd (fan env cand isob acc) = snd acc @ new \<and> (\<forall>out \<in> set new. handed_burst out = (isob, meta_of cand isob))"
  by (cases acc) (auto simp: fan_def deliver_def Let_def split: option.split)

lemma read_work_ok:
  assumes v: "views_stream env stream" and ok: "work_ok s batch stream work" and ring: "ib_source batch = FromRing"
    and e: "read_work env batch work n = (work', n')"
  shows "work_ok s batch stream work' \<and> wk_cand work' = wk_cand work"
proof (cases "wk_snapped work")
  case True
  then show ?thesis using e ok by (simp add: read_work_def)
next
  case False
  show ?thesis
  proof (cases "wk_rng work")
    case None
    then show ?thesis using False e ok ring by (auto simp: read_work_def work_ok_def)
  next
    case (Some r)
    then have "read_ring env r work n = (work', n')" using False e ring by (simp add: read_work_def)
    from work_ok_read [OF v ok Some this] show ?thesis by simp
  qed
qed

lemma one_burst_outs:
  assumes v: "views_stream env stream" and ok: "work_ok s batch stream work" and ring: "ib_source batch = FromRing"
    and e: "one_burst env batch work n (st, outs) = (state, n', st', outs')"
  shows "\<exists>new. outs' = outs @ new \<and> outs_of_stream (ie_channelize env) s batch stream {wk_cand work} new"
proof -
  obtain work' m where r: "read_work env batch work n = (work', m)" by fastforce
  obtain xs sx where x: "expired_burst env batch work' m st = (xs, sx)" by fastforce
  have w: "work_ok s batch stream work'" "wk_cand work' = wk_cand work" using read_work_ok [OF v ok ring r] by simp_all
  have none: ?thesis if "outs' = outs" using that by (simp add: outs_of_stream_def)
  let ?iso = "\<lambda>d. isolate_samples (ie_channelize env) (wk_cand work') d (map_option br_start (wk_rng work'))
      (case wk_rng work' of None \<Rightarrow> False | Some r \<Rightarrow> br_truncated r) (ib_sample_rate_hz batch) (ib_center_freq_hz batch)"
  show ?thesis
  proof (cases "wk_read_failed work \<or> wk_read_failed work' \<or> wk_data work' = None \<or> wk_data work' = Some [] \<or>
      (\<exists>d. wk_data work' = Some d \<and> ?iso d = None)")
    case True
    then show ?thesis using e r x by (intro none) (auto simp: one_burst_def split: if_splits option.splits list.splits)
  next
    case False
    then obtain a d isob where d: "wk_data work' = Some (a # d)" and i: "?iso (a # d) = Some isob"
      by (metis list.exhaust option.exhaust)
    obtain rg where rg: "wk_rng work' = Some rg" "a # d = slice (br_start rg) (br_stop rg) stream"
      using w(1) d unfolding work_ok_def by blast
    have b: "burst_of_stream (ie_channelize env) s batch stream (wk_cand work) isob"
      unfolding burst_of_stream_def
    proof (intro exI conjI)
      show "burst_read_range (cd_burst (wk_cand work)) (ib_sample_rate_hz batch) (iz_max_burst_sec s) = Some rg"
        using w rg(1) by (simp add: work_ok_def)
    qed (use i rg w(2) in simp)
    have "outs' = snd (fan env (wk_cand work') isob (st, outs))" using e r d i False by (simp add: one_burst_def)
    moreover obtain new where new: "snd (fan env (wk_cand work') isob (st, outs)) = outs @ new"
        "\<forall>out \<in> set new. handed_burst out = (isob, meta_of (wk_cand work') isob)"
      using fan_outs [of env "wk_cand work'" isob "(st, outs)"] by auto
    moreover have "outs_of_stream (ie_channelize env) s batch stream {wk_cand work} new"
      using new(2) b w(2) by (simp add: outs_of_stream_def)
    ultimately show ?thesis by blast
  qed
qed

lemma process_many_outs:
  assumes v: "views_stream env stream" and ring: "ib_source batch = FromRing"
  shows "list_all (work_ok s batch stream) works \<Longrightarrow> wk_cand ` set works \<subseteq> cands \<Longrightarrow>
    \<exists>new. iw_outs (fold (process_one env batch) works w) = iw_outs w @ new \<and>
      outs_of_stream (ie_channelize env) s batch stream cands new"
proof (induction works arbitrary: w)
  case (Cons x works)
  obtain state n st outs where o: "one_burst env batch x (iw_access w) (iw_stats w, iw_outs w) = (state, n, st, outs)"
    by (metis surj_pair)
  obtain new where new: "outs = iw_outs w @ new" "outs_of_stream (ie_channelize env) s batch stream {wk_cand x} new"
    using one_burst_outs [OF v _ ring o] Cons.prems(1) by auto
  have w1: "iw_outs (process_one env batch x w) = outs" using o by (simp add: process_one_def)
  obtain more where more: "iw_outs (fold (process_one env batch) works (process_one env batch x w)) = outs @ more"
      "outs_of_stream (ie_channelize env) s batch stream cands more"
    using Cons.IH [of "process_one env batch x w"] Cons.prems w1 by auto
  have "outs_of_stream (ie_channelize env) s batch stream cands (new @ more)"
    using new(2) more(2) Cons.prems(2) by (auto simp: outs_of_stream_def)
  then show ?case using more(1) new(1) by (intro exI [of _ "new @ more"]) simp
qed (simp add: outs_of_stream_def)

text \<open>
  C8: the isolation stage hands on the stream's own samples. While
  the receiver goes on writing the ring between the reads: every burst of a batch of the ring that reaches the archive, the
  modules or the attribution queue is one of the batch's candidates, isolated from exactly the stretch
  of the stream its detected range with its guard asks for, cut at \<open>ISOLATION_MAX_BURST_SEC\<close> and marked
  \<open>truncated\<close> when it is; a stretch that was overwritten or not yet written is never handed on.
\<close>

theorem isolated_samples_are_stream:
  assumes "views_stream env stream" "ib_source batch = FromRing" "w' = process_batch env s clock batch w"
  shows "\<exists>new. iw_outs w' = iw_outs w @ new \<and>
    outs_of_stream (ie_channelize env) s batch stream (set (ib_candidates batch)) new"
proof -
  obtain picked g st where g: "gate_pick s clock (ib_candidates batch) (ib_sample_rate_hz batch) (iw_gate w, iw_stats w) = (picked, g, st)"
    by (metis surj_pair)
  obtain works n where sn: "snapshot_batch env s picked batch (iw_access w) = (works, n)" by fastforce
  have "set picked \<subseteq> set (ib_candidates batch)"
    unfolding gate_pick_parts(1) [OF g] by (auto simp: strongest_first_def dest!: in_set_takeD)
  moreover have "wk_cand ` set works = set picked" using snapshot_batch_cands [OF sn] by (metis list.set_map set_mset_mset)
  ultimately have c: "wk_cand ` set works \<subseteq> set (ib_candidates batch)" by simp
  have ok: "list_all (work_ok s batch stream) works"
    using snapshot_loop_ok [OF sn [unfolded snapshot_batch_def] assms(1)] by simp
  show ?thesis
    using process_many_outs [OF assms(1,2) ok c, of "w\<lparr>iw_gate := g, iw_stats := st, iw_access := n\<rparr>"] g sn assms(3)
    by (simp add: process_batch_def)
qed

theorem gate_passes_strongest_witness:
  "length (fst (gate_pick ex_settings 0 (ib_candidates ex_batch) 1000 (gate_new, \<lambda>_. 0))) = 1"
proof -
  obtain picked g' st' where e: "gate_pick ex_settings 0 (ib_candidates ex_batch) 1000 (gate_new, \<lambda>_. 0) = (picked, g', st')"
    by (metis surj_pair)
  have "length picked = min (length (filter (\<lambda>c. iz_snr_db ex_settings \<le> cd_snr_db c) (ib_candidates ex_batch)))
      (nat (iz_max_per_sec ex_settings - ga_window_count (gate_open gate_new (gate_now (ib_candidates ex_batch) 1000 0))))"
    using gate_passes_strongest [OF e refl refl] by (simp add: gate_new_def ex_settings_def)
  moreover have "\<dots> = 1" by code_simp
  ultimately show ?thesis by (simp add: e)
qed

theorem isolated_samples_are_stream_witness:
  "let w' = process_batch ex_env ex_settings 0 ex_batch worker_new in
     length (iw_outs w') = 1 \<and>
     outs_of_stream (ie_channelize ex_env) ex_settings ex_batch (replicate 60 7) (set (ib_candidates ex_batch)) (iw_outs w')"
proof -
  have "ring_holds ex_ring (replicate 50 7)"
    using ring_holds_write [OF ring_holds_new [of 64 "0 :: int"], of "replicate 50 7"] by (simp add: ex_ring_def)
  moreover have "replicate 60 (7 :: int) = replicate 50 7 @ replicate 10 7" by (simp flip: replicate_add)
  ultimately have "views_stream ex_env (replicate 60 7)" unfolding views_stream_def ex_env_def by auto
  from isolated_samples_are_stream [OF this _ refl, of ex_batch ex_settings 0 worker_new]
  have "outs_of_stream (ie_channelize ex_env) ex_settings ex_batch (replicate 60 7) (set (ib_candidates ex_batch))
      (iw_outs (process_batch ex_env ex_settings 0 ex_batch worker_new))" by (simp add: ex_batch_def worker_new_def)
  moreover have "length (iw_outs (process_batch ex_env ex_settings 0 ex_batch worker_new)) = 1" by code_simp
  ultimately show ?thesis unfolding Let_def by blast
qed

end
