(* ===== verification/Bisect.thy ===== *)
theory Bisect
  imports Prelude "HOL-Library.Multiset"
begin

text \<open>
  Python's \<open>bisect\<close> and \<open>heapq.merge\<close> on sorted lists, and what a list kept
  sorted by them holds.
\<close>

section \<open>Insertion and removal\<close>

definition bisect_left :: "'a :: linorder list \<Rightarrow> 'a \<Rightarrow> nat" where
  "bisect_left xs x = length (takeWhile (\<lambda>y. y < x) xs)"

definition bisect_insort :: "'a :: linorder list \<Rightarrow> 'a \<Rightarrow> 'a list" where
  "bisect_insort xs x = takeWhile (\<lambda>y. y \<le> x) xs @ x # dropWhile (\<lambda>y. y \<le> x) xs"

definition remove_sorted :: "'a :: linorder list \<Rightarrow> 'a \<Rightarrow> 'a list" where
  "remove_sorted order key = (let i = bisect_left order key in
     if i < length order \<and> order ! i = key then take i order @ drop (i + 1) order else order)"

lemma sort_unique: "sorted xs \<Longrightarrow> mset xs = mset ys \<Longrightarrow> xs = sort (ys :: 'a :: linorder list)"
  by (metis properties_for_sort)

lemma mset_bisect_insort: "mset (bisect_insort xs x) = add_mset x (mset xs)"
proof -
  have "mset xs = mset (takeWhile (\<lambda>y. y \<le> x) xs) + mset (dropWhile (\<lambda>y. y \<le> x) xs)"
    by (simp flip: mset_append)
  then show ?thesis by (simp add: bisect_insort_def)
qed

lemma sorted_bisect_insort:
  assumes "sorted xs" shows "sorted (bisect_insort xs x)"
proof -
  have s: "sorted (takeWhile (\<lambda>y. y \<le> x) xs)" "sorted (dropWhile (\<lambda>y. y \<le> x) xs)"
    using assms by (simp_all add: sorted_takeWhile sorted_dropWhile)
  have "x \<le> y" if y: "y \<in> set (dropWhile (\<lambda>y. y \<le> x) xs)" for y
  proof -
    obtain z zs where d: "dropWhile (\<lambda>y. y \<le> x) xs = z # zs" using y by (cases "dropWhile (\<lambda>y. y \<le> x) xs") auto
    then have "\<not> z \<le> x" using hd_dropWhile [of "\<lambda>y. y \<le> x" xs] by simp
    moreover have "z \<le> y" using s(2) y unfolding d by auto
    ultimately show ?thesis by simp
  qed
  moreover have "y \<le> x" if "y \<in> set (takeWhile (\<lambda>y. y \<le> x) xs)" for y using set_takeWhileD [OF that] by simp
  ultimately show ?thesis using s by (fastforce simp: bisect_insort_def sorted_append)
qed

lemma bisect_insort_sort: "bisect_insort (sort xs) x = sort (x # xs)"
  by (rule sort_unique) (simp_all add: sorted_bisect_insort mset_bisect_insort)

lemma remove_sorted_Cons:
  "remove_sorted (y # ys) x = (if y < x then y # remove_sorted ys x else if y = x then ys else y # ys)"
  by (simp add: remove_sorted_def bisect_left_def Let_def)

lemma remove_sorted_remove1: "sorted xs \<Longrightarrow> remove_sorted xs x = remove1 x xs"
proof (induction xs)
  case (Cons y ys)
  have "x \<notin> set ys" if "\<not> y < x" "y \<noteq> x" using that Cons.prems by fastforce
  then show ?case using Cons by (auto simp: remove_sorted_Cons remove1_idem)
qed (simp add: remove_sorted_def)

lemma sorted_remove_sorted: "sorted xs \<Longrightarrow> sorted (remove_sorted xs x)"
  by (simp add: remove_sorted_remove1 sorted_remove1)

lemma mset_remove_sorted: "sorted xs \<Longrightarrow> mset (remove_sorted xs x) = mset xs - {#x#}"
  by (simp add: remove_sorted_remove1)

section \<open>Merging, greatest first\<close>

fun merge_desc :: "'a :: linorder list \<Rightarrow> 'a list \<Rightarrow> 'a list" where
  "merge_desc [] ys = ys"
| "merge_desc xs [] = xs"
| "merge_desc (x # xs) (y # ys) = (if y \<le> x then x # merge_desc xs (y # ys) else y # merge_desc (x # xs) ys)"

lemma mset_merge_desc: "mset (merge_desc xs ys) = mset xs + mset ys"
  by (induction xs ys rule: merge_desc.induct) auto

lemma set_merge_desc: "set (merge_desc xs ys) = set xs \<union> set ys"
  by (metis mset_merge_desc set_mset_mset set_mset_union)

lemma sorted_merge_desc: "sorted_wrt (\<ge>) xs \<Longrightarrow> sorted_wrt (\<ge>) ys \<Longrightarrow> sorted_wrt (\<ge>) (merge_desc xs ys)"
  by (induction xs ys rule: merge_desc.induct) (fastforce simp: set_merge_desc)+

lemma merge_desc_sort: "merge_desc (rev (sort xs)) (rev (sort ys)) = rev (sort (xs @ ys))"
proof -
  have d: "sorted_wrt (\<ge>) (rev (sort zs))" for zs :: "'a list" by (simp add: sorted_wrt_rev)
  have "sorted (rev (merge_desc (rev (sort xs)) (rev (sort ys))))"
    using sorted_merge_desc [OF d d, of xs ys] by (simp add: sorted_wrt_rev)
  then have "rev (merge_desc (rev (sort xs)) (rev (sort ys))) = sort (xs @ ys)"
    by (rule sort_unique) (simp add: mset_merge_desc)
  then show ?thesis by (metis rev_rev_ident)
qed

end
