(* ===== verification/Local_Storage.thy ===== *)
theory Local_Storage
  imports Bisect Dicts "HOL-Library.Product_Lexorder" "HOL-Library.List_Lexorder" "HOL-Library.Char_ord"
begin

text \<open>
  \<open>storage/local.py\<close>: the captures on the disk, the index of them in memory, and the
  eviction that keeps them within the cap and the volume's free space. A capture is a
  \<open>.sc16\<close> file with companion files of the same base name, in the folder \<open>auto\<close> (evicted)
  or \<open>manual\<close> (kept). Every section under the lock is one step; times are exact rationals.
\<close>

section \<open>Folders, names and files\<close>

datatype cap_dir = Root | Auto | Manual

text \<open>Paths compare as their text: the folders by name, in a folder the files by name.\<close>

fun dir_rank :: "cap_dir \<Rightarrow> nat" where
  "dir_rank Root = 0" | "dir_rank Auto = 1" | "dir_rank Manual = 2"

instantiation cap_dir :: linorder
begin

definition less_eq_cap_dir :: "cap_dir \<Rightarrow> cap_dir \<Rightarrow> bool" where "less_eq_cap_dir a b \<longleftrightarrow> dir_rank a \<le> dir_rank b"
definition less_cap_dir :: "cap_dir \<Rightarrow> cap_dir \<Rightarrow> bool" where "less_cap_dir a b \<longleftrightarrow> dir_rank a < dir_rank b"

instance
proof
  fix a b c :: cap_dir
  show "a < b \<longleftrightarrow> a \<le> b \<and> \<not> b \<le> a" by (auto simp: less_eq_cap_dir_def less_cap_dir_def)
  show "a \<le> a" by (simp add: less_eq_cap_dir_def)
  show "a \<le> b \<Longrightarrow> b \<le> c \<Longrightarrow> a \<le> c" by (simp add: less_eq_cap_dir_def)
  show "a \<le> b \<Longrightarrow> b \<le> a \<Longrightarrow> a = b" by (cases a; cases b) (simp_all add: less_eq_cap_dir_def)
  show "a \<le> b \<or> b \<le> a" by (auto simp: less_eq_cap_dir_def)
qed

end

type_synonym cap_path = "cap_dir \<times> string"

text \<open>The files of the storage with their modification times and sizes.\<close>

type_synonym files = "(cap_path \<times> (rat \<times> int)) list"

definition SC16 :: string where "SC16 = ''.sc16''"
definition PRIORITY_SUFFIX :: string where "PRIORITY_SUFFIX = ''.priority''"

definition COMPANION_SUFFIXES :: "string list" where
  "COMPANION_SUFFIXES = [''.json'', ''.psd'', ''.psd.json'', ''.detections.json'', ''.npz'', PRIORITY_SUFFIX]"

text \<open>\<open>sorted(..., key=len, reverse=True)\<close>: longest first, equals in their order.\<close>

definition SUFFIXES_LONGEST_FIRST :: "string list" where
  "SUFFIXES_LONGEST_FIRST = sort_key (\<lambda>s. - int (length s)) COMPANION_SUFFIXES"

definition starts_with :: "string \<Rightarrow> string \<Rightarrow> bool" where
  "starts_with s p \<longleftrightarrow> take (length p) s = p"

definition ends_with :: "string \<Rightarrow> string \<Rightarrow> bool" where
  "ends_with s suf \<longleftrightarrow> length suf \<le> length s \<and> drop (length s - length suf) s = suf"

definition chop :: "string \<Rightarrow> string \<Rightarrow> string" where
  "chop suf s = take (length s - length suf) s"

fun occurs_in :: "string \<Rightarrow> string \<Rightarrow> bool" where
  "occurs_in p [] = (p = [])"
| "occurs_in p (c # s) = (starts_with (c # s) p \<or> occurs_in p s)"

record cap_entry =
  ce_path :: cap_path
  ce_mtime :: rat
  ce_size :: int
  ce_priority :: bool

definition dir_name :: "cap_dir \<Rightarrow> string" where
  "dir_name d = (case d of Root \<Rightarrow> [] | Auto \<Rightarrow> ''auto'' | Manual \<Rightarrow> ''manual'')"

definition capture_origin :: "string \<Rightarrow> string \<Rightarrow> string" where
  "capture_origin name dir_origin = (if occurs_in ''-sched-'' (chop SC16 name) then ''scheduled'' else dir_origin)"

definition entry_origin :: "cap_entry \<Rightarrow> string" where
  "entry_origin e = capture_origin (snd (ce_path e)) (dir_name (fst (ce_path e)))"

definition capture_base :: "string \<Rightarrow> string option" where
  "capture_base name =
     (if ends_with name SC16 then Some (chop SC16 name)
      else map_option (\<lambda>suf. chop suf name) (find (ends_with name) SUFFIXES_LONGEST_FIRST))"

definition is_active_capture :: "string \<Rightarrow> string list \<Rightarrow> bool" where
  "is_active_capture name active_names \<longleftrightarrow> list_ex (\<lambda>a.
     let stem = (if ends_with a SC16 then chop SC16 a else a)
     in name = a \<or> (starts_with name (stem @ ''_drop'') \<and> ends_with name SC16)) active_names"

section \<open>The index\<close>

record storage =
  ls_max_bytes :: int
  ls_entries :: "(cap_path \<times> cap_entry) list"
  ls_order :: "cap_dir \<Rightarrow> (rat \<times> cap_path) list"
  ls_bytes :: "cap_dir \<Rightarrow> int"
  ls_prio_order :: "(rat \<times> cap_path) list"
  ls_prio_bytes :: int
  ls_priority_share :: rat

definition entry_key :: "cap_entry \<Rightarrow> rat \<times> cap_path" where "entry_key e = (ce_mtime e, ce_path e)"

definition entry_dir :: "cap_entry \<Rightarrow> cap_dir" where "entry_dir e = fst (ce_path e)"

definition is_auto_priority :: "cap_entry \<Rightarrow> bool" where
  "is_auto_priority e \<longleftrightarrow> ce_priority e \<and> entry_dir e = Auto"

definition remove_entry :: "cap_path \<Rightarrow> storage \<Rightarrow> cap_entry option \<times> storage" where
  "remove_entry p s = (case map_of (ls_entries s) p of
     None \<Rightarrow> (None, s)
   | Some e \<Rightarrow>
       let d = entry_dir e; key = entry_key e;
           s = s\<lparr>ls_entries := dict_del p (ls_entries s), ls_order := (ls_order s)(d := remove_sorted (ls_order s d) key),
             ls_bytes := (ls_bytes s)(d := ls_bytes s d - ce_size e)\<rparr>
       in (Some e, if is_auto_priority e
            then s\<lparr>ls_prio_order := remove_sorted (ls_prio_order s) key, ls_prio_bytes := ls_prio_bytes s - ce_size e\<rparr>
            else s))"

definition add_entry :: "cap_entry \<Rightarrow> storage \<Rightarrow> storage" where
  "add_entry e s =
     (let d = entry_dir e; key = entry_key e;
          s = s\<lparr>ls_entries := dict_set (ce_path e) e (ls_entries s), ls_order := (ls_order s)(d := bisect_insort (ls_order s d) key),
            ls_bytes := (ls_bytes s)(d := ls_bytes s d + ce_size e)\<rparr>
      in if is_auto_priority e
         then s\<lparr>ls_prio_order := bisect_insort (ls_prio_order s) key, ls_prio_bytes := ls_prio_bytes s + ce_size e\<rparr>
         else s)"

definition forget :: "cap_path \<Rightarrow> storage \<Rightarrow> storage" where "forget p s = snd (remove_entry p s)"

text \<open>One pass over a folder's files.\<close>

definition scan_file :: "cap_dir \<Rightarrow> cap_path \<times> (rat \<times> int) \<Rightarrow>
    (string \<times> int) list \<times> (string \<times> rat) list \<times> string list \<Rightarrow> (string \<times> int) list \<times> (string \<times> rat) list \<times> string list" where
  "scan_file d = (\<lambda>((dir, name), (mtime, n)) (sizes, mtimes, marked).
     if dir \<noteq> d then (sizes, mtimes, marked)
     else case capture_base name of
       None \<Rightarrow> (sizes, mtimes, marked)
     | Some base \<Rightarrow>
         (dict_set base ((case map_of sizes base of None \<Rightarrow> 0 | Some m \<Rightarrow> m) + n) sizes,
          if ends_with name SC16 then dict_set base mtime mtimes else mtimes,
          if \<not> ends_with name SC16 \<and> ends_with name PRIORITY_SUFFIX then base # marked else marked))"

definition scan_dir :: "cap_dir \<Rightarrow> files \<Rightarrow> (cap_path \<times> cap_entry) list" where
  "scan_dir d fs = (let (sizes, mtimes, marked) = fold (scan_file d) fs ([], [], [])
     in map (\<lambda>(base, mtime). ((d, base @ SC16), \<lparr>ce_path = (d, base @ SC16), ce_mtime = mtime,
          ce_size = (case map_of sizes base of None \<Rightarrow> 0 | Some n \<Rightarrow> n), ce_priority = base \<in> set marked\<rparr>)) mtimes)"

definition count_entry :: "cap_entry \<Rightarrow> storage \<Rightarrow> storage" where
  "count_entry e s =
     (let d = entry_dir e;
          s = s\<lparr>ls_order := (ls_order s)(d := ls_order s d @ [entry_key e]), ls_bytes := (ls_bytes s)(d := ls_bytes s d + ce_size e)\<rparr>
      in if is_auto_priority e
         then s\<lparr>ls_prio_order := ls_prio_order s @ [entry_key e], ls_prio_bytes := ls_prio_bytes s + ce_size e\<rparr>
         else s)"

definition rebuild_captures :: "files \<Rightarrow> storage \<Rightarrow> nat \<times> storage" where
  "rebuild_captures fs s =
     (let entries = scan_dir Auto fs @ scan_dir Manual fs;
          s = fold count_entry (map snd entries)
            (s\<lparr>ls_entries := entries, ls_order := (\<lambda>_. []), ls_bytes := (\<lambda>_. 0), ls_prio_order := [], ls_prio_bytes := 0\<rparr>)
      in (length entries, s\<lparr>ls_order := (\<lambda>d. sort (ls_order s d)), ls_prio_order := sort (ls_prio_order s)\<rparr>))"

section \<open>Measuring, marking and listing captures\<close>

definition companion_paths :: "cap_path \<Rightarrow> cap_path list" where
  "companion_paths p = map (\<lambda>suf. (fst p, chop SC16 (snd p) @ suf)) COMPANION_SUFFIXES"

definition file_size :: "files \<Rightarrow> cap_path \<Rightarrow> int" where
  "file_size fs f = (case map_of fs f of None \<Rightarrow> 0 | Some (_, n) \<Rightarrow> n)"

definition capture_size :: "files \<Rightarrow> cap_path \<Rightarrow> int" where
  "capture_size fs p = file_size fs p + (\<Sum>f \<leftarrow> companion_paths p. file_size fs f)"

definition marker_path :: "cap_path \<Rightarrow> cap_path" where
  "marker_path p = (fst p, chop SC16 (snd p) @ PRIORITY_SUFFIX)"

text \<open>
  \<open>track\<close> measures the capture first and takes the lock afterwards, so other steps may
  come between; \<open>None\<close> when its \<open>.sc16\<close> file is gone.
\<close>

definition track_measure :: "files \<Rightarrow> cap_path \<Rightarrow> cap_entry option" where
  "track_measure fs p = (case map_of fs p of
     None \<Rightarrow> None
   | Some (mtime, _) \<Rightarrow> Some \<lparr>ce_path = p, ce_mtime = mtime, ce_size = capture_size fs p,
       ce_priority = map_of fs (marker_path p) \<noteq> None\<rparr>)"

definition track_store :: "cap_path \<Rightarrow> cap_entry option \<Rightarrow> storage \<Rightarrow> storage" where
  "track_store p m s = (case m of None \<Rightarrow> forget p s | Some e \<Rightarrow> add_entry e (forget p s))"

definition track_capture :: "files \<Rightarrow> cap_path \<Rightarrow> storage \<Rightarrow> cap_entry option \<times> storage" where
  "track_capture fs p s = (if fst p = Root then (None, s)
     else (track_measure fs p, track_store p (track_measure fs p) s))"

text \<open>The three parts of marking one capture: the check, the marker file, the index.\<close>

definition mark_check :: "cap_path \<Rightarrow> storage \<Rightarrow> bool" where
  "mark_check p s \<longleftrightarrow> (case map_of (ls_entries s) p of
     None \<Rightarrow> False | Some e \<Rightarrow> \<not> ce_priority e \<and> entry_dir e = Auto)"

definition touch :: "rat \<Rightarrow> cap_path \<Rightarrow> files \<Rightarrow> files" where
  "touch now f fs = dict_set f (now, file_size fs f) fs"

definition mark_store :: "cap_path \<Rightarrow> storage \<times> files \<Rightarrow> bool \<times> storage \<times> files" where
  "mark_store p = (\<lambda>(s, fs). case map_of (ls_entries s) p of
     None \<Rightarrow> (False, s, dict_del (marker_path p) fs)
   | Some e \<Rightarrow> if ce_priority e then (False, s, fs)
       else (True, add_entry (e\<lparr>ce_priority := True\<rparr>) (forget p s), fs))"

fun mark_priority :: "(cap_path \<Rightarrow> bool) \<Rightarrow> rat \<Rightarrow> cap_path list \<Rightarrow> storage \<times> files \<Rightarrow> cap_path list \<times> storage \<times> files" where
  "mark_priority touch_ok now [] sf = ([], sf)"
| "mark_priority touch_ok now (p # ps) (s, fs) =
     (if \<not> mark_check p s \<or> \<not> touch_ok p then mark_priority touch_ok now ps (s, fs)
      else let (m, sf) = mark_store p (s, touch now (marker_path p) fs);
               (ms, sf) = mark_priority touch_ok now ps sf
           in (if m then p # ms else ms, sf))"

definition auto_captures_since :: "rat \<Rightarrow> storage \<Rightarrow> cap_path list" where
  "auto_captures_since mtime s = map snd (dropWhile (\<lambda>(t, _). t < mtime) (ls_order s Auto))"

definition origin_in :: "string list option \<Rightarrow> cap_entry \<Rightarrow> bool" where
  "origin_in origins e \<longleftrightarrow> (case origins of None \<Rightarrow> True | Some os \<Rightarrow> entry_origin e \<in> set os)"

definition capture_count :: "string list option \<Rightarrow> storage \<Rightarrow> nat" where
  "capture_count origins s = length (filter (\<lambda>(_, e). origin_in origins e) (ls_entries s))"

definition captures_newest_first :: "nat \<Rightarrow> nat option \<Rightarrow> string list option \<Rightarrow> storage \<Rightarrow> cap_entry list" where
  "captures_newest_first offset limit origins s =
     (let merged = merge_desc (rev (ls_order s Auto)) (rev (ls_order s Manual));
          entries = filter (origin_in origins) (map (\<lambda>(_, p). the (map_of (ls_entries s) p)) merged);
          rest = drop offset entries
      in case limit of None \<Rightarrow> rest | Some n \<Rightarrow> take n rest)"

section \<open>Deleting and evicting\<close>

record store_world =
  sw_index :: storage
  sw_files :: files
  sw_told :: "(string \<times> int) list"

text \<open>\<open>unlink_ok f\<close> says whether \<open>f\<close> can be unlinked, \<open>hooked\<close> whether \<open>on_deleted\<close> is set.\<close>

definition unlink_all :: "(cap_path \<Rightarrow> bool) \<Rightarrow> cap_path list \<Rightarrow> files \<Rightarrow> files" where
  "unlink_all unlink_ok = fold (\<lambda>f fs. if unlink_ok f then dict_del f fs else fs)"

definition delete_capture ::
  "(cap_path \<Rightarrow> bool) \<Rightarrow> bool \<Rightarrow> cap_path \<Rightarrow> string option \<Rightarrow> store_world \<Rightarrow> int \<times> store_world" where
  "delete_capture unlink_ok hooked p reason w =
     (let (entry, s) = remove_entry p (sw_index w);
          freed = (case entry of Some e \<Rightarrow> ce_size e | None \<Rightarrow> capture_size (sw_files w) p);
          sc16_bytes = file_size (sw_files w) p;
          told = (case reason of
            None \<Rightarrow> sw_told w
          | Some r \<Rightarrow> if hooked \<and> entry \<noteq> None then sw_told w @ [(r, sc16_bytes)] else sw_told w)
      in (freed, \<lparr>sw_index = s, sw_files = unlink_all unlink_ok (p # companion_paths p) (sw_files w), sw_told = told\<rparr>))"

definition priority_cap_bytes :: "storage \<Rightarrow> int" where
  "priority_cap_bytes s = py_int (of_int (ls_max_bytes s) * min 1 (max 0 (ls_priority_share s)))"

definition first_not :: "cap_path \<Rightarrow> (rat \<times> cap_path) list \<Rightarrow> cap_path option" where
  "first_not exclude order = map_option snd (find (\<lambda>(_, p). p \<noteq> exclude) order)"

definition oldest_ordinary :: "cap_path \<Rightarrow> storage \<Rightarrow> cap_path option" where
  "oldest_ordinary exclude s = map_option snd (find (\<lambda>(_, p). p \<noteq> exclude \<and>
     (case map_of (ls_entries s) p of None \<Rightarrow> False | Some e \<Rightarrow> \<not> ce_priority e)) (ls_order s Auto))"

definition cap_victim :: "cap_path \<Rightarrow> storage \<Rightarrow> cap_path option" where
  "cap_victim exclude s =
     (if ls_priority_share s \<le> 0 then first_not exclude (ls_order s Auto)
      else
        let oldest_prio = first_not exclude (ls_prio_order s)
        in if priority_cap_bytes s < ls_prio_bytes s \<and> oldest_prio \<noteq> None then oldest_prio
           else case oldest_ordinary exclude s of Some p \<Rightarrow> Some p | None \<Rightarrow> oldest_prio)"

definition within_cap :: "storage \<Rightarrow> bool" where
  "within_cap s \<longleftrightarrow> ls_bytes s Auto \<le> ls_max_bytes s \<or> length (ls_order s Auto) \<le> 1"

definition cap_next :: "storage \<Rightarrow> cap_path option" where
  "cap_next s = (if within_cap s then None else cap_victim (snd (last (ls_order s Auto))) s)"

text \<open>The loop of \<open>enforce_cap\<close>; not returning would be \<open>None\<close>.\<close>

partial_function (option) enforce_cap :: "(cap_path \<Rightarrow> bool) \<Rightarrow> bool \<Rightarrow> store_world \<Rightarrow> store_world option" where
  "enforce_cap unlink_ok hooked w = (case cap_next (sw_index w) of
     None \<Rightarrow> Some w
   | Some v \<Rightarrow> enforce_cap unlink_ok hooked (snd (delete_capture unlink_ok hooked v (Some ''cap'') w)))"

definition auto_oldest_first :: "storage \<Rightarrow> cap_entry list" where
  "auto_oldest_first s =
     (let entries = map (\<lambda>(_, p). the (map_of (ls_entries s) p)) (ls_order s Auto)
      in if ls_priority_share s \<le> 0 then entries
         else filter (\<lambda>e. \<not> ce_priority e) entries @ filter ce_priority entries)"

text \<open>
  What \<open>evict_until_free\<close> is given: the names of the active captures in the snapshot, the
  ones asked for right before the delete of number \<open>i\<close>, the age limit, and the free space
  that is read before number \<open>i\<close>.
\<close>

record evict_env =
  ev_exclude :: "string list"
  ev_active :: "nat \<Rightarrow> string list"
  ev_not_after :: "rat option"
  ev_free :: "nat \<Rightarrow> int"
  ev_unlink_ok :: "cap_path \<Rightarrow> bool"
  ev_hooked :: bool
  ev_now :: "nat \<Rightarrow> rat"

definition protected_capture :: "evict_env \<Rightarrow> nat \<Rightarrow> cap_entry \<Rightarrow> bool" where
  "protected_capture ev i e \<longleftrightarrow> is_active_capture (snd (ce_path e)) (ev_exclude ev) \<or>
     (case ev_not_after ev of None \<Rightarrow> False | Some t \<Rightarrow> t \<le> ce_mtime e) \<or>
     is_active_capture (snd (ce_path e)) (ev_active ev i)"

fun evict_loop :: "evict_env \<Rightarrow> int \<Rightarrow> nat \<Rightarrow> cap_entry list \<Rightarrow> store_world \<Rightarrow> (cap_path \<times> rat) list \<times> int \<times> store_world" where
  "evict_loop ev target i [] w = ([], 0, w)"
| "evict_loop ev target i (e # es) w =
     (if target \<le> ev_free ev i then ([], 0, w)
      else if protected_capture ev i e then evict_loop ev target (Suc i) es w
      else let (n, w) = delete_capture (ev_unlink_ok ev) (ev_hooked ev) (ce_path e) (Some ''space'') w;
               (told, freed, w) = evict_loop ev target (Suc i) es w
           in ((ce_path e, ev_now ev i - ce_mtime e) # told, n + freed, w))"

definition evict_until_free :: "evict_env \<Rightarrow> int \<Rightarrow> store_world \<Rightarrow> (cap_path \<times> rat) list \<times> int \<times> store_world" where
  "evict_until_free ev target w = evict_loop ev target 0 (auto_oldest_first (sw_index w)) w"

text \<open>What the governor's sample says of the captures.\<close>

definition sample_evictable :: "string list \<Rightarrow> rat option \<Rightarrow> storage \<Rightarrow> bool" where
  "sample_evictable active_names not_after s = list_ex (\<lambda>(mtime, p).
     \<not> is_active_capture (snd p) active_names \<and> (case not_after of None \<Rightarrow> True | Some t \<Rightarrow> mtime < t)) (ls_order s Auto)"

section \<open>The index is that of its entries\<close>

definition vals :: "(cap_path \<times> cap_entry) list \<Rightarrow> cap_entry multiset" where
  "vals es = mset (map snd es)"

definition keyed :: "(cap_path \<times> cap_entry) list \<Rightarrow> bool" where
  "keyed es \<longleftrightarrow> distinct (map fst es) \<and> (\<forall>(p, e) \<in> set es. ce_path e = p)"

definition keys_in :: "cap_dir \<Rightarrow> cap_entry multiset \<Rightarrow> (rat \<times> cap_path) multiset" where
  "keys_in d es = image_mset entry_key (filter_mset (\<lambda>e. entry_dir e = d) es)"

definition bytes_in :: "cap_dir \<Rightarrow> cap_entry multiset \<Rightarrow> int" where
  "bytes_in d es = (\<Sum>e \<in># filter_mset (\<lambda>e. entry_dir e = d) es. ce_size e)"

definition prio_keys :: "cap_entry multiset \<Rightarrow> (rat \<times> cap_path) multiset" where
  "prio_keys es = image_mset entry_key (filter_mset is_auto_priority es)"

definition prio_sum :: "cap_entry multiset \<Rightarrow> int" where
  "prio_sum es = (\<Sum>e \<in># filter_mset is_auto_priority es. ce_size e)"

lemma per_entry [simp]:
  "keys_in d {#} = {#}" "keys_in d (add_mset e es) = (if entry_dir e = d then add_mset (entry_key e) (keys_in d es) else keys_in d es)"
  "bytes_in d {#} = 0" "bytes_in d (add_mset e es) = (if entry_dir e = d then ce_size e else 0) + bytes_in d es"
  "prio_keys {#} = {#}" "prio_keys (add_mset e es) = (if is_auto_priority e then add_mset (entry_key e) (prio_keys es) else prio_keys es)"
  "prio_sum {#} = 0" "prio_sum (add_mset e es) = (if is_auto_priority e then ce_size e else 0) + prio_sum es"
  by (simp_all add: keys_in_def bytes_in_def prio_keys_def prio_sum_def)

definition store_ok :: "storage \<Rightarrow> bool" where
  "store_ok s \<longleftrightarrow> keyed (ls_entries s) \<and>
     (\<forall>d. sorted (ls_order s d) \<and> mset (ls_order s d) = keys_in d (vals (ls_entries s)) \<and>
        ls_bytes s d = bytes_in d (vals (ls_entries s))) \<and>
     sorted (ls_prio_order s) \<and> mset (ls_prio_order s) = prio_keys (vals (ls_entries s)) \<and>
     ls_prio_bytes s = prio_sum (vals (ls_entries s))"

lemma vals_del:
  assumes "keyed es" "map_of es p = Some e"
  shows "vals es = add_mset e (vals (dict_del p es))"
proof -
  obtain xs ys where es: "es = xs @ (p, e) # ys" using map_of_SomeD [OF assms(2)] by (auto dest: split_list)
  have "p \<notin> fst ` set xs" "p \<notin> fst ` set ys" using assms(1) by (auto simp: keyed_def es)
  then have "filter (\<lambda>(k, _). k \<noteq> p) xs = xs" "filter (\<lambda>(k, _). k \<noteq> p) ys = ys"
    by (force simp: filter_id_conv)+
  then show ?thesis by (simp add: vals_def es dict_del_def)
qed

lemma keyed_del: "keyed es \<Longrightarrow> keyed (dict_del p es)"
  by (auto simp: keyed_def distinct_dict_del) (auto simp: dict_del_def)

lemma keyed_set: "keyed es \<Longrightarrow> keyed (dict_set (ce_path e) e es)"
  using set_dict_set [of "ce_path e" e es] by (auto simp: keyed_def distinct_dict_set)

lemma vals_set: "map_of es (ce_path e) = None \<Longrightarrow> vals (dict_set (ce_path e) e es) = add_mset e (vals es)"
  by (simp add: dict_set_def vals_def map_of_eq_None_iff)

lemma entry_path: "keyed es \<Longrightarrow> map_of es p = Some e \<Longrightarrow> ce_path e = p"
  by (auto simp: keyed_def dest: map_of_SomeD)

lemma store_ok_remove:
  assumes ok: "store_ok s"
  shows "store_ok (forget p s)"
proof (cases "map_of (ls_entries s) p")
  case None
  then show ?thesis using ok by (simp add: forget_def remove_entry_def)
next
  case (Some e)
  have k: "keyed (ls_entries s)" using ok by (simp add: store_ok_def)
  note v = vals_del [OF k Some] and kd = keyed_del [OF k, of p]
  show ?thesis
    using ok kd by (auto simp: store_ok_def forget_def remove_entry_def Some Let_def v sorted_remove_sorted mset_remove_sorted)
qed

lemma store_ok_add:
  assumes ok: "store_ok s" and new: "map_of (ls_entries s) (ce_path e) = None"
  shows "store_ok (add_entry e s)"
proof -
  have k: "keyed (ls_entries s)" using ok by (simp add: store_ok_def)
  note v = vals_set [OF new] and ks = keyed_set [OF k, of e]
  show ?thesis
    using ok ks by (auto simp: store_ok_def add_entry_def Let_def v sorted_bisect_insort mset_bisect_insort)
qed

lemma forget_entries: "ls_entries (forget p s) = dict_del p (ls_entries s)"
proof (cases "map_of (ls_entries s) p")
  case None
  then have "dict_del p (ls_entries s) = ls_entries s"
    unfolding dict_del_def by (intro filter_True) (force simp: map_of_eq_None_iff)
  then show ?thesis by (simp add: forget_def remove_entry_def None)
qed (simp add: forget_def remove_entry_def Let_def)

lemma forget_gone: "map_of (ls_entries (forget p s)) p = None"
  by (simp add: forget_entries map_of_dict_del)

lemma store_ok_replace: "store_ok s \<Longrightarrow> ce_path e = p \<Longrightarrow> store_ok (add_entry e (forget p s))"
  by (rule store_ok_add [OF store_ok_remove]) (simp_all add: forget_gone)

lemma store_ok_mark:
  assumes "store_ok s" "mark_store p (s, fs) = (m, s', fs')"
  shows "store_ok s'"
proof (cases "map_of (ls_entries s) p")
  case (Some e)
  have "ce_path e = p" using entry_path [OF _ Some] assms(1) by (simp add: store_ok_def)
  then have "store_ok (add_entry (e\<lparr>ce_priority := True\<rparr>) (forget p s))" using store_ok_replace [OF assms(1), of "e\<lparr>ce_priority := True\<rparr>" p] by simp
  then show ?thesis using assms Some by (auto simp: mark_store_def split: if_splits)
qed (use assms in \<open>simp add: mark_store_def\<close>)

lemma fold_count_entry:
  "(\<forall>d. ls_bytes (fold count_entry es s) d = ls_bytes s d + bytes_in d (mset es) \<and>
     mset (ls_order (fold count_entry es s) d) = mset (ls_order s d) + keys_in d (mset es)) \<and>
   mset (ls_prio_order (fold count_entry es s)) = mset (ls_prio_order s) + prio_keys (mset es) \<and>
   ls_prio_bytes (fold count_entry es s) = ls_prio_bytes s + prio_sum (mset es) \<and>
   ls_entries (fold count_entry es s) = ls_entries s \<and> ls_max_bytes (fold count_entry es s) = ls_max_bytes s \<and>
   ls_priority_share (fold count_entry es s) = ls_priority_share s"
  by (induction es arbitrary: s) (auto simp: count_entry_def Let_def)

lemma store_ok_rebuild:
  assumes "keyed (scan_dir Auto fs @ scan_dir Manual fs)"
  shows "store_ok (snd (rebuild_captures fs s))"
  using assms fold_count_entry [of "map snd (scan_dir Auto fs @ scan_dir Manual fs)"
      "s\<lparr>ls_entries := scan_dir Auto fs @ scan_dir Manual fs, ls_order := (\<lambda>_. []), ls_bytes := (\<lambda>_. 0), ls_prio_order := [], ls_prio_bytes := 0\<rparr>"]
  by (simp add: store_ok_def rebuild_captures_def Let_def vals_def)

section \<open>Names\<close>

lemma ends_with_iff: "ends_with s suf \<longleftrightarrow> (\<exists>p. s = p @ suf)"
  unfolding ends_with_def by (metis append_take_drop_id diff_diff_cancel length_append append_eq_conv_conj le_add2 add_diff_cancel_right')

lemma chop_append [simp]: "chop suf (b @ suf) = b"
  by (simp add: chop_def)

lemma ends_with_chop: "ends_with s suf \<Longrightarrow> chop suf s @ suf = s"
  by (auto simp: ends_with_iff)

lemma ends_with_append:
  "length suf \<le> length s \<Longrightarrow> ends_with (b @ s) suf \<longleftrightarrow> ends_with s suf"
  "length s \<le> length suf \<Longrightarrow> ends_with (b @ s) suf \<longleftrightarrow> ends_with suf s \<and> ends_with b (chop s suf)"
proof -
  show "length suf \<le> length s \<Longrightarrow> ends_with (b @ s) suf \<longleftrightarrow> ends_with s suf"
    by (simp add: ends_with_def)
  assume l: "length s \<le> length suf"
  show "ends_with (b @ s) suf \<longleftrightarrow> ends_with suf s \<and> ends_with b (chop s suf)"
  proof
    assume "ends_with (b @ s) suf"
    then obtain p where p: "b @ s = p @ suf" by (auto simp: ends_with_iff)
    then obtain t where "b = p @ t \<and> t @ s = suf \<or> b @ t = p \<and> s = t @ suf" by (auto simp: append_eq_append_conv2)
    with l have "\<exists>t. suf = t @ s \<and> b = p @ t" by auto
    then show "ends_with suf s \<and> ends_with b (chop s suf)" by (auto simp: ends_with_iff)
  next
    assume "ends_with suf s \<and> ends_with b (chop s suf)"
    then show "ends_with (b @ s) suf" by (auto simp: ends_with_iff)
  qed
qed

lemma suffixes_longest_first:
  "SUFFIXES_LONGEST_FIRST = [''.detections.json'', ''.psd.json'', PRIORITY_SUFFIX, ''.json'', ''.psd'', ''.npz'']"
  by code_simp

text \<open>A name whose companions could be taken for those of another capture.\<close>

definition plain_base :: "string \<Rightarrow> bool" where
  "plain_base b \<longleftrightarrow> \<not> ends_with b ''.psd'' \<and> \<not> ends_with b ''.detections''"

lemma capture_base_own:
  assumes "plain_base b" "suf \<in> set (SC16 # COMPANION_SUFFIXES)"
  shows "capture_base (b @ suf) = Some b"
proof -
  have no: "\<not> ends_with b ''.psd''" "\<not> ends_with b ''.detections''" using assms(1) by (simp_all add: plain_base_def)
  have c: "chop ''.json'' ''.psd.json'' = ''.psd''" "chop ''.json'' ''.detections.json'' = ''.detections''"
    by (simp_all add: chop_def)
  note f = suffixes_longest_first PRIORITY_SUFFIX_def ends_with_append c
  have own: "capture_base (b @ t) = Some b" if "find (ends_with (b @ t)) SUFFIXES_LONGEST_FIRST = Some t" "\<not> ends_with (b @ t) SC16" for t
    using that by (simp add: capture_base_def)
  have json: "capture_base (b @ ''.json'') = Some b"
    using no by (intro own) (simp_all add: f SC16_def, simp_all add: ends_with_def)
  have psd: "capture_base (b @ ''.psd'') = Some b"
    by (intro own) (simp_all add: f SC16_def, simp_all add: ends_with_def)
  have psd_json: "capture_base (b @ ''.psd.json'') = Some b"
    by (intro own) (simp_all add: f SC16_def, simp_all add: ends_with_def)
  have det: "capture_base (b @ ''.detections.json'') = Some b"
    by (intro own) (simp_all add: f SC16_def, simp_all add: ends_with_def)
  have npz: "capture_base (b @ ''.npz'') = Some b"
    by (intro own) (simp_all add: f SC16_def, simp_all add: ends_with_def)
  have prio: "capture_base (b @ PRIORITY_SUFFIX) = Some b"
    by (intro own) (simp_all add: f SC16_def, simp_all add: ends_with_def)
  have sc16: "capture_base (b @ SC16) = Some b" by (simp add: capture_base_def ends_with_append) (simp add: ends_with_def)
  show ?thesis using assms(2) json psd psd_json det npz prio sc16 by (auto simp: COMPANION_SUFFIXES_def)
qed

lemma capture_base_name:
  assumes "capture_base n = Some b"
  shows "\<exists>suf \<in> set (SC16 # COMPANION_SUFFIXES). n = b @ suf"
proof (cases "ends_with n SC16")
  case True
  then show ?thesis using assms ends_with_chop [OF True] by (auto simp: capture_base_def)
next
  case False
  then obtain suf where f: "find (ends_with n) SUFFIXES_LONGEST_FIRST = Some suf" and b: "b = chop suf n"
    using assms by (auto simp: capture_base_def)
  have "ends_with n suf" "suf \<in> set SUFFIXES_LONGEST_FIRST" using f by (auto simp: find_Some_iff)
  moreover have "set SUFFIXES_LONGEST_FIRST = set COMPANION_SUFFIXES" by (simp add: SUFFIXES_LONGEST_FIRST_def)
  ultimately show ?thesis using b ends_with_chop [of n suf] by (intro bexI [of _ suf]) simp_all
qed

section \<open>A scan measures what tracking measures\<close>

lemma capture_base_sc16: "capture_base name = Some b \<and> ends_with name SC16 \<longleftrightarrow> name = b @ SC16"
proof
  assume "capture_base name = Some b \<and> ends_with name SC16"
  then show "name = b @ SC16" using ends_with_chop [of name SC16] by (auto simp: capture_base_def)
next
  assume "name = b @ SC16"
  then show "capture_base name = Some b \<and> ends_with name SC16" by (auto simp: capture_base_def ends_with_iff)
qed

lemma capture_base_priority:
  "capture_base name = Some b \<and> \<not> ends_with name SC16 \<and> ends_with name PRIORITY_SUFFIX \<longleftrightarrow> name = b @ PRIORITY_SUFFIX"
proof -
  have f: "find (ends_with (c @ PRIORITY_SUFFIX)) SUFFIXES_LONGEST_FIRST = Some PRIORITY_SUFFIX \<and>
      \<not> ends_with (c @ PRIORITY_SUFFIX) SC16" for c
    by (simp add: suffixes_longest_first PRIORITY_SUFFIX_def SC16_def ends_with_append) (simp add: ends_with_def)
  show ?thesis
  proof
    assume a: "capture_base name = Some b \<and> \<not> ends_with name SC16 \<and> ends_with name PRIORITY_SUFFIX"
    then obtain c where c: "name = c @ PRIORITY_SUFFIX" by (auto simp: ends_with_iff)
    then show "name = b @ PRIORITY_SUFFIX" using a f [of c] by (simp add: capture_base_def)
  next
    assume "name = b @ PRIORITY_SUFFIX"
    then show "capture_base name = Some b \<and> \<not> ends_with name SC16 \<and> ends_with name PRIORITY_SUFFIX"
      using f [of b] by (simp add: capture_base_def ends_with_append) (simp add: ends_with_def)
  qed
qed

definition base_size :: "cap_dir \<Rightarrow> string \<Rightarrow> files \<Rightarrow> int" where
  "base_size d b fs = (\<Sum>((dir, name), (_, n)) \<leftarrow> fs. if dir = d \<and> capture_base name = Some b then n else 0)"

lemma base_size_snoc:
  "base_size d b (fs @ [((dir, name), (t, n))]) = base_size d b fs + (if dir = d \<and> capture_base name = Some b then n else 0)"
  by (simp add: base_size_def)

definition held :: "(string \<times> int) list \<Rightarrow> string \<Rightarrow> int" where
  "held sizes b = (case map_of sizes b of None \<Rightarrow> 0 | Some n \<Rightarrow> n)"

lemma map_of_snoc: "k \<notin> fst ` set fs \<Longrightarrow> map_of (fs @ [(k, v)]) = (map_of fs)(k \<mapsto> v)"
  by (induction fs) auto

lemma fold_scan:
  assumes "distinct (map fst fs)" "fold (scan_file d) fs ([], [], []) = (sizes, mtimes, marked)"
  shows "held sizes b = base_size d b fs \<and> map_of mtimes b = map_option fst (map_of fs (d, b @ SC16)) \<and>
    distinct (map fst mtimes) \<and> (b \<in> set marked \<longleftrightarrow> (d, b @ PRIORITY_SUFFIX) \<in> fst ` set fs)"
  using assms
proof (induction fs arbitrary: sizes mtimes marked b rule: rev_induct)
  case Nil
  then show ?case by (simp add: held_def base_size_def)
next
  case (snoc x fs)
  obtain dir name t n where x: "x = ((dir, name), (t, n))" by (metis surj_pair)
  obtain sz mt mk where f: "fold (scan_file d) fs ([], [], []) = (sz, mt, mk)" by (metis surj_pair)
  have new: "(dir, name) \<notin> fst ` set fs" using snoc.prems(1) by (auto simp: x)
  note IH = snoc.IH [OF _ f]
  have d: "distinct (map fst fs)" using snoc.prems(1) by simp
  have step: "scan_file d x (sz, mt, mk) = (sizes, mtimes, marked)" using snoc.prems(2) by (simp add: f)
  have mo: "map_of (fs @ [((dir, name), (t, n))]) (d, b @ SC16) = (if dir = d \<and> name = b @ SC16 then Some (t, n) else map_of fs (d, b @ SC16))"
    using map_of_snoc [OF new, of "(t, n)"] by auto
  have mk: "(d, b @ PRIORITY_SUFFIX) \<in> fst ` set (fs @ [((dir, name), (t, n))]) \<longleftrightarrow> dir = d \<and> name = b @ PRIORITY_SUFFIX \<or> (d, b @ PRIORITY_SUFFIX) \<in> fst ` set fs"
    by auto
  show ?case
    unfolding x
  proof (cases "dir = d \<and> capture_base name \<noteq> None")
    case False
    then have "sizes = sz" "mtimes = mt" "marked = mk" using step by (auto simp: scan_file_def x split: if_splits option.splits)
    moreover have "\<not> (dir = d \<and> name = b @ SC16)" "\<not> (dir = d \<and> name = b @ PRIORITY_SUFFIX)"
      using False capture_base_sc16 [of name b] capture_base_priority [of name b] by auto
    ultimately show "held sizes b = base_size d b (fs @ [((dir, name), (t, n))]) \<and>
        map_of mtimes b = map_option fst (map_of (fs @ [((dir, name), (t, n))]) (d, b @ SC16)) \<and> distinct (map fst mtimes) \<and>
        (b \<in> set marked \<longleftrightarrow> (d, b @ PRIORITY_SUFFIX) \<in> fst ` set (fs @ [((dir, name), (t, n))]))"
      using IH [OF d, of b] False unfolding mo mk base_size_snoc by auto
  next
    case True
    then obtain c where c: "dir = d" "capture_base name = Some c" by auto
    have s: "sizes = dict_set c (held sz c + n) sz" "mtimes = (if ends_with name SC16 then dict_set c t mt else mt)"
        "marked = (if \<not> ends_with name SC16 \<and> ends_with name PRIORITY_SUFFIX then c # mk else mk)"
      using step c by (auto simp: scan_file_def x held_def)
    have "held sizes b = base_size d b (fs @ [((dir, name), (t, n))])"
      using IH [OF d, of b] IH [OF d, of c] c unfolding base_size_snoc s(1) by (auto simp: held_def map_of_dict_set)
    moreover have "map_of mtimes b = map_option fst (map_of (fs @ [((dir, name), (t, n))]) (d, b @ SC16))"
      using IH [OF d, of b] c capture_base_sc16 [of name b] capture_base_sc16 [of name c] unfolding mo s(2) by (auto simp: map_of_dict_set)
    moreover have "distinct (map fst mtimes)" using IH [OF d, of b] unfolding s(2) by (simp add: distinct_dict_set)
    moreover have "b \<in> set marked \<longleftrightarrow> (d, b @ PRIORITY_SUFFIX) \<in> fst ` set (fs @ [((dir, name), (t, n))])"
      using IH [OF d, of b] c capture_base_priority [of name b] capture_base_priority [of name c] unfolding mk s(3) by auto
    ultimately show "held sizes b = base_size d b (fs @ [((dir, name), (t, n))]) \<and>
        map_of mtimes b = map_option fst (map_of (fs @ [((dir, name), (t, n))]) (d, b @ SC16)) \<and> distinct (map fst mtimes) \<and>
        (b \<in> set marked \<longleftrightarrow> (d, b @ PRIORITY_SUFFIX) \<in> fst ` set (fs @ [((dir, name), (t, n))]))" by blast
  qed
qed

lemma scan_dir_keys:
  assumes "distinct (map fst fs)"
  shows "keyed (scan_dir d fs)" "p \<in> fst ` set (scan_dir d fs) \<Longrightarrow> fst p = d"
proof -
  obtain sz mt mk where f: "fold (scan_file d) fs ([], [], []) = (sz, mt, mk)" by (metis surj_pair)
  have "distinct (map fst mt)" using fold_scan [OF assms f, of undefined] by blast
  then have "distinct (map (\<lambda>x. (d, fst x @ SC16)) mt)" by (auto simp: distinct_map inj_on_def)
  then show "keyed (scan_dir d fs)" by (auto simp: keyed_def scan_dir_def f comp_def case_prod_beta)
  show "p \<in> fst ` set (scan_dir d fs) \<Longrightarrow> fst p = d" by (auto simp: scan_dir_def f)
qed

lemma keyed_scans: "distinct (map fst fs) \<Longrightarrow> keyed (scan_dir Auto fs @ scan_dir Manual fs)"
  using scan_dir_keys(1) [of fs Auto] scan_dir_keys(1) [of fs Manual] scan_dir_keys(2) [of fs _ Auto] scan_dir_keys(2) [of fs _ Manual]
  by (fastforce simp: keyed_def)

lemma sum_list_if:
  "distinct ks \<Longrightarrow> g a = 0 \<Longrightarrow> (\<Sum>k \<leftarrow> ks. if k = a then n else g k) = (if a \<in> set ks then n else 0) + (\<Sum>k \<leftarrow> ks. g k)"
  for g :: "'k \<Rightarrow> int"
proof (induction ks)
  case (Cons k ks)
  then show ?case by (cases "k = a") auto
qed simp

lemma sum_files:
  assumes "distinct (map fst fs)" "distinct ks"
  shows "(\<Sum>(k, (_, n)) \<leftarrow> fs. if k \<in> set ks then n else 0) = (\<Sum>k \<leftarrow> ks. file_size fs k)"
  using assms(1)
proof (induction fs)
  case (Cons x fs)
  obtain a t n where x: "x = (a, (t, n))" by (metis surj_pair)
  have fs: "file_size ((a, t, n) # fs) = (\<lambda>k. if k = a then n else file_size fs k)" by (auto simp: file_size_def)
  have "file_size fs a = 0" using Cons.prems map_of_eq_None_iff [of fs a] by (auto simp: x file_size_def)
  from sum_list_if [where g = "file_size fs", OF assms(2) this, of n] show ?case using Cons by (simp add: fs x)
next
  case Nil
  show ?case by (induction ks) (simp_all add: file_size_def)
qed

lemma base_size_capture:
  assumes "distinct (map fst fs)" "plain_base b"
  shows "base_size d b fs = capture_size fs (d, b @ SC16)"
proof -
  let ?ks = "(d, b @ SC16) # companion_paths (d, b @ SC16)"
  have c: "companion_paths (d, b @ SC16) = map (\<lambda>suf. (d, b @ suf)) COMPANION_SUFFIXES" by (simp add: companion_paths_def)
  have dist: "distinct ?ks" unfolding c by (simp add: COMPANION_SUFFIXES_def SC16_def PRIORITY_SUFFIX_def)
  have "dir = d \<and> capture_base name = Some b \<longleftrightarrow> (dir, name) \<in> set ?ks" for dir name
    using capture_base_own [OF assms(2)] capture_base_name [of name b] unfolding c by auto
  then have "base_size d b fs = (\<Sum>(k, (_, n)) \<leftarrow> fs. if k \<in> set ?ks then n else 0)"
    by (auto simp: base_size_def case_prod_beta intro!: arg_cong [where f = sum_list] map_cong)
  then show ?thesis using sum_files [OF assms(1) dist] by (simp add: capture_size_def)
qed

lemma scan_entry:
  assumes "distinct (map fst fs)" "plain_base b"
  shows "map_of (scan_dir d fs) (d, b @ SC16) = track_measure fs (d, b @ SC16)"
proof -
  obtain sz mt mk where f: "fold (scan_file d) fs ([], [], []) = (sz, mt, mk)" by (metis surj_pair)
  note i = fold_scan [OF assms(1) f, of b]
  let ?e = "\<lambda>x. \<lparr>ce_path = (d, fst x @ SC16), ce_mtime = snd x, ce_size = held sz (fst x), ce_priority = fst x \<in> set mk\<rparr>"
  have sd: "scan_dir d fs = map (\<lambda>x. ((d, fst x @ SC16), ?e x)) mt"
    by (simp add: scan_dir_def f held_def case_prod_beta)
  have "map_of (map (\<lambda>x. ((d, fst x @ SC16), ?e x)) xs) (d, b @ SC16) = map_option (\<lambda>t. ?e (b, t)) (map_of xs b)" for xs
    by (induction xs) auto
  then have m: "map_of (scan_dir d fs) (d, b @ SC16) = map_option (\<lambda>t. ?e (b, t)) (map_of mt b)" by (simp add: sd)
  have "(d, b @ PRIORITY_SUFFIX) \<in> fst ` set fs \<longleftrightarrow> map_of fs (marker_path (d, b @ SC16)) \<noteq> None"
    by (simp add: marker_path_def map_of_eq_None_iff)
  then show ?thesis using i base_size_capture [OF assms, of d]
    by (auto simp: m track_measure_def split: option.split)
qed

text \<open>
  The index built at start is the one kept up to date by tracking. For every capture in a scanned folder, the entry
  of the scan is the one \<open>track\<close> measures: the same time, the bytes of the \<open>.sc16\<close> file and all its
  companions, the same mark; unless its name ends in \<open>.psd\<close> or \<open>.detections\<close>, where another
  capture's companions have the names of its own.
\<close>

theorem scan_agrees_with_track:
  assumes "distinct (map fst fs)" "plain_base b"
  shows "map_of (scan_dir d fs) (d, b @ SC16) = track_measure fs (d, b @ SC16) \<and>
    (track_measure fs (d, b @ SC16) \<noteq> None \<longleftrightarrow> (d, b @ SC16) \<in> fst ` set fs)"
  using scan_entry [OF assms, of d] map_of_eq_None_iff [of fs "(d, b @ SC16)"]
  by (cases "map_of fs (d, b @ SC16)") (simp_all add: track_measure_def case_prod_beta del: map_of_eq_None_iff map_of_eq_Some_iff)

section \<open>The index over any sequence of steps\<close>

text \<open>The sections under the lock, with whatever the reads of the disk before them gave.\<close>

datatype ls_event =
  LsRebuild files
| LsTrack cap_path "(rat \<times> int \<times> bool) option"
| LsForget cap_path
| LsMark cap_path
| LsClaim cap_path

fun ls_do :: "ls_event \<Rightarrow> storage \<Rightarrow> storage" where
  "ls_do (LsRebuild fs) s = snd (rebuild_captures (dict_of fs) s)"
| "ls_do (LsTrack p m) s = (if fst p = Root then s else track_store p
     (map_option (\<lambda>(t, n, b). \<lparr>ce_path = p, ce_mtime = t, ce_size = n, ce_priority = b\<rparr>) m) s)"
| "ls_do (LsForget p) s = forget p s"
| "ls_do (LsMark p) s = fst (snd (mark_store p (s, [])))"
| "ls_do (LsClaim p) s = snd (remove_entry p s)"

definition storage_new :: "int \<Rightarrow> rat \<Rightarrow> storage" where
  "storage_new max_bytes share = \<lparr>ls_max_bytes = max_bytes, ls_entries = [], ls_order = (\<lambda>_. []), ls_bytes = (\<lambda>_. 0),
     ls_prio_order = [], ls_prio_bytes = 0, ls_priority_share = share\<rparr>"

lemma store_ok_new: "store_ok (storage_new m sh)"
  by (simp add: store_ok_def storage_new_def keyed_def vals_def)

lemma distinct_dict_of: "distinct (map fst (dict_of kvs))"
  unfolding dict_of_def by (rule distinct_dict_sets) simp

lemma store_ok_do: "store_ok s \<Longrightarrow> store_ok (ls_do ev s)"
proof (induction ev s rule: ls_do.induct)
  case (1 fs s)
  then show ?case using store_ok_rebuild [OF keyed_scans [OF distinct_dict_of]] by simp
next
  case (2 p m s)
  then show ?case
    by (auto simp: track_store_def store_ok_remove store_ok_replace split: option.split)
next
  case (4 p s)
  obtain b s' fs' where m: "mark_store p (s, []) = (b, s', fs')" by (metis surj_pair)
  then show ?case using store_ok_mark [OF 4 m] by simp
qed (simp_all add: store_ok_remove flip: forget_def)

lemma store_ok_run: "store_ok (fold ls_do evs (storage_new m sh))"
proof -
  have "store_ok s \<Longrightarrow> store_ok (fold ls_do evs s)" for s
    by (induction evs arbitrary: s) (simp_all add: store_ok_do)
  then show ?thesis using store_ok_new by blast
qed

text \<open>
  C21: the incremental index equals a batch one. After any sequence of locked
  sections, with any measurements: the order of each folder is the sorted list of its captures by time and
  name, its bytes the sum of their footprints, and the same for the priority captures of \<open>auto\<close>.
\<close>

theorem index_is_of_entries:
  "let s = fold ls_do evs (storage_new m sh); es = map snd (ls_entries s) in
     distinct (map fst (ls_entries s)) \<and> map fst (ls_entries s) = map ce_path es \<and>
     ls_order s d = sort (map entry_key (filter (\<lambda>e. entry_dir e = d) es)) \<and>
     ls_bytes s d = (\<Sum>e \<leftarrow> filter (\<lambda>e. entry_dir e = d) es. ce_size e) \<and>
     ls_prio_order s = sort (map entry_key (filter is_auto_priority es)) \<and>
     ls_prio_bytes s = (\<Sum>e \<leftarrow> filter is_auto_priority es. ce_size e)"
proof -
  let ?s = "fold ls_do evs (storage_new m sh)"
  have ok: "store_ok ?s" by (rule store_ok_run)
  have "map fst (ls_entries ?s) = map ce_path (map snd (ls_entries ?s))"
    using ok by (auto simp: store_ok_def keyed_def)
  moreover have "ls_order ?s d = sort (map entry_key (filter (\<lambda>e. entry_dir e = d) (map snd (ls_entries ?s))))"
    "ls_prio_order ?s = sort (map entry_key (filter is_auto_priority (map snd (ls_entries ?s))))"
    using ok by (auto simp: store_ok_def keys_in_def prio_keys_def vals_def mset_filter simp del: map_map filter_map intro!: sort_unique)
  ultimately show ?thesis using ok unfolding Let_def
    by (simp add: store_ok_def keyed_def bytes_in_def prio_sum_def vals_def flip: mset_filter mset_map sum_mset_sum_list)
qed

section \<open>What the index says\<close>

lemma entry_in_vals: "keyed es \<Longrightarrow> e \<in># vals es \<longleftrightarrow> map_of es (ce_path e) = Some e"
  by (force simp: keyed_def vals_def)

lemma order_iff:
  assumes "store_ok s"
  shows "(t, p) \<in> set (ls_order s d) \<longleftrightarrow> (\<exists>e. map_of (ls_entries s) p = Some e \<and> entry_key e = (t, p) \<and> entry_dir e = d)"
proof -
  have k: "keyed (ls_entries s)" and m: "set (ls_order s d) = set_mset (keys_in d (vals (ls_entries s)))"
    using assms unfolding store_ok_def by (blast, metis set_mset_mset)
  show ?thesis unfolding m keys_in_def using entry_in_vals [OF k] by (auto simp: entry_key_def)
qed

lemma prio_iff:
  assumes "store_ok s"
  shows "(t, p) \<in> set (ls_prio_order s) \<longleftrightarrow> (\<exists>e. map_of (ls_entries s) p = Some e \<and> entry_key e = (t, p) \<and> is_auto_priority e)"
proof -
  have k: "keyed (ls_entries s)" and m: "set (ls_prio_order s) = set_mset (prio_keys (vals (ls_entries s)))"
    using assms unfolding store_ok_def by (blast, metis set_mset_mset)
  show ?thesis unfolding m prio_keys_def using entry_in_vals [OF k] by (auto simp: entry_key_def)
qed

lemma find_sorted:
  assumes "sorted xs" "find P xs = Some x"
  shows "x \<in> set xs \<and> P x \<and> (\<forall>y \<in> set xs. P y \<longrightarrow> x \<le> y)"
  using assms
proof (induction xs)
  case (Cons a xs)
  then show ?case by (cases "P a") auto
qed simp

lemma keys_distinct:
  assumes "store_ok s" shows "distinct (map snd (ls_order s d))"
proof -
  have k: "keyed (ls_entries s)" and m: "mset (ls_order s d) = keys_in d (vals (ls_entries s))"
    using assms unfolding store_ok_def by blast+
  have p: "map ce_path (map snd (ls_entries s)) = map fst (ls_entries s)" using k by (auto simp: keyed_def)
  have "mset (map snd (ls_order s d)) = image_mset ce_path (filter_mset (\<lambda>e. entry_dir e = d) (vals (ls_entries s)))"
    by (simp add: m keys_in_def entry_key_def multiset.map_comp comp_def)
  also have "\<dots> = mset (map ce_path (filter (\<lambda>e. entry_dir e = d) (map snd (ls_entries s))))"
    by (simp add: vals_def mset_filter)
  finally have "mset (map snd (ls_order s d)) = mset (map ce_path (filter (\<lambda>e. entry_dir e = d) (map snd (ls_entries s))))" .
  moreover have "distinct (map ce_path (filter (\<lambda>e. entry_dir e = d) (map snd (ls_entries s))))"
    using k unfolding keyed_def p [symmetric] by (intro distinct_map_filter) blast
  ultimately show ?thesis by (metis mset_eq_imp_distinct_iff)
qed

section \<open>The victims of the cap\<close>

definition newest :: "storage \<Rightarrow> cap_path" where "newest s = snd (last (ls_order s Auto))"

definition other_captures :: "storage \<Rightarrow> cap_entry set" where
  "other_captures s = {e. map_of (ls_entries s) (ce_path e) = Some e \<and> entry_dir e = Auto \<and> ce_path e \<noteq> newest s}"

definition oldest_of :: "cap_entry \<Rightarrow> cap_entry set \<Rightarrow> bool" where
  "oldest_of e es \<longleftrightarrow> e \<in> es \<and> (\<forall>e' \<in> es. entry_key e \<le> entry_key e')"

definition right_victim :: "storage \<Rightarrow> cap_path \<Rightarrow> bool" where
  "right_victim s v \<longleftrightarrow> (\<exists>e. ce_path e = v \<and>
     (let es = other_captures s; prio = {e \<in> es. ce_priority e}; plain = {e \<in> es. \<not> ce_priority e}
      in if ls_priority_share s \<le> 0 then oldest_of e es
         else if prio \<noteq> {} \<and> (priority_cap_bytes s < ls_prio_bytes s \<or> plain = {}) then oldest_of e prio
         else oldest_of e plain))"

lemma find_oldest:
  assumes so: "sorted xs" and E: "{x \<in> set xs. Q x} = entry_key ` E"
  shows "case map_option snd (find Q xs) of Some v \<Rightarrow> \<exists>e. ce_path e = v \<and> oldest_of e E | None \<Rightarrow> E = {}"
proof (cases "find Q xs")
  case None
  then have "{x \<in> set xs. Q x} = {}" by (simp add: find_None_iff)
  then show ?thesis using None E by simp
next
  case (Some x)
  have f: "x \<in> set xs \<and> Q x" "\<And>y. y \<in> set xs \<and> Q y \<Longrightarrow> x \<le> y" using find_sorted [OF so Some] by blast+
  have "x \<in> entry_key ` E" unfolding E [symmetric] using f(1) by simp
  then obtain e where e: "e \<in> E" "x = entry_key e" by (rule imageE)
  have "entry_key e \<le> entry_key e'" if "e' \<in> E" for e'
  proof -
    have "entry_key e' \<in> {x \<in> set xs. Q x}" unfolding E using that by (rule imageI)
    then show ?thesis using f(2) unfolding e(2) by simp
  qed
  then have "oldest_of e E" unfolding oldest_of_def using e(1) by simp
  moreover have "ce_path e = snd x" by (simp add: e(2) entry_key_def)
  ultimately show ?thesis unfolding Some option.map option.case by (intro exI [of _ e] conjI)
qed

lemma first_not_order:
  assumes "store_ok s"
  shows "case first_not (newest s) (ls_order s Auto) of Some v \<Rightarrow> \<exists>e. ce_path e = v \<and> oldest_of e (other_captures s)
    | None \<Rightarrow> other_captures s = {}"
  unfolding first_not_def
proof (rule find_oldest)
  show "sorted (ls_order s Auto)" using assms unfolding store_ok_def by blast
  show "{x \<in> set (ls_order s Auto). case x of (_, p) \<Rightarrow> p \<noteq> newest s} = entry_key ` other_captures s"
  proof (rule set_eqI)
    fix x :: "rat \<times> cap_path"
    obtain t p where x: "x = (t, p)" by (cases x)
    show "x \<in> {x \<in> set (ls_order s Auto). case x of (_, p) \<Rightarrow> p \<noteq> newest s} \<longleftrightarrow> x \<in> entry_key ` other_captures s"
      unfolding x by (auto simp: order_iff [OF assms] other_captures_def entry_key_def image_iff)
  qed
qed

lemma first_not_prio:
  assumes "store_ok s"
  shows "case first_not (newest s) (ls_prio_order s) of Some v \<Rightarrow> \<exists>e. ce_path e = v \<and> oldest_of e {e \<in> other_captures s. ce_priority e}
    | None \<Rightarrow> {e \<in> other_captures s. ce_priority e} = {}"
  unfolding first_not_def
proof (rule find_oldest)
  show "sorted (ls_prio_order s)" using assms unfolding store_ok_def by blast
  show "{x \<in> set (ls_prio_order s). case x of (_, p) \<Rightarrow> p \<noteq> newest s} = entry_key ` {e \<in> other_captures s. ce_priority e}"
  proof (rule set_eqI)
    fix x :: "rat \<times> cap_path"
    obtain t p where x: "x = (t, p)" by (cases x)
    show "x \<in> {x \<in> set (ls_prio_order s). case x of (_, p) \<Rightarrow> p \<noteq> newest s} \<longleftrightarrow> x \<in> entry_key ` {e \<in> other_captures s. ce_priority e}"
      unfolding x by (auto simp: prio_iff [OF assms] other_captures_def entry_key_def image_iff is_auto_priority_def)
  qed
qed

lemma oldest_ordinary_order:
  assumes "store_ok s"
  shows "case oldest_ordinary (newest s) s of Some v \<Rightarrow> \<exists>e. ce_path e = v \<and> oldest_of e {e \<in> other_captures s. \<not> ce_priority e}
    | None \<Rightarrow> {e \<in> other_captures s. \<not> ce_priority e} = {}"
  unfolding oldest_ordinary_def
proof (rule find_oldest)
  show "sorted (ls_order s Auto)" using assms unfolding store_ok_def by blast
  show "{x \<in> set (ls_order s Auto). case x of (_, p) \<Rightarrow> p \<noteq> newest s \<and>
      (case map_of (ls_entries s) p of None \<Rightarrow> False | Some e \<Rightarrow> \<not> ce_priority e)} = entry_key ` {e \<in> other_captures s. \<not> ce_priority e}"
  proof (rule set_eqI)
    fix x :: "rat \<times> cap_path"
    obtain t p where x: "x = (t, p)" by (cases x)
    show "x \<in> {x \<in> set (ls_order s Auto). case x of (_, p) \<Rightarrow> p \<noteq> newest s \<and> (case map_of (ls_entries s) p of None \<Rightarrow> False | Some e \<Rightarrow> \<not> ce_priority e)} \<longleftrightarrow> x \<in> entry_key ` {e \<in> other_captures s. \<not> ce_priority e}"
      unfolding x by (auto simp: order_iff [OF assms] other_captures_def entry_key_def image_iff)
  qed
qed

lemma oldest_nonempty: "oldest_of e E \<Longrightarrow> E \<noteq> {}"
  by (auto simp: oldest_of_def)

lemma cap_victim_right:
  assumes "store_ok s"
  shows "case cap_victim (newest s) s of Some v \<Rightarrow> right_victim s v | None \<Rightarrow> other_captures s = {}"
proof -
  let ?es = "other_captures s" and ?prio = "{e \<in> other_captures s. ce_priority e}" and ?plain = "{e \<in> other_captures s. \<not> ce_priority e}"
  let ?share = "ls_priority_share s \<le> 0" and ?over = "priority_cap_bytes s < ls_prio_bytes s"
  note a = first_not_order [OF assms] and b = first_not_prio [OF assms] and c = oldest_ordinary_order [OF assms]
  have right: "right_victim s v" if "ce_path e = v" "if ?share then oldest_of e ?es
      else if ?prio \<noteq> {} \<and> (?over \<or> ?plain = {}) then oldest_of e ?prio else oldest_of e ?plain" for e v
    using that unfolding right_victim_def Let_def by blast
  have both: "?es = ?prio \<union> ?plain" by blast
  consider (fifo) "?share" | (none) "\<not> ?share" "first_not (newest s) (ls_prio_order s) = None"
    | (some) v where "\<not> ?share" "first_not (newest s) (ls_prio_order s) = Some v" by fastforce
  then show ?thesis
  proof cases
    case fifo
    then have v: "cap_victim (newest s) s = first_not (newest s) (ls_order s Auto)" by (simp add: cap_victim_def)
    show ?thesis
    proof (cases "first_not (newest s) (ls_order s Auto)")
      case None
      then show ?thesis using a unfolding v by simp
    next
      case (Some u)
      then obtain e where "ce_path e = u" "oldest_of e ?es" using a by auto
      then have "right_victim s u" using fifo by (intro right [of e]) simp_all
      then show ?thesis unfolding v Some by simp
    qed
  next
    case none
    then have p: "?prio = {}" using b by simp
    have v: "cap_victim (newest s) s = oldest_ordinary (newest s) s" using none by (simp add: cap_victim_def split: option.split)
    show ?thesis
    proof (cases "oldest_ordinary (newest s) s")
      case None
      then show ?thesis using p c both unfolding v by simp
    next
      case (Some u)
      then obtain e where "ce_path e = u" "oldest_of e ?plain" using c by auto
      then have "right_victim s u" using none(1) p by (intro right [of e]) simp_all
      then show ?thesis unfolding v Some by simp
    qed
  next
    case some
    then obtain e where e: "ce_path e = v" "oldest_of e ?prio" using b by auto
    note ne = oldest_nonempty [OF e(2)]
    show ?thesis
    proof (cases "?over \<or> oldest_ordinary (newest s) s = None")
      case True
      then have v: "cap_victim (newest s) s = Some v" using some by (auto simp: cap_victim_def Let_def)
      have "?over \<or> ?plain = {}" using True c by auto
      then have "right_victim s v" using some(1) e ne by (intro right [of e]) (simp_all only: if_True if_False simp_thms)
      then show ?thesis unfolding v by simp
    next
      case False
      then obtain u where u: "oldest_ordinary (newest s) s = Some u" by blast
      then obtain e' where e': "ce_path e' = u" "oldest_of e' ?plain" using c by auto
      have v: "cap_victim (newest s) s = Some u" using some False u by (simp add: cap_victim_def)
      have no: "\<not> (?over \<or> ?plain = {})" using False oldest_nonempty [OF e'(2)] by blast
      have "right_victim s u" using some(1) e' no by (intro right [of e']) (simp_all only: if_True if_False simp_thms)
      then show ?thesis unfolding v by simp
    qed
  qed
qed

lemma right_victim_other: "right_victim s v \<Longrightarrow> \<exists>e \<in> other_captures s. ce_path e = v"
  unfolding right_victim_def Let_def oldest_of_def by (auto split: if_splits)

lemma forget_order:
  assumes ok: "store_ok s" and e: "map_of (ls_entries s) v = Some e"
  shows "ls_order (forget v s) d = (if entry_dir e = d then remove1 (entry_key e) (ls_order s d) else ls_order s d)"
proof -
  have "sorted (ls_order s d)" using ok unfolding store_ok_def by blast
  then show ?thesis by (auto simp: forget_def remove_entry_def e Let_def remove_sorted_remove1)
qed

lemma forget_settings: "ls_max_bytes (forget v s) = ls_max_bytes s \<and> ls_priority_share (forget v s) = ls_priority_share s"
  by (simp add: forget_def remove_entry_def Let_def split: option.split)

lemma forget_victim:
  assumes ok: "store_ok s" and v: "right_victim s v"
  shows "length (ls_order (forget v s) Auto) < length (ls_order s Auto)" "newest (forget v s) = newest s" "fst v = Auto" "v \<noteq> newest s"
proof -
  obtain e where e: "map_of (ls_entries s) v = Some e" "ce_path e = v" "entry_dir e = Auto" "v \<noteq> newest s"
    using right_victim_other [OF v] by (auto simp: other_captures_def)
  have o: "ls_order (forget v s) Auto = remove1 (entry_key e) (ls_order s Auto)" using forget_order [OF ok e(1)] e(3) by simp
  have i: "entry_key e \<in> set (ls_order s Auto)" using order_iff [OF ok, of "ce_mtime e" "ce_path e" Auto] e by (simp add: entry_key_def)
  show "length (ls_order (forget v s) Auto) < length (ls_order s Auto)"
    using i length_pos_if_in_set [OF i] by (simp add: o length_remove1)
  obtain ys where ys: "ls_order s Auto = ys @ [last (ls_order s Auto)]" using i by (metis append_butlast_last_id empty_iff list.set(1))
  have ne: "entry_key e \<noteq> last (ls_order s Auto)" using e(2,4) by (metis entry_key_def newest_def snd_conv)
  then have "entry_key e \<in> set ys" using i ys by (metis UnE empty_iff empty_set insert_iff list.simps(15) set_append)
  then have "ls_order (forget v s) Auto = remove1 (entry_key e) ys @ [last (ls_order s Auto)]"
    unfolding o by (metis remove1_append ys)
  then show "newest (forget v s) = newest s" by (simp add: newest_def)
  show "fst v = Auto" "v \<noteq> newest s" using e(2,3,4) by (auto simp: entry_dir_def)
qed

lemma delete_index: "sw_index (snd (delete_capture uo hk v r w)) = forget v (sw_index w)"
  by (simp add: delete_capture_def forget_def case_prod_beta)

lemma unlink_all_map:
  "map_of (unlink_all uo ks fs) f = (if f \<in> set ks \<and> uo f then None else map_of fs f)"
  by (induction ks arbitrary: fs) (auto simp: unlink_all_def map_of_dict_del)

definition capture_files :: "cap_path \<Rightarrow> cap_path set" where
  "capture_files p = set (p # companion_paths p)"

lemma delete_files:
  "map_of (sw_files (snd (delete_capture uo hk v r w))) f = (if f \<in> capture_files v \<and> uo f then None else map_of (sw_files w) f)"
  by (simp add: delete_capture_def case_prod_beta unlink_all_map capture_files_def)

text \<open>What an eviction of the captures \<open>vs\<close> does to the index and to the disk.\<close>

definition evicted :: "(cap_path \<Rightarrow> bool) \<Rightarrow> cap_path list \<Rightarrow> store_world \<Rightarrow> store_world \<Rightarrow> bool" where
  "evicted uo vs w w' \<longleftrightarrow> sw_index w' = fold forget vs (sw_index w) \<and>
     (\<forall>f. map_of (sw_files w') f = (if (\<exists>v \<in> set vs. f \<in> capture_files v) \<and> uo f then None else map_of (sw_files w) f))"

lemma evicted_Nil: "evicted uo [] w w"
  by (simp add: evicted_def)

lemma evicted_Cons: "evicted uo vs (snd (delete_capture uo hk v r w)) w' \<Longrightarrow> evicted uo (v # vs) w w'"
  by (auto simp: evicted_def delete_index delete_files)

lemma enforce_cap_run:
  assumes "store_ok (sw_index w)"
  shows "\<exists>vs w'. enforce_cap uo hk w = Some w' \<and> evicted uo vs w w' \<and> within_cap (sw_index w') \<and>
    newest (sw_index w') = newest (sw_index w) \<and> list_all (\<lambda>v. fst v = Auto \<and> v \<noteq> newest (sw_index w)) vs \<and>
    (\<forall>xs v ys. vs = xs @ v # ys \<longrightarrow> \<not> within_cap (fold forget xs (sw_index w)) \<and> right_victim (fold forget xs (sw_index w)) v)"
  using assms
proof (induction "length (ls_order (sw_index w) Auto)" arbitrary: w rule: less_induct)
  case less
  note ok = less.prems
  let ?s = "sw_index w"
  show ?case
  proof (cases "cap_next ?s")
    case None
    have "within_cap ?s"
    proof (rule ccontr)
      assume n: "\<not> within_cap ?s"
      then have "cap_victim (newest ?s) ?s = None" using None by (simp add: cap_next_def newest_def)
      then have none: "other_captures ?s = {}" using cap_victim_right [OF ok] by simp
      obtain x y xs where o: "ls_order ?s Auto = x # y # xs" using n
        by (cases "ls_order ?s Auto"; cases "tl (ls_order ?s Auto)") (auto simp: within_cap_def)
      have d: "distinct (map snd (ls_order ?s Auto))" using keys_distinct [OF ok] .
      have in_other: "snd z = newest ?s" if "z \<in> set (ls_order ?s Auto)" for z
        using order_iff [OF ok, of "fst z" "snd z" Auto] that none by (auto simp: other_captures_def entry_key_def)
      then have "snd x = snd y" using o by simp
      then show False using d o by simp
    qed
    then show ?thesis using None evicted_Nil by (subst enforce_cap.simps) (auto intro!: exI [of _ "[]"])
  next
    case (Some v)
    have n: "\<not> within_cap ?s" and cv: "cap_victim (newest ?s) ?s = Some v" using Some by (auto simp: cap_next_def newest_def split: if_splits)
    have rv: "right_victim ?s v" using cap_victim_right [OF ok] cv by simp
    note f = forget_victim [OF ok rv]
    let ?w = "snd (delete_capture uo hk v (Some ''cap'') w)"
    have lt: "length (ls_order (sw_index ?w) Auto) < length (ls_order ?s Auto)" using f(1) by (simp add: delete_index)
    have okw: "store_ok (sw_index ?w)" using store_ok_remove [OF ok] by (simp add: delete_index)
    from less.hyps [OF lt okw] obtain vs w' where i: "enforce_cap uo hk ?w = Some w'" "evicted uo vs ?w w'" "within_cap (sw_index w')"
      "newest (sw_index w') = newest (sw_index ?w)" "list_all (\<lambda>v. fst v = Auto \<and> v \<noteq> newest (sw_index ?w)) vs"
      "\<forall>xs v ys. vs = xs @ v # ys \<longrightarrow> \<not> within_cap (fold forget xs (sw_index ?w)) \<and> right_victim (fold forget xs (sw_index ?w)) v"
      by blast
    have e: "enforce_cap uo hk w = Some w'" using i(1) Some by (subst enforce_cap.simps) simp
    have split: "\<not> within_cap (fold forget xs ?s) \<and> right_victim (fold forget xs ?s) u" if "v # vs = xs @ u # ys" for xs u ys
    proof (cases xs)
      case Nil
      then show ?thesis using that n rv by simp
    next
      case (Cons x xs')
      then have "vs = xs' @ u # ys" and x: "x = v" using that by simp_all
      from i(6) [rule_format, OF this(1)] show ?thesis by (simp add: Cons x delete_index)
    qed
    show ?thesis
      using e evicted_Cons [OF i(2)] i(3,4,5) f(2,3,4) split by (intro exI [of _ "v # vs"] exI [of _ w']) (simp add: delete_index)
  qed
qed

text \<open>
  C9: enforcing the cap ends and evicts the right captures. From every index the steps can
  build: the loop returns with the automatic captures within the cap (or one of them left), it deleted the files of
  its victims and no others, never the newest capture nor one in \<open>manual\<close>; it deleted only while over the cap, and each victim was the
  oldest of its kind then: of all if no share is kept for priority captures; else an ordinary capture,
  unless the priority ones hold more than their share or no ordinary one is left.
\<close>

theorem enforce_cap_exact:
  assumes "sw_index w = fold ls_do evs (storage_new m sh)"
  shows "\<exists>vs w'. enforce_cap uo hk w = Some w' \<and> evicted uo vs w w' \<and> within_cap (sw_index w') \<and>
    newest (sw_index w') = newest (sw_index w) \<and> list_all (\<lambda>v. fst v = Auto \<and> v \<noteq> newest (sw_index w)) vs \<and>
    (\<forall>xs v ys. vs = xs @ v # ys \<longrightarrow> \<not> within_cap (fold forget xs (sw_index w)) \<and> right_victim (fold forget xs (sw_index w)) v)"
proof -
  have "store_ok (sw_index w)" unfolding assms by (rule store_ok_run)
  from enforce_cap_run [OF this] show ?thesis .
qed

section \<open>Eviction for the volume's free space\<close>

text \<open>The captures of the order that the loop of number \<open>i\<close> on takes.\<close>

fun to_evict :: "evict_env \<Rightarrow> int \<Rightarrow> nat \<Rightarrow> cap_entry list \<Rightarrow> cap_entry list" where
  "to_evict ev target i [] = []"
| "to_evict ev target i (e # es) = (if target \<le> ev_free ev i then []
     else if protected_capture ev i e then to_evict ev target (Suc i) es else e # to_evict ev target (Suc i) es)"

lemma set_to_evict: "set (to_evict ev target i es) \<subseteq> set es"
  by (induction es arbitrary: i) auto

lemma evict_loop_exact:
  assumes "store_ok (sw_index w)" "\<forall>e \<in> set es. map_of (ls_entries (sw_index w)) (ce_path e) = Some e" "distinct (map ce_path es)"
    and "evict_loop ev target i es w = (told, freed, w')"
  shows "map fst told = map ce_path (to_evict ev target i es) \<and> freed = (\<Sum>e \<leftarrow> to_evict ev target i es. ce_size e) \<and>
    evicted (ev_unlink_ok ev) (map ce_path (to_evict ev target i es)) w w'"
  using assms
proof (induction es arbitrary: i w told freed w')
  case Nil
  then show ?case by (simp add: evicted_Nil)
next
  case (Cons e es)
  have e: "map_of (ls_entries (sw_index w)) (ce_path e) = Some e" and es: "\<forall>x \<in> set es. map_of (ls_entries (sw_index w)) (ce_path x) = Some x"
    and d: "distinct (map ce_path es)" "ce_path e \<notin> ce_path ` set es" using Cons.prems(2,3) by auto
  consider (stop) "target \<le> ev_free ev i" | (skip) "\<not> target \<le> ev_free ev i" "protected_capture ev i e"
    | (take) "\<not> target \<le> ev_free ev i" "\<not> protected_capture ev i e" by blast
  then show ?case
  proof cases
    case stop
    then show ?thesis using Cons.prems(4) by (simp add: evicted_Nil)
  next
    case skip
    have l: "evict_loop ev target (Suc i) es w = (told, freed, w')" using Cons.prems(4) skip by simp
    show ?thesis using Cons.IH [OF Cons.prems(1) es d(1) l] skip by simp
  next
    case take
    obtain n w1 where dc: "delete_capture (ev_unlink_ok ev) (ev_hooked ev) (ce_path e) (Some ''space'') w = (n, w1)" by fastforce
    obtain t f w2 where r: "evict_loop ev target (Suc i) es w1 = (t, f, w2)" by (metis surj_pair)
    have res: "told = (ce_path e, ev_now ev i - ce_mtime e) # t" "freed = n + f" "w' = w2"
      using Cons.prems(4) take by (simp_all add: dc r)
    have w1: "sw_index w1 = forget (ce_path e) (sw_index w)" using delete_index [of _ _ "ce_path e" _ w] dc by (metis snd_conv)
    have n: "n = ce_size e" using dc by (simp add: delete_capture_def remove_entry_def e Let_def)
    have ok1: "store_ok (sw_index w1)" unfolding w1 by (rule store_ok_remove [OF Cons.prems(1)])
    have es1: "\<forall>x \<in> set es. map_of (ls_entries (sw_index w1)) (ce_path x) = Some x"
    proof
      fix x assume x: "x \<in> set es"
      then have "ce_path x \<noteq> ce_path e" using d(2) imageI [of x "set es" ce_path] by metis
      then show "map_of (ls_entries (sw_index w1)) (ce_path x) = Some x" using es x by (simp add: w1 forget_entries map_of_dict_del)
    qed
    note i = Cons.IH [OF ok1 es1 d(1) r]
    have w1': "w1 = snd (delete_capture (ev_unlink_ok ev) (ev_hooked ev) (ce_path e) (Some ''space'') w)" by (simp add: dc)
    have "evicted (ev_unlink_ok ev) (ce_path e # map ce_path (to_evict ev target (Suc i) es)) w w2"
      using evicted_Cons [OF conjunct2 [OF conjunct2 [OF i], unfolded w1']] .
    then show ?thesis using i take unfolding res n by simp
  qed
qed

text \<open>The order of eviction.\<close>

definition auto_entries :: "storage \<Rightarrow> cap_entry list" where
  "auto_entries s = map (\<lambda>(_, p). the (map_of (ls_entries s) p)) (ls_order s Auto)"

lemma auto_oldest: "auto_oldest_first s = (if ls_priority_share s \<le> 0 then auto_entries s
    else filter (\<lambda>e. \<not> ce_priority e) (auto_entries s) @ filter ce_priority (auto_entries s))"
  by (simp add: auto_oldest_first_def auto_entries_def Let_def)

lemma auto_entries_keys:
  assumes "store_ok s"
  shows "map entry_key (auto_entries s) = ls_order s Auto"
    and "set (auto_entries s) = {e. map_of (ls_entries s) (ce_path e) = Some e \<and> entry_dir e = Auto}"
proof -
  note iff = order_iff [OF assms, of _ _ Auto]
  have "entry_key (the (map_of (ls_entries s) (snd x))) = x" if "x \<in> set (ls_order s Auto)" for x
    using that iff [of "fst x" "snd x"] by auto
  then show k: "map entry_key (auto_entries s) = ls_order s Auto" by (simp add: auto_entries_def case_prod_beta map_idI)
  show "set (auto_entries s) = {e. map_of (ls_entries s) (ce_path e) = Some e \<and> entry_dir e = Auto}"
  proof (intro set_eqI iffI)
    fix e assume "e \<in> set (auto_entries s)"
    then obtain t p where "(t, p) \<in> set (ls_order s Auto)" "e = the (map_of (ls_entries s) p)" by (auto simp: auto_entries_def)
    then show "e \<in> {e. map_of (ls_entries s) (ce_path e) = Some e \<and> entry_dir e = Auto}" by (auto simp: iff entry_key_def)
  next
    fix e assume "e \<in> {e. map_of (ls_entries s) (ce_path e) = Some e \<and> entry_dir e = Auto}"
    then have m: "map_of (ls_entries s) (ce_path e) = Some e" "entry_dir e = Auto" by simp_all
    then have "(ce_mtime e, ce_path e) \<in> set (ls_order s Auto)" by (auto simp: iff entry_key_def)
    then show "e \<in> set (auto_entries s)" using m by (force simp: auto_entries_def image_iff)
  qed
qed

lemma auto_oldest_first_order:
  assumes ok: "store_ok s"
  shows "set (auto_oldest_first s) = {e. map_of (ls_entries s) (ce_path e) = Some e \<and> entry_dir e = Auto} \<and>
    distinct (map ce_path (auto_oldest_first s)) \<and>
    sorted_wrt (\<lambda>a b. if 0 < ls_priority_share s \<and> ce_priority a \<noteq> ce_priority b then ce_priority b else entry_key a \<le> entry_key b)
      (auto_oldest_first s)"
proof -
  note k = auto_entries_keys [OF ok]
  have so: "sorted (map entry_key (auto_entries s))" unfolding k(1) using ok by (simp add: store_ok_def)
  then have sw: "sorted_wrt (\<lambda>a b. entry_key a \<le> entry_key b) (auto_entries s)" by (simp add: sorted_wrt_map)
  have p: "map ce_path (auto_entries s) = map snd (ls_order s Auto)" unfolding k(1) [symmetric] by (simp add: entry_key_def comp_def)
  have d: "distinct (map ce_path (auto_entries s))" unfolding p by (rule keys_distinct [OF ok])
  have s: "set (auto_oldest_first s) = set (auto_entries s)" by (auto simp: auto_oldest)
  have "mset (auto_oldest_first s) = mset (auto_entries s)" by (simp add: auto_oldest)
  then have "mset (map ce_path (auto_oldest_first s)) = mset (map ce_path (auto_entries s))" by simp
  then have d2: "distinct (map ce_path (auto_oldest_first s))" using d mset_eq_imp_distinct_iff by blast
  let ?R = "\<lambda>a b. if 0 < ls_priority_share s \<and> ce_priority a \<noteq> ce_priority b then ce_priority b else entry_key a \<le> entry_key b"
  have f: "sorted_wrt (\<lambda>a b. entry_key a \<le> entry_key b) (filter P (auto_entries s))" for P using sw by (rule sorted_wrt_filter)
  have "sorted_wrt ?R (auto_oldest_first s)"
  proof (cases "ls_priority_share s \<le> 0")
    case True
    then have "?R = (\<lambda>a b. entry_key a \<le> entry_key b)" by (intro ext) simp
    then show ?thesis using True sw by (simp only: auto_oldest if_True)
  next
    case False
    have "sorted_wrt ?R (filter (\<lambda>e. \<not> ce_priority e) (auto_entries s))"
      by (rule sorted_wrt_mono_rel [OF _ f]) simp
    moreover have "sorted_wrt ?R (filter ce_priority (auto_entries s))"
      by (rule sorted_wrt_mono_rel [OF _ f]) simp
    ultimately show ?thesis using False by (simp add: auto_oldest sorted_wrt_append)
  qed
  then show ?thesis using s k(2) d2 by blast
qed

text \<open>
  The victims declaratively: of the captures before the first one at which enough is free,
  those not protected_capture when it is their turn.
\<close>

definition evict_victims :: "evict_env \<Rightarrow> int \<Rightarrow> cap_entry list \<Rightarrow> cap_entry list" where
  "evict_victims ev target es =
     (let reached = length (takeWhile (\<lambda>i. ev_free ev i < target) [0..<length es])
      in map snd (filter (\<lambda>(i, e). \<not> protected_capture ev i e) (enumerate 0 (take reached es))))"

lemma to_evict_victims:
  "to_evict ev target i es = map snd (filter (\<lambda>(i, e). \<not> protected_capture ev i e)
     (enumerate i (take (length (takeWhile (\<lambda>i. ev_free ev i < target) [i..<i + length es])) es)))"
proof (induction es arbitrary: i)
  case (Cons e es)
  have u: "[i..<i + length (e # es)] = i # [Suc i..<Suc i + length es]" using upt_conv_Cons [of i "i + length (e # es)"] by simp
  show ?case unfolding u using Cons.IH [of "Suc i"] by (simp add: not_le)
qed simp

text \<open>
  C20: freeing space deletes automatic captures in the right order. Whatever the free space read
  and the active captures named in between: the deleted captures, each told with its age, are the unprotected ones
  before the first at which enough was free; the order is by time, ordinary captures before priority
  ones if those have a share; the bytes counted and the files deleted are those of the victims, in \<open>auto\<close> only.
\<close>

theorem evict_until_free_exact:
  assumes "sw_index w = fold ls_do evs (storage_new m sh)" "evict_until_free ev target w = (told, freed, w')"
    and "es = auto_oldest_first (sw_index w)"
  shows "map fst told = map ce_path (evict_victims ev target es) \<and> freed = (\<Sum>e \<leftarrow> evict_victims ev target es. ce_size e) \<and>
    evicted (ev_unlink_ok ev) (map fst told) w w' \<and>
    set es = {e. map_of (ls_entries (sw_index w)) (ce_path e) = Some e \<and> entry_dir e = Auto} \<and>
    sorted_wrt (\<lambda>a b. if 0 < ls_priority_share (sw_index w) \<and> ce_priority a \<noteq> ce_priority b then ce_priority b
      else entry_key a \<le> entry_key b) es"
proof -
  have ok: "store_ok (sw_index w)" unfolding assms(1) by (rule store_ok_run)
  note o = auto_oldest_first_order [OF ok, folded assms(3)]
  have l: "evict_loop ev target 0 es w = (told, freed, w')" using assms(2,3) by (simp add: evict_until_free_def)
  have e: "\<forall>e \<in> set es. map_of (ls_entries (sw_index w)) (ce_path e) = Some e" using o by blast
  have v: "to_evict ev target 0 es = evict_victims ev target es" by (simp add: to_evict_victims evict_victims_def)
  show ?thesis using evict_loop_exact [OF ok e _ l] o unfolding v by auto
qed

section \<open>Listing the captures\<close>

lemma captures_listed:
  assumes ok: "store_ok s"
  shows "map entry_key (captures_newest_first 0 None None s) = rev (sort (ls_order s Auto @ ls_order s Manual))"
    and "set (captures_newest_first 0 None None s) = {e. map_of (ls_entries s) (ce_path e) = Some e \<and> entry_dir e \<noteq> Root}"
proof -
  have so: "sort (ls_order s d) = ls_order s d" for d using ok by (simp add: store_ok_def sorted_sort_id)
  let ?L = "rev (sort (ls_order s Auto @ ls_order s Manual))"
  have m: "merge_desc (rev (ls_order s Auto)) (rev (ls_order s Manual)) = ?L"
    using merge_desc_sort [of "ls_order s Auto" "ls_order s Manual"] by (simp only: so)
  have c: "captures_newest_first 0 None None s = map (\<lambda>(_, p). the (map_of (ls_entries s) p)) ?L"
    by (simp add: captures_newest_first_def m origin_in_def)
  have inL: "x \<in> set ?L \<longleftrightarrow> (\<exists>e. map_of (ls_entries s) (snd x) = Some e \<and> entry_key e = x \<and> entry_dir e \<noteq> Root)" for x
  proof -
    have "entry_dir e \<noteq> Root \<longleftrightarrow> entry_dir e = Auto \<or> entry_dir e = Manual" for e by (cases "entry_dir e") simp_all
    moreover have "x \<in> set ?L \<longleftrightarrow> x \<in> set (ls_order s Auto) \<or> x \<in> set (ls_order s Manual)" by simp
    moreover have "x \<in> set (ls_order s d) \<longleftrightarrow> (\<exists>e. map_of (ls_entries s) (snd x) = Some e \<and> entry_key e = x \<and> entry_dir e = d)" for d
      using order_iff [OF ok, of "fst x" "snd x" d] by simp
    ultimately show ?thesis by metis
  qed
  have "entry_key (the (map_of (ls_entries s) (snd x))) = x" if "x \<in> set ?L" for x using that inL by auto
  then show "map entry_key (captures_newest_first 0 None None s) = ?L"
    unfolding c by (simp only: map_map comp_def case_prod_beta) (rule map_idI)
  show "set (captures_newest_first 0 None None s) = {e. map_of (ls_entries s) (ce_path e) = Some e \<and> entry_dir e \<noteq> Root}"
  proof (intro set_eqI iffI)
    fix e assume "e \<in> set (captures_newest_first 0 None None s)"
    then obtain x where "x \<in> set ?L" "e = the (map_of (ls_entries s) (snd x))" unfolding c set_map case_prod_beta by (elim imageE)
    then show "e \<in> {e. map_of (ls_entries s) (ce_path e) = Some e \<and> entry_dir e \<noteq> Root}" using inL [of x] by (auto simp: entry_key_def)
  next
    fix e assume "e \<in> {e. map_of (ls_entries s) (ce_path e) = Some e \<and> entry_dir e \<noteq> Root}"
    then have e: "map_of (ls_entries s) (ce_path e) = Some e" "entry_dir e \<noteq> Root" by simp_all
    then have "entry_key e \<in> set ?L" using inL [of "entry_key e"] by (simp add: entry_key_def)
    moreover have "e = (\<lambda>(_, p). the (map_of (ls_entries s) p)) (entry_key e)" using e(1) by (simp add: entry_key_def)
    ultimately show "e \<in> set (captures_newest_first 0 None None s)" unfolding c set_map by (rule rev_image_eqI)
  qed
qed

lemma captures_page:
  "captures_newest_first offset limit origins s =
     (let all = filter (origin_in origins) (captures_newest_first 0 None None s)
      in case limit of None \<Rightarrow> drop offset all | Some n \<Rightarrow> take n (drop offset all))"
proof -
  have t: "filter (origin_in None) xs = xs" for xs by (simp add: origin_in_def)
  show ?thesis by (simp add: captures_newest_first_def t Let_def)
qed

text \<open>
  A page of the captures is a page of one list. Listing with any offset, limit and origins gives the
  stretch of a list that holds every indexed capture of those origins once, the newest first.
\<close>

theorem captures_newest_first_page:
  assumes "s = fold ls_do evs (storage_new m sh)"
  shows "\<exists>all. captures_newest_first offset limit origins s = (case limit of None \<Rightarrow> drop offset all | Some n \<Rightarrow> take n (drop offset all)) \<and>
    sorted_wrt (\<lambda>a b. entry_key b < entry_key a) all \<and>
    set all = {e. map_of (ls_entries s) (ce_path e) = Some e \<and> entry_dir e \<noteq> Root \<and> origin_in origins e}"
proof -
  have ok: "store_ok s" unfolding assms by (rule store_ok_run)
  note c = captures_listed [OF ok]
  let ?L = "ls_order s Auto @ ls_order s Manual" and ?all = "filter (origin_in origins) (captures_newest_first 0 None None s)"
  have "set (map snd (ls_order s Auto)) \<inter> set (map snd (ls_order s Manual)) = {}"
    using order_iff [OF ok] by (fastforce simp: entry_key_def)
  then have "distinct (map snd ?L)" using keys_distinct [OF ok] by simp
  then have "distinct ?L" using distinct_map by blast
  then have "sorted_wrt (<) (sort ?L)" by (simp add: strict_sorted_iff)
  then have "sorted_wrt (>) (map entry_key (captures_newest_first 0 None None s))" unfolding c(1) by (simp add: sorted_wrt_rev)
  then have "sorted_wrt (\<lambda>a b. entry_key b < entry_key a) (captures_newest_first 0 None None s)" by (simp add: sorted_wrt_map)
  then have "sorted_wrt (\<lambda>a b. entry_key b < entry_key a) ?all" by (rule sorted_wrt_filter)
  moreover have "set ?all = {e. map_of (ls_entries s) (ce_path e) = Some e \<and> entry_dir e \<noteq> Root \<and> origin_in origins e}"
    using c(2) by auto
  ultimately show ?thesis unfolding captures_page [of offset limit] Let_def by blast
qed

section \<open>Marking and a late measurement\<close>

text \<open>
  The mark is lost from the index when a measurement that began before it is stored after
  it: the marker file is there, the entry is ordinary until the next scan.
\<close>

lemma late_track_unmarks:
  assumes ok: "store_ok s" and e: "map_of (ls_entries s) p = Some e" "\<not> ce_priority e" "entry_dir e = Auto"
    and m: "track_measure fs p = Some m" "\<not> ce_priority m"
    and k: "mark_priority (\<lambda>_. True) now [p] (s, fs) = (marked, s1, fs1)"
  shows "marked = [p] \<and> map_of fs1 (marker_path p) \<noteq> None \<and> map_of (ls_entries (track_store p (Some m) s1)) p = Some m"
proof -
  have "mark_check p s" using e by (simp add: mark_check_def)
  then have k1: "marked = [p]" "fs1 = touch now (marker_path p) fs" "s1 = add_entry (e\<lparr>ce_priority := True\<rparr>) (forget p s)"
    using k e by (auto simp: mark_store_def Let_def)
  have "ce_path m = p" using m(1) by (auto simp: track_measure_def split: option.splits)
  then have "map_of (ls_entries (track_store p (Some m) s1)) p = Some m"
    by (simp add: track_store_def add_entry_def Let_def map_of_dict_set)
  then show ?thesis using k1 by (simp add: touch_def map_of_dict_set)
qed

section \<open>Examples\<close>

definition ex_files :: files where
  "ex_files = [((Auto, ''a.sc16''), (1, 100)), ((Auto, ''a.json''), (1, 10)), ((Auto, ''b.sc16''), (2, 100)), ((Auto, ''b.priority''), (2, 0)),
     ((Manual, ''m.sc16''), (1, 70)), ((Auto, ''c.sc16''), (3, 50))]"

definition ex_store :: store_world where
  "ex_store = \<lparr>sw_index = fold ls_do [LsRebuild ex_files] (storage_new 180 (3 / 4)), sw_files = ex_files, sw_told = []\<rparr>"

theorem scan_agrees_with_track_witness:
  "map_of (scan_dir Auto ex_files) (Auto, ''a'' @ SC16) = track_measure ex_files (Auto, ''a'' @ SC16)"
proof -
  have "distinct (map fst ex_files)" by (simp add: ex_files_def)
  moreover have "plain_base ''a''" by (simp add: plain_base_def ends_with_def)
  ultimately show ?thesis using scan_agrees_with_track [of ex_files "''a''" Auto] by blast
qed

theorem enforce_cap_exact_witness:
  "\<exists>w'. enforce_cap (\<lambda>_. True) False ex_store = Some w' \<and> within_cap (sw_index w') \<and> newest (sw_index w') = newest (sw_index ex_store)"
  using enforce_cap_exact [of ex_store "[LsRebuild ex_files]" 180 "3 / 4" "\<lambda>_. True" False] by (auto simp: ex_store_def)

definition ex_evict :: evict_env where
  "ex_evict = \<lparr>ev_exclude = [], ev_active = (\<lambda>_. [''c.sc16'']), ev_not_after = None, ev_free = (\<lambda>i. int i), ev_unlink_ok = (\<lambda>_. True),
     ev_hooked = False, ev_now = (\<lambda>_. 10)\<rparr>"

theorem evict_until_free_exact_witness:
  "map fst (fst (evict_until_free ex_evict 2 ex_store)) = [(Auto, ''a.sc16'')]"
proof -
  obtain told freed w' where e: "evict_until_free ex_evict 2 ex_store = (told, freed, w')" by (metis surj_pair)
  have "map fst told = map ce_path (evict_victims ex_evict 2 (auto_oldest_first (sw_index ex_store)))"
    using evict_until_free_exact [OF _ e refl, of "[LsRebuild ex_files]" 180 "3 / 4"] by (simp add: ex_store_def)
  moreover have "map ce_path (evict_victims ex_evict 2 (auto_oldest_first (sw_index ex_store))) = [(Auto, ''a.sc16'')]" by code_simp
  ultimately show ?thesis by (simp add: e)
qed

theorem captures_newest_first_page_witness:
  "\<exists>all. captures_newest_first 1 (Some 2) None (sw_index ex_store) = take 2 (drop 1 all) \<and> sorted_wrt (\<lambda>a b. entry_key b < entry_key a) all"
  using captures_newest_first_page [of "sw_index ex_store" "[LsRebuild ex_files]" 180 "3 / 4" 1 "Some 2" None] by (auto simp: ex_store_def)

end
