(* ===== verification/Live_File.thy ===== *)
theory Live_File
  imports Ring_Buffer
begin

text \<open>
  The file of a live recording, \<open>pipeline/streaming.py\<close>: the pre-roll read from the
  sample ring, the chunks written behind it, the ones the queue or the RAM buffer
  refuses, and the list of gaps that says where samples are missing. The recording is
  kept in a RAM buffer or handed to the file writer as a queue of blocks.
\<close>

section \<open>The recording\<close>


type_synonym gaps = "(int \<times> int) list"










section \<open>The start\<close>








section \<open>Counting the gaps\<close>

definition gap_before :: "gaps \<Rightarrow> int \<Rightarrow> int" where
  "gap_before gs i = (\<Sum>(j, l) \<leftarrow> gs. if j \<le> i then l else 0)"

definition gap_sum :: "gaps \<Rightarrow> int" where "gap_sum gs = (\<Sum>(j, l) \<leftarrow> gs. l)"

lemma gap_append [simp]:
  "gap_before (gs @ hs) i = gap_before gs i + gap_before hs i" "gap_before [] i = 0"
  "gap_before ((j, l) # gs) i = (if j \<le> i then l else 0) + gap_before gs i"
  "gap_sum (gs @ hs) = gap_sum gs + gap_sum hs" "gap_sum [] = 0" "gap_sum ((j, l) # gs) = l + gap_sum gs"
  by (simp_all add: gap_before_def gap_sum_def)












section \<open>The device's time line\<close>









section \<open>Every sample at its time\<close>






lemma gap_one [simp]: "gap_before [x] i = (if fst x \<le> i then snd x else 0)" "gap_sum [x] = snd x"
  by (cases x; simp)+





section \<open>The chunks\<close>










lemma upto_pos: "0 \<le> m \<Longrightarrow> length [cs..cs + m - 1] = nat m" for cs m :: int
  by simp







section \<open>The beginning\<close>









end
