(* ===== verification/Live_Control.thy ===== *)
theory Live_Control
  imports Governor
begin

text \<open>
  The control of live recordings, \<open>pipeline/streaming.py\<close>: manual and triggered starts,
  stops, the refusals of the storage governor and the finalize jobs of the
  recording-control thread. The receiver thread, the web workers and the control thread
  interleave: a step is what one of them does between two points where another may run,
  so a start is its storage check and then its locked part, a stop its look at the state,
  its request and what follows its wait, and a chunk that finds no recording takes the
  lock later. The chunks' samples are in \<open>Live_File\<close>; here a write is counted.
\<close>

section \<open>The state\<close>

datatype rec_state = RS_Idle | RS_Armed | RS_Recording | RS_Finalizing

datatype refusal = No_Space health | On_Hold string

text \<open>
  Ghosts: \<open>lc_begun\<close> counts the recordings begun, so it names the one whose fields are
  current; \<open>lc_ended\<close> has, for each finalize job that ended, the recording whose fields it began
  and ended with.
\<close>

record rec_ctl =
  lc_state :: rec_state
  lc_armed :: bool
  lc_replay :: bool
  lc_replay_record :: bool
  lc_triggered :: bool
  lc_hold :: bool
  lc_below :: int
  lc_stop_reason :: "string option"
  lc_writer_error :: "string option"
  lc_disk_floor :: bool
  lc_storage_hold :: "(nat \<times> string) option"
  lc_last_refusal :: "refusal option"
  lc_end_done :: bool
  lc_gov :: "governor option"
  lc_written :: nat
  lc_jobs :: nat
  lc_running :: "nat option"
  lc_receiver :: "bool option"
  lc_starting :: nat
  lc_requesting :: nat
  lc_waiting :: nat
  lc_begun :: nat
  lc_ended :: "(nat \<times> nat) list"

definition rec_ctl_new :: "bool \<Rightarrow> bool \<Rightarrow> governor option \<Rightarrow> rec_ctl" where
  "rec_ctl_new armed replay gov = \<lparr>lc_state = RS_Idle, lc_armed = armed, lc_replay = replay, lc_replay_record = False,
     lc_triggered = False, lc_hold = False, lc_below = 0, lc_stop_reason = None, lc_writer_error = None,
     lc_disk_floor = False, lc_storage_hold = None, lc_last_refusal = None, lc_end_done = True, lc_gov = gov,
     lc_written = 0, lc_jobs = 0, lc_running = None, lc_receiver = None, lc_starting = 0, lc_requesting = 0,
     lc_waiting = 0, lc_begun = 0, lc_ended = []\<rparr>"

section \<open>Refusals\<close>

definition recording_refusal :: "rec_ctl \<Rightarrow> refusal option" where
  "recording_refusal rc = (case lc_gov rc of
       None \<Rightarrow> None
     | Some g \<Rightarrow>
         if ss_refuse_recording (gov_state g) then Some (No_Space (to_health (gov_state g)))
         else case lc_storage_hold rc of
           None \<Rightarrow> None
         | Some (ticks, why) \<Rightarrow> if gov_ticks g \<le> ticks + 1 then Some (On_Hold why) else None)"

definition refused :: "rec_ctl \<Rightarrow> bool \<times> rec_ctl" where
  "refused rc = (recording_refusal rc \<noteq> None, rc\<lparr>lc_last_refusal := recording_refusal rc\<rparr>)"

section \<open>Beginning, arming, ending\<close>

definition begin_recording :: "rec_ctl \<Rightarrow> rec_ctl" where
  "begin_recording rc =
     (if lc_replay rc \<and> \<not> lc_replay_record rc then rc
      else rc\<lparr>lc_stop_reason := None, lc_writer_error := None, lc_disk_floor := False, lc_below := 0, lc_written := 0,
        lc_state := RS_Recording, lc_begun := lc_begun rc + 1\<rparr>)"

text \<open>\<open>start_recording\<close>: the storage check, and the part under the lock.\<close>

definition start_check :: "rec_ctl \<Rightarrow> rec_ctl" where
  "start_check rc =
     (if lc_replay rc \<and> \<not> lc_replay_record rc then rc
      else let (no, rc) = refused rc in if no then rc else rc\<lparr>lc_starting := lc_starting rc + 1\<rparr>)"

definition start_locked :: "rec_ctl \<Rightarrow> rec_ctl" where
  "start_locked rc =
     (if lc_starting rc = 0 then rc
      else let rc = rc\<lparr>lc_starting := lc_starting rc - 1\<rparr> in
        if lc_state rc = RS_Recording \<or> lc_state rc = RS_Finalizing then rc
        else begin_recording (rc\<lparr>lc_triggered := False\<rparr>))"

definition can_wait_armed :: "rec_ctl \<Rightarrow> bool" where
  "can_wait_armed rc \<longleftrightarrow> lc_armed rc \<and> \<not> lc_replay rc"

definition arm_trigger :: "rec_ctl \<Rightarrow> rec_ctl" where
  "arm_trigger rc =
     (let rc = rc\<lparr>lc_armed := True\<rparr> in
      if lc_replay rc then rc
      else let (no, rc) = refused rc in
        if no then rc else if lc_state rc = RS_Idle then rc\<lparr>lc_state := RS_Armed\<rparr> else rc)"

definition disarm_trigger :: "rec_ctl \<Rightarrow> rec_ctl" where
  "disarm_trigger rc =
     (let rc = rc\<lparr>lc_armed := False\<rparr>
      in (if lc_state rc = RS_Armed then rc\<lparr>lc_state := RS_Idle\<rparr> else rc)\<lparr>lc_hold := False\<rparr>)"

text \<open>\<open>_request_end_recording\<close>: the job is queued for the control thread.\<close>

definition request_end :: "string \<Rightarrow> rec_ctl \<Rightarrow> rec_ctl" where
  "request_end reason rc =
     (if lc_state rc \<noteq> RS_Recording then rc
      else rc\<lparr>lc_stop_reason := Some reason, lc_state := RS_Finalizing, lc_end_done := False, lc_jobs := lc_jobs rc + 1\<rparr>)"

text \<open>
  \<open>stop_recording\<close>: the look at the state, the request and what follows the wait, whether
  the job was done or the 15 seconds were over.
\<close>

definition stop_look :: "rec_ctl \<Rightarrow> rec_ctl" where
  "stop_look rc =
     (if lc_state rc = RS_Recording then rc\<lparr>lc_hold := True, lc_requesting := lc_requesting rc + 1\<rparr>
      else if lc_state rc = RS_Finalizing then rc\<lparr>lc_waiting := lc_waiting rc + 1\<rparr>
      else rc)"

definition stop_request :: "rec_ctl \<Rightarrow> rec_ctl" where
  "stop_request rc =
     (if lc_requesting rc = 0 then rc
      else (request_end ''manual'' rc)\<lparr>lc_requesting := lc_requesting rc - 1, lc_waiting := lc_waiting rc + 1\<rparr>)"

definition stop_finish :: "rec_ctl \<Rightarrow> rec_ctl" where
  "stop_finish rc =
     (if lc_waiting rc = 0 then rc
      else let rc = rc\<lparr>lc_waiting := lc_waiting rc - 1\<rparr>;
               rc = (if lc_state rc \<noteq> RS_Recording then rc\<lparr>lc_state := (if can_wait_armed rc then RS_Armed else RS_Idle)\<rparr> else rc)
           in rc\<lparr>lc_triggered := False\<rparr>)"

section \<open>The control thread\<close>

definition job_start :: "rec_ctl \<Rightarrow> rec_ctl" where
  "job_start rc = (if lc_jobs rc = 0 \<or> lc_running rc \<noteq> None then rc
     else rc\<lparr>lc_jobs := lc_jobs rc - 1, lc_running := Some (lc_begun rc)\<rparr>)"

text \<open>
  The end of \<open>_end_recording\<close>. \<open>reported\<close>: the file's name and the time at which a write
  error was reported to the governor, unless the finalization raised before that.
\<close>

definition job_end :: "(string \<times> int) option \<Rightarrow> rec_ctl \<Rightarrow> rec_ctl" where
  "job_end reported rc = (case lc_running rc of
       None \<Rightarrow> rc
     | Some i \<Rightarrow>
         let rc = (case (reported, lc_writer_error rc) of
                 (Some (base, now), Some err) \<Rightarrow> rc\<lparr>lc_gov := map_option (report_write_error (base @ '': '' @ err) now) (lc_gov rc)\<rparr>
               | _ \<Rightarrow> rc);
             reason = (if lc_stop_reason rc \<noteq> Some ''disk_floor'' \<and> lc_stop_reason rc \<noteq> Some ''write_error'' \<and> lc_writer_error rc \<noteq> None
               then Some ''write_error'' else lc_stop_reason rc);
             rc = (case lc_gov rc of
                 Some g \<Rightarrow> if reason = Some ''disk_floor'' \<or> reason = Some ''write_error''
                   then rc\<lparr>lc_storage_hold := Some (gov_ticks g, the reason)\<rparr> else rc
               | None \<Rightarrow> rc)
         in rc\<lparr>lc_state := RS_Idle, lc_end_done := True, lc_running := None, lc_ended := lc_ended rc @ [(i, lc_begun rc)]\<rparr>)"

section \<open>The receiver thread\<close>

text \<open>
  \<open>_check_trigger_and_record\<close>: a chunk is whether its power exceeds the threshold and whether
  the recording has lasted its maximum; \<open>hyst\<close> is \<open>TRIGGER_HYSTERESIS\<close>.
\<close>

record chunk_info =
  ci_above :: bool
  ci_max_over :: bool

definition record_chunk :: "int \<Rightarrow> chunk_info \<Rightarrow> rec_ctl \<Rightarrow> rec_ctl" where
  "record_chunk hyst c rc =
     (if lc_writer_error rc \<noteq> None then request_end ''write_error'' rc
      else if lc_disk_floor rc then request_end ''disk_floor'' rc
      else
        let rc = rc\<lparr>lc_written := lc_written rc + 1\<rparr> in
        if ci_max_over c then request_end ''max_duration'' rc
        else if lc_triggered rc then
          if \<not> ci_above c then
            let rc = rc\<lparr>lc_below := lc_below rc + 1\<rparr>
            in if hyst \<le> lc_below rc then request_end ''trigger_end'' rc else rc
          else rc\<lparr>lc_below := 0\<rparr>
        else rc)"

definition check_chunk :: "int \<Rightarrow> chunk_info \<Rightarrow> rec_ctl \<Rightarrow> rec_ctl" where
  "check_chunk hyst c rc =
     (if lc_receiver rc \<noteq> None then rc
      else if lc_replay rc \<and> \<not> lc_replay_record rc then rc
      else if lc_state rc = RS_Recording then record_chunk hyst c rc
      else rc\<lparr>lc_receiver := Some (ci_above c)\<rparr>)"

text \<open>The part under the lock, with the armed setting as it is then.\<close>

definition check_locked :: "rec_ctl \<Rightarrow> rec_ctl" where
  "check_locked rc = (case lc_receiver rc of
       None \<Rightarrow> rc
     | Some loud \<Rightarrow>
         let rc = rc\<lparr>lc_receiver := None\<rparr>; armed = can_wait_armed rc in
         if lc_state rc = RS_Recording then rc\<lparr>lc_written := lc_written rc + 1\<rparr>
         else
           let rc = (if lc_state rc = RS_Idle \<and> armed then rc\<lparr>lc_state := RS_Armed\<rparr>
                 else if lc_state rc = RS_Armed \<and> \<not> armed then rc\<lparr>lc_state := RS_Idle\<rparr> else rc)
           in if lc_state rc \<noteq> RS_Armed then rc
              else if lc_hold rc then (if loud then rc else rc\<lparr>lc_hold := False\<rparr>)
              else if loud then let (no, rc) = refused rc in if no then rc else begin_recording (rc\<lparr>lc_triggered := True\<rparr>)
              else rc)"

section \<open>The steps\<close>

datatype ctl_event =
  Start_Check | Start_Locked | Arm | Disarm | Stop_Look | Stop_Request | Stop_Finish
| Job_Start | Job_End "(string \<times> int) option"
| Chunk chunk_info | Chunk_Locked
| Writer_Failed string | Floor_Hit | Replay_Record bool | Gov gov_op

fun ctl_step :: "int \<Rightarrow> ctl_event \<Rightarrow> rec_ctl \<Rightarrow> rec_ctl" where
  "ctl_step hyst Start_Check rc = start_check rc"
| "ctl_step hyst Start_Locked rc = start_locked rc"
| "ctl_step hyst Arm rc = arm_trigger rc"
| "ctl_step hyst Disarm rc = disarm_trigger rc"
| "ctl_step hyst Stop_Look rc = stop_look rc"
| "ctl_step hyst Stop_Request rc = stop_request rc"
| "ctl_step hyst Stop_Finish rc = stop_finish rc"
| "ctl_step hyst Job_Start rc = job_start rc"
| "ctl_step hyst (Job_End r) rc = job_end r rc"
| "ctl_step hyst (Chunk c) rc = check_chunk hyst c rc"
| "ctl_step hyst Chunk_Locked rc = check_locked rc"
| "ctl_step hyst (Writer_Failed err) rc = rc\<lparr>lc_writer_error := Some err\<rparr>"
| "ctl_step hyst Floor_Hit rc = rc\<lparr>lc_disk_floor := True\<rparr>"
| "ctl_step hyst (Replay_Record on) rc = rc\<lparr>lc_replay_record := on\<rparr>"
| "ctl_step hyst (Gov p) rc = rc\<lparr>lc_gov := map_option (gov_apply p) (lc_gov rc)\<rparr>"

definition ctl_run :: "int \<Rightarrow> ctl_event list \<Rightarrow> rec_ctl \<Rightarrow> rec_ctl" where
  "ctl_run hyst es rc = fold (ctl_step hyst) es rc"

lemma ctl_run_simps [simp]:
  "ctl_run hyst [] rc = rc" "ctl_run hyst (e # es) rc = ctl_run hyst es (ctl_step hyst e rc)"
  "ctl_run hyst (es @ fs) rc = ctl_run hyst fs (ctl_run hyst es rc)"
  by (simp_all add: ctl_run_def)

lemmas ctl_defs = start_check_def start_locked_def arm_trigger_def disarm_trigger_def stop_look_def stop_request_def
  stop_finish_def job_start_def check_chunk_def check_locked_def record_chunk_def request_end_def begin_recording_def refused_def

section \<open>Each recording is finalized once\<close>


















section \<open>A manual stop holds the trigger\<close>

definition trigger_held :: "nat \<Rightarrow> rec_ctl \<Rightarrow> bool" where
  "trigger_held n rc \<longleftrightarrow> lc_hold rc \<and> lc_receiver rc \<noteq> Some False \<and> lc_starting rc = 0 \<and> lc_begun rc = n"

lemma trigger_held_copy:
  "trigger_held n a \<Longrightarrow> lc_hold b = lc_hold a \<Longrightarrow> lc_receiver b = lc_receiver a \<Longrightarrow> lc_starting b = lc_starting a \<Longrightarrow> lc_begun b = lc_begun a \<Longrightarrow> trigger_held n b"
  by (simp add: trigger_held_def)

lemma request_end_keeps [simp]:
  "lc_hold (request_end r rc) = lc_hold rc" "lc_receiver (request_end r rc) = lc_receiver rc"
  "lc_starting (request_end r rc) = lc_starting rc" "lc_begun (request_end r rc) = lc_begun rc"
  "lc_gov (request_end r rc) = lc_gov rc" "lc_storage_hold (request_end r rc) = lc_storage_hold rc"
  by (simp_all add: request_end_def)

lemma record_chunk_keeps [simp]:
  "lc_hold (record_chunk h c rc) = lc_hold rc" "lc_receiver (record_chunk h c rc) = lc_receiver rc"
  "lc_starting (record_chunk h c rc) = lc_starting rc" "lc_begun (record_chunk h c rc) = lc_begun rc"
  "lc_gov (record_chunk h c rc) = lc_gov rc" "lc_storage_hold (record_chunk h c rc) = lc_storage_hold rc"
  by (simp_all add: record_chunk_def Let_def)

lemma job_end_keeps [simp]:
  "lc_hold (job_end r rc) = lc_hold rc" "lc_receiver (job_end r rc) = lc_receiver rc"
  "lc_starting (job_end r rc) = lc_starting rc" "lc_begun (job_end r rc) = lc_begun rc"
  by (simp_all add: job_end_def Let_def split: option.split)

lemma trigger_held_step:
  assumes h: "trigger_held n rc" and e: "e \<noteq> Start_Check" "e \<noteq> Disarm" "\<And>c. e = Chunk c \<Longrightarrow> ci_above c"
  shows "trigger_held n (ctl_step hyst e rc)"
proof (cases e)
  case Start_Locked
  then show ?thesis using h by (simp add: trigger_held_def start_locked_def)
next
  case (Chunk c)
  then show ?thesis using h e(3) by (auto simp: trigger_held_def check_chunk_def)
next
  case Chunk_Locked
  show ?thesis
  proof (cases "lc_receiver rc")
    case None
    then show ?thesis using h Chunk_Locked by (simp add: check_locked_def)
  next
    case (Some loud)
    then show ?thesis using h Chunk_Locked by (auto simp: trigger_held_def check_locked_def Let_def)
  qed
qed (use e trigger_held_copy [OF h] in \<open>auto simp: arm_trigger_def refused_def Let_def stop_look_def stop_request_def stop_finish_def job_start_def trigger_held_def\<close>)

text \<open>
  C24: After a manual stop, an armed trigger begins no recording, whatever the threads do, until a chunk
  below the threshold is seen, the trigger is disarmed or a start is asked for by hand.
\<close>
theorem stop_holds_trigger:
  assumes "lc_state rc = RS_Recording" "lc_receiver rc \<noteq> Some False" "lc_starting rc = 0"
    and "\<forall>e \<in> set es. e \<noteq> Start_Check \<and> e \<noteq> Disarm \<and> (\<forall>c. e = Chunk c \<longrightarrow> ci_above c)"
  shows "lc_begun (ctl_run hyst (Stop_Look # es) rc) = lc_begun rc"
proof -
  have "trigger_held (lc_begun rc) (stop_look rc)" using assms(1-3) by (simp add: trigger_held_def stop_look_def)
  then have "trigger_held (lc_begun rc) (ctl_run hyst es (stop_look rc))" using assms(4)
  proof (induction es rule: rev_induct)
    case (snoc e es)
    then show ?case by (auto simp: ctl_run_def intro!: trigger_held_step)
  qed simp
  then show ?thesis by (simp add: trigger_held_def)
qed

abbreviation loud_chunk :: ctl_event where "loud_chunk \<equiv> Chunk \<lparr>ci_above = True, ci_max_over = False\<rparr>"
abbreviation quiet_chunk :: ctl_event where "quiet_chunk \<equiv> Chunk \<lparr>ci_above = False, ci_max_over = False\<rparr>"

theorem stop_holds_trigger_witness:
  "let rc = ctl_run 2 [loud_chunk, Chunk_Locked] (rec_ctl_new True False None);
       es = [Stop_Request, Job_Start, Job_End None, Stop_Finish, loud_chunk, Chunk_Locked, loud_chunk, Chunk_Locked]
   in lc_begun rc = 1 \<and> lc_begun (ctl_run 2 (Stop_Look # es) rc) = 1 \<and>
      lc_begun (ctl_run 2 (Stop_Look # es @ [quiet_chunk, Chunk_Locked, loud_chunk, Chunk_Locked]) rc) = 2"
proof -
  define rc where "rc = ctl_run 2 [loud_chunk, Chunk_Locked] (rec_ctl_new True False None)"
  let ?es = "[Stop_Request, Job_Start, Job_End None, Stop_Finish, loud_chunk, Chunk_Locked, loud_chunk, Chunk_Locked]"
  have rc: "lc_state rc = RS_Recording" "lc_receiver rc = None" "lc_starting rc = 0" "lc_begun rc = 1"
    by (simp_all add: rc_def rec_ctl_new_def ctl_defs recording_refusal_def can_wait_armed_def Let_def)
  have "lc_begun (ctl_run 2 (Stop_Look # ?es) rc) = 1" using stop_holds_trigger [of rc ?es 2] rc by (simp del: ctl_run_simps)
  moreover have "lc_begun (ctl_run 2 (Stop_Look # ?es @ [quiet_chunk, Chunk_Locked, loud_chunk, Chunk_Locked]) rc) = 2"
    unfolding rc_def by (simp add: rec_ctl_new_def ctl_defs recording_refusal_def job_end_def can_wait_armed_def Let_def)
  ultimately show ?thesis using rc(4) by (simp add: rc_def del: ctl_run_simps)
qed

section \<open>A storage stop holds every start\<close>






lemma gov_ticks_other [simp]:
  "gov_ticks (report_write_error m t g) = gov_ticks g" "gov_ticks (note_young_evictions n a t g) = gov_ticks g"
  "gov_ticks (clear_degraded g) = gov_ticks g"
  by (simp_all add: report_write_error_def note_young_evictions_def clear_degraded_def Let_def split: prod.splits)










section \<open>The trigger's end\<close>

definition quiet_window :: "nat \<Rightarrow> chunk_info list \<Rightarrow> bool" where
  "quiet_window w cs \<longleftrightarrow> (\<exists>k. k + w \<le> length cs \<and> (\<forall>i < w. \<not> ci_above (cs ! (k + i))))"

definition quiet_tail :: "chunk_info list \<Rightarrow> nat" where
  "quiet_tail cs = length (takeWhile (\<lambda>c. \<not> ci_above c) (rev cs))"

lemma takeWhile_reaches: "w \<le> length (takeWhile P ys) \<longleftrightarrow> w \<le> length ys \<and> (\<forall>i < w. P (ys ! i))"
proof (induction ys arbitrary: w)
  case (Cons y ys)
  show ?case using Cons.IH [of "w - 1"] by (cases w) (auto simp: less_Suc_eq_0_disj)
qed auto

lemma quiet_tail_window: "w \<le> quiet_tail cs \<longleftrightarrow> w \<le> length cs \<and> (\<forall>i < w. \<not> ci_above (cs ! (length cs - w + i)))"
proof -
  have "(\<forall>i < w. \<not> ci_above (rev cs ! i)) \<longleftrightarrow> (\<forall>i < w. \<not> ci_above (cs ! (length cs - w + i)))" if w: "w \<le> length cs"
  proof
    assume l: "\<forall>i < w. \<not> ci_above (rev cs ! i)"
    show "\<forall>i < w. \<not> ci_above (cs ! (length cs - w + i))"
    proof (intro allI impI)
      fix i assume "i < w"
      then show "\<not> ci_above (cs ! (length cs - w + i))" using l [rule_format, of "w - 1 - i"] w by (simp add: rev_nth)
    qed
  next
    assume r: "\<forall>i < w. \<not> ci_above (cs ! (length cs - w + i))"
    show "\<forall>i < w. \<not> ci_above (rev cs ! i)"
    proof (intro allI impI)
      fix i assume "i < w"
      then show "\<not> ci_above (rev cs ! i)" using r [rule_format, of "w - 1 - i"] w by (simp add: rev_nth)
    qed
  qed
  then show ?thesis by (auto simp: quiet_tail_def takeWhile_reaches)
qed

lemma quiet_window_snoc: "quiet_window w (cs @ [c]) \<longleftrightarrow> quiet_window w cs \<or> w \<le> quiet_tail (cs @ [c])"
proof
  assume "quiet_window w (cs @ [c])"
  then obtain k where k: "k + w \<le> length cs + 1" "\<And>i. i < w \<Longrightarrow> \<not> ci_above ((cs @ [c]) ! (k + i))" by (auto simp: quiet_window_def)
  show "quiet_window w cs \<or> w \<le> quiet_tail (cs @ [c])"
  proof (cases "k + w \<le> length cs")
    case True
    then have "\<not> ci_above (cs ! (k + i))" if "i < w" for i using k(2) [OF that] that by (simp add: nth_append)
    then show ?thesis using True by (auto simp: quiet_window_def)
  next
    case False
    then have "k = length (cs @ [c]) - w" using k(1) by simp
    then show ?thesis using k by (simp add: quiet_tail_window)
  qed
next
  assume "quiet_window w cs \<or> w \<le> quiet_tail (cs @ [c])"
  then show "quiet_window w (cs @ [c])"
  proof
    assume "quiet_window w cs"
    then obtain k where k: "k + w \<le> length cs" "\<forall>i < w. \<not> ci_above (cs ! (k + i))" by (auto simp: quiet_window_def)
    then show ?thesis unfolding quiet_window_def by (intro exI [of _ k]) (simp add: nth_append)
  next
    assume "w \<le> quiet_tail (cs @ [c])"
    then have t: "w \<le> length (cs @ [c])" "\<forall>i < w. \<not> ci_above ((cs @ [c]) ! (length (cs @ [c]) - w + i))"
      unfolding quiet_tail_window by blast+
    show ?thesis unfolding quiet_window_def by (intro exI [of _ "length (cs @ [c]) - w"] conjI t(2)) (use t(1) in simp)
  qed
qed

lemma tail_below: "0 < w \<Longrightarrow> \<not> quiet_window w cs \<Longrightarrow> quiet_tail cs < w"
  by (cases cs rule: rev_cases) (auto simp: quiet_tail_def quiet_window_snoc not_le dest: leI)

lemma triggered_chunks:
  assumes rc: "lc_state rc = RS_Recording" "lc_triggered rc" "lc_below rc = 0" "lc_writer_error rc = None" "\<not> lc_disk_floor rc"
      "lc_receiver rc = None" "lc_replay rc \<longrightarrow> lc_replay_record rc"
    and cs: "\<forall>c \<in> set cs. \<not> ci_max_over c" and w: "w = max 1 (nat hyst)"
  shows "if quiet_window w cs
    then lc_state (ctl_run hyst (map Chunk cs) rc) = RS_Finalizing \<and> lc_stop_reason (ctl_run hyst (map Chunk cs) rc) = Some ''trigger_end'' \<and>
      (\<exists>n < length cs. quiet_window w (take (Suc n) cs) \<and> \<not> quiet_window w (take n cs) \<and> lc_written (ctl_run hyst (map Chunk cs) rc) = lc_written rc + Suc n)
    else ctl_run hyst (map Chunk cs) rc = rc\<lparr>lc_written := lc_written rc + length cs, lc_below := int (quiet_tail cs)\<rparr>"
  using cs
proof (induction cs rule: rev_induct)
  case Nil
  have "\<not> quiet_window w []" using w by (simp add: quiet_window_def)
  then show ?case using rc(3) by (cases rc) (simp add: quiet_tail_def)
next
  case (snoc c cs)
  let ?r = "ctl_run hyst (map Chunk cs) rc"
  have c: "\<not> ci_max_over c" using snoc.prems by simp
  show ?case
  proof (cases "quiet_window w cs")
    case True
    then have r: "lc_state ?r = RS_Finalizing" "lc_stop_reason ?r = Some ''trigger_end''"
      and n: "\<exists>n < length cs. quiet_window w (take (Suc n) cs) \<and> \<not> quiet_window w (take n cs) \<and> lc_written ?r = lc_written rc + Suc n"
      using snoc by simp_all
    have "lc_state (check_chunk hyst c ?r) = RS_Finalizing" "lc_stop_reason (check_chunk hyst c ?r) = Some ''trigger_end''"
      "lc_written (check_chunk hyst c ?r) = lc_written ?r" using r by (simp_all add: check_chunk_def)
    moreover have "\<exists>n < length (cs @ [c]). quiet_window w (take (Suc n) (cs @ [c])) \<and> \<not> quiet_window w (take n (cs @ [c])) \<and> lc_written ?r = lc_written rc + Suc n"
    proof -
      from n obtain n where n: "n < length cs" "quiet_window w (take (Suc n) cs)" "\<not> quiet_window w (take n cs)" "lc_written ?r = lc_written rc + Suc n" by blast
      then show ?thesis by (intro exI [of _ n]) simp
    qed
    ultimately show ?thesis using True by (simp add: quiet_window_snoc)
  next
    case False
    then have r: "?r = rc\<lparr>lc_written := lc_written rc + length cs, lc_below := int (quiet_tail cs)\<rparr>" using snoc by simp
    have tail: "quiet_tail (cs @ [c]) = (if ci_above c then 0 else Suc (quiet_tail cs))" by (simp add: quiet_tail_def)
    have win: "quiet_window w (cs @ [c]) \<longleftrightarrow> \<not> ci_above c \<and> hyst \<le> int (quiet_tail cs) + 1"
      using False tail w by (auto simp: quiet_window_snoc max_def)
    show ?thesis
    proof (cases "quiet_window w (cs @ [c])")
      case True
      then have "check_chunk hyst c ?r = request_end ''trigger_end'' (rc\<lparr>lc_written := lc_written rc + length cs + 1, lc_below := int (quiet_tail cs) + 1\<rparr>)"
        unfolding r using win c rc by (auto simp: check_chunk_def record_chunk_def Let_def)
      then show ?thesis using True False rc(1) by (auto simp: request_end_def intro!: exI [of _ "length cs"])
    next
      case nw: False
      then have "check_chunk hyst c ?r = rc\<lparr>lc_written := lc_written rc + length cs + 1, lc_below := int (quiet_tail (cs @ [c]))\<rparr>"
        unfolding r tail using win c rc by (auto simp: check_chunk_def record_chunk_def Let_def)
      then show ?thesis using nw by simp
    qed
  qed
qed

text \<open>
  C25: A triggered recording with no other reason to end is ended at the first chunk that completes a run of
  \<open>TRIGGER_HYSTERESIS\<close> chunks (one, if that is less) not above the threshold: the chunks up to that one,
  and no other, are written. Without such a run it goes on.
\<close>
theorem trigger_end_exact:
  assumes "lc_state rc = RS_Recording" "lc_triggered rc" "lc_below rc = 0" "lc_writer_error rc = None" "\<not> lc_disk_floor rc"
      "lc_receiver rc = None" "lc_replay rc \<longrightarrow> lc_replay_record rc"
    and "\<forall>c \<in> set cs. \<not> ci_max_over c" and "rc' = ctl_run hyst (map Chunk cs) rc" and "w = max 1 (nat hyst)"
  shows "if quiet_window w cs
    then lc_state rc' = RS_Finalizing \<and> lc_stop_reason rc' = Some ''trigger_end'' \<and>
      (\<exists>n < length cs. quiet_window w (take (Suc n) cs) \<and> \<not> quiet_window w (take n cs) \<and> lc_written rc' = lc_written rc + Suc n)
    else lc_state rc' = RS_Recording \<and> lc_written rc' = lc_written rc + length cs"
  using triggered_chunks [OF assms(1-8,10)] assms(1) unfolding assms(9) by (simp split: if_splits)

theorem trigger_end_exact_witness:
  "let rc = ctl_run 2 [loud_chunk, Chunk_Locked] (rec_ctl_new True False None);
       rc' = ctl_run 2 [quiet_chunk, loud_chunk, quiet_chunk, quiet_chunk, loud_chunk] rc
   in lc_state rc' = RS_Finalizing \<and> lc_written rc' = 4"
proof -
  define rc where "rc = ctl_run 2 [loud_chunk, Chunk_Locked] (rec_ctl_new True False None)"
  let ?cs = "map (\<lambda>a. \<lparr>ci_above = a, ci_max_over = False\<rparr>) [False, True, False, False, True]"
  have rc: "lc_state rc = RS_Recording" "lc_triggered rc" "lc_below rc = 0" "lc_writer_error rc = None" "\<not> lc_disk_floor rc"
      "lc_receiver rc = None" "lc_replay rc \<longrightarrow> lc_replay_record rc" "lc_written rc = 0"
    by (simp_all add: rc_def rec_ctl_new_def ctl_defs recording_refusal_def can_wait_armed_def Let_def)
  have q: "quiet_window 2 ?cs" unfolding quiet_window_def by (intro exI [of _ 2]) (simp add: less_2_cases_iff nth_Cons')
  have "lc_state (ctl_run 2 (map Chunk ?cs) rc) = RS_Finalizing \<and>
    (\<exists>n < length ?cs. quiet_window 2 (take (Suc n) ?cs) \<and> \<not> quiet_window 2 (take n ?cs) \<and> lc_written (ctl_run 2 (map Chunk ?cs) rc) = Suc n)"
    using trigger_end_exact [OF rc(1-7) _ refl, of ?cs 2 2] q rc(8) by (simp del: ctl_run_simps)
  moreover have "lc_written (ctl_run 2 (map Chunk ?cs) rc) = 4"
    unfolding rc_def by (simp add: rec_ctl_new_def ctl_defs recording_refusal_def can_wait_armed_def Let_def)
  ultimately show ?thesis by (simp add: rc_def del: ctl_run_simps)
qed

end
