(* ===== verification/Averaging.thy ===== *)
theory Averaging
  imports Prelude
begin

text \<open>
  The averaged windows of the live view and the database, the result consumer loop of
  \<open>pipeline/streaming.py\<close>: chunk results are collected until \<open>DURATION_SEC\<close> is over, the
  results stop coming, or the tuning changes, and each window is published with its average
  and its real time span (\<open>_AvgWindowClock\<close>). Clocks and powers are exact rationals; a
  reading of both clocks is a pair of the monotonic and the wall clock.
\<close>

section \<open>Results and their moments\<close>

record iq_moments =
  im_n :: int
  im_s_abs :: rat
  im_s_pow :: rat
  im_s_pow2 :: rat
  im_max_pow :: rat
  im_hist :: "int list"

definition moments_add :: "iq_moments \<Rightarrow> iq_moments \<Rightarrow> iq_moments" where
  "moments_add a b = \<lparr>im_n = im_n a + im_n b, im_s_abs = im_s_abs a + im_s_abs b, im_s_pow = im_s_pow a + im_s_pow b,
     im_s_pow2 = im_s_pow2 a + im_s_pow2 b, im_max_pow = max (im_max_pow a) (im_max_pow b), im_hist = map2 (+) (im_hist a) (im_hist b)\<rparr>"

record stream_result =
  sr_powers :: "rat list"
  sr_center_freq :: int
  sr_capture_time :: "rat option"
  sr_moments :: iq_moments

type_synonym reading = "rat \<times> rat"

section \<open>The window's clock\<close>

record avg_clock =
  ak_max_gap :: rat
  ak_start :: "reading option"
  ak_last_mono :: rat
  ak_has_results :: bool

definition clock_new :: "rat \<Rightarrow> avg_clock" where
  "clock_new max_gap = \<lparr>ak_max_gap = max_gap, ak_start = None, ak_last_mono = 0, ak_has_results = False\<rparr>"

definition clock_reset :: "avg_clock \<Rightarrow> avg_clock" where
  "clock_reset k = k\<lparr>ak_start := None, ak_has_results := False\<rparr>"

definition mark_result :: "rat \<Rightarrow> reading \<Rightarrow> avg_clock \<Rightarrow> avg_clock" where
  "mark_result waited now k =
     (let k = (if ak_start k \<noteq> None \<and> \<not> ak_has_results k \<and> ak_max_gap k < waited then clock_reset k else k);
          k = (if ak_start k = None then k\<lparr>ak_start := Some now\<rparr> else k)
      in k\<lparr>ak_last_mono := fst now, ak_has_results := True\<rparr>)"

definition clock_elapsed :: "rat \<Rightarrow> avg_clock \<Rightarrow> rat" where
  "clock_elapsed now k = (case ak_start k of None \<Rightarrow> 0 | Some s \<Rightarrow> now - fst s)"

text \<open>\<open>close\<close>, now or at the last result: the window's start and duration; without a start its assertion fails.\<close>

definition clock_close :: "reading option \<Rightarrow> avg_clock \<Rightarrow> ((reading \<times> rat) \<times> avg_clock) option" where
  "clock_close now k = (case ak_start k of
       None \<Rightarrow> None
     | Some s \<Rightarrow> (case now of
         None \<Rightarrow> Some ((s, max 0 (ak_last_mono k - fst s)), clock_reset k)
       | Some t \<Rightarrow> Some ((s, max 0 (fst t - fst s)), k\<lparr>ak_start := Some t, ak_has_results := False\<rparr>)))"

section \<open>The consumer loop\<close>

text \<open>
  A published window: the average, the number of chunks, their moments, the last result, the start, the duration and
  the span on the capture clock. Ghost: \<open>lw_results\<close>, its results with their arrivals.
\<close>

record live_window =
  lw_avg :: "rat list"
  lw_count :: nat
  lw_moments :: iq_moments
  lw_last :: stream_result
  lw_start :: reading
  lw_duration :: rat
  lw_capture_span :: "(rat \<times> rat) option"
  lw_results :: "(rat \<times> stream_result) list"

datatype segment = Published live_window | Dropped "(rat \<times> stream_result) list"

record consumer =
  cs_clock :: avg_clock
  cs_accum :: "rat list list"
  cs_moments :: "iq_moments option"
  cs_last :: "stream_result option"
  cs_first_capture :: "rat option"
  cs_pending :: "(rat \<times> stream_result) list"
  cs_log :: "segment list"
  cs_failed :: bool

definition consumer_new :: "rat \<Rightarrow> consumer" where
  "consumer_new chunk_duration = \<lparr>cs_clock = clock_new (max (1 / 5) (4 * chunk_duration)), cs_accum = [], cs_moments = None,
     cs_last = None, cs_first_capture = None, cs_pending = [], cs_log = [], cs_failed = False\<rparr>"

definition mean_powers :: "rat list list \<Rightarrow> rat list" where
  "mean_powers ps = (case ps of [] \<Rightarrow> []
     | p # _ \<Rightarrow> map (\<lambda>i. (\<Sum>q \<leftarrow> ps. q ! i) / of_nat (length ps)) [0..<length p])"

definition capture_span :: "rat \<Rightarrow> consumer \<Rightarrow> stream_result \<Rightarrow> (rat \<times> rat) option" where
  "capture_span chunk_duration c res = (case (cs_first_capture c, sr_capture_time res) of
       (Some a, Some b) \<Rightarrow> Some (a, b + chunk_duration) | _ \<Rightarrow> None)"

text \<open>Closing the window now or at its last result and publishing it.\<close>

definition emit_window :: "rat \<Rightarrow> reading option \<Rightarrow> stream_result \<Rightarrow> consumer \<Rightarrow> consumer" where
  "emit_window chunk_duration now res c = (case (cs_moments c, clock_close now (cs_clock c)) of
       (Some m, Some ((start, duration), k)) \<Rightarrow>
         c\<lparr>cs_clock := k, cs_accum := [], cs_moments := None, cs_last := None, cs_pending := [],
           cs_log := cs_log c @ [Published \<lparr>lw_avg = mean_powers (cs_accum c), lw_count = length (cs_accum c), lw_moments = m,
             lw_last = res, lw_start = start, lw_duration = duration, lw_capture_span = capture_span chunk_duration c res,
             lw_results = cs_pending c\<rparr>]\<rparr>
     | _ \<Rightarrow> c\<lparr>cs_failed := True\<rparr>)"

definition flush_pending :: "rat \<Rightarrow> consumer \<Rightarrow> consumer" where
  "flush_pending chunk_duration c = (case cs_last c of
       Some res \<Rightarrow> if cs_accum c = [] then c\<lparr>cs_clock := clock_reset (cs_clock c)\<rparr> else emit_window chunk_duration None res c
     | None \<Rightarrow> c\<lparr>cs_clock := clock_reset (cs_clock c)\<rparr>)"

text \<open>A change of the bins drops what is pending; a retune publishes it.\<close>

definition consumer_tuning :: "rat \<Rightarrow> stream_result \<Rightarrow> consumer \<Rightarrow> consumer" where
  "consumer_tuning chunk_duration res c =
     (if cs_accum c \<noteq> [] \<and> length (hd (cs_accum c)) \<noteq> length (sr_powers res)
      then c\<lparr>cs_accum := [], cs_moments := None, cs_clock := clock_reset (cs_clock c), cs_last := None,
        cs_pending := [], cs_log := cs_log c @ [Dropped (cs_pending c)]\<rparr>
      else case cs_last c of
        Some l \<Rightarrow> if sr_center_freq l \<noteq> sr_center_freq res then flush_pending chunk_duration c else c
      | None \<Rightarrow> c)"

definition accumulate :: "rat \<Rightarrow> reading \<Rightarrow> stream_result \<Rightarrow> consumer \<Rightarrow> consumer" where
  "accumulate waited now res c = c\<lparr>cs_clock := mark_result waited now (cs_clock c),
     cs_first_capture := (if cs_accum c = [] then sr_capture_time res else cs_first_capture c),
     cs_accum := cs_accum c @ [sr_powers res],
     cs_moments := Some (case cs_moments c of None \<Rightarrow> sr_moments res | Some m \<Rightarrow> moments_add m (sr_moments res)),
     cs_last := Some res, cs_pending := cs_pending c @ [(fst now, res)]\<rparr>"

text \<open>A result, with the clock as it is marked, as the elapsed time is read and as the window is closed.\<close>

definition handle_result :: "rat \<Rightarrow> rat \<Rightarrow> rat \<Rightarrow> reading \<Rightarrow> rat \<Rightarrow> reading \<Rightarrow> stream_result \<Rightarrow> consumer \<Rightarrow> consumer" where
  "handle_result chunk_duration duration_sec waited t1 t2 t3 res c =
     (let c = accumulate waited t1 res (consumer_tuning chunk_duration res c)
      in if duration_sec \<le> clock_elapsed t2 (cs_clock c) then emit_window chunk_duration (Some t3) res c else c)"

datatype consumer_event = Idle_Timeout | Result_In rat reading rat reading stream_result

fun consumer_step :: "rat \<Rightarrow> rat \<Rightarrow> consumer_event \<Rightarrow> consumer \<Rightarrow> consumer" where
  "consumer_step chunk_duration duration_sec Idle_Timeout c = flush_pending chunk_duration c"
| "consumer_step chunk_duration duration_sec (Result_In waited t1 t2 t3 res) c = handle_result chunk_duration duration_sec waited t1 t2 t3 res c"

definition consumer_run :: "rat \<Rightarrow> rat \<Rightarrow> consumer_event list \<Rightarrow> consumer" where
  "consumer_run chunk_duration duration_sec es = fold (consumer_step chunk_duration duration_sec) es (consumer_new chunk_duration)"

lemma consumer_run_simps [simp]:
  "consumer_run cd d [] = consumer_new cd" "consumer_run cd d (es @ [e]) = consumer_step cd d e (consumer_run cd d es)"
  by (simp_all add: consumer_run_def)

section \<open>What a window is\<close>

text \<open>The results with their arrivals, and a monotonic clock that never goes back.\<close>

fun arrivals :: "consumer_event list \<Rightarrow> (rat \<times> stream_result) list" where
  "arrivals [] = []"
| "arrivals (Idle_Timeout # es) = arrivals es"
| "arrivals (Result_In waited t1 t2 t3 res # es) = (fst t1, res) # arrivals es"

fun clock_forward :: "rat \<Rightarrow> consumer_event list \<Rightarrow> bool" where
  "clock_forward t [] \<longleftrightarrow> True"
| "clock_forward t (Idle_Timeout # es) \<longleftrightarrow> clock_forward t es"
| "clock_forward t (Result_In waited t1 t2 t3 res # es) \<longleftrightarrow> t \<le> fst t1 \<and> fst t1 \<le> t2 \<and> t2 \<le> fst t3 \<and> clock_forward (fst t3) es"

fun segment_results :: "segment \<Rightarrow> (rat \<times> stream_result) list" where
  "segment_results (Published w) = lw_results w"
| "segment_results (Dropped rs) = rs"

definition live_windows :: "segment list \<Rightarrow> live_window list" where
  "live_windows segs = concat (map (\<lambda>s. case s of Published w \<Rightarrow> [w] | Dropped _ \<Rightarrow> []) segs)"

definition same_tuning :: "(rat \<times> stream_result) list \<Rightarrow> bool" where
  "same_tuning rs \<longleftrightarrow> (\<forall>r \<in> set rs. \<forall>s \<in> set rs. sr_center_freq (snd r) = sr_center_freq (snd s) \<and>
     length (sr_powers (snd r)) = length (sr_powers (snd s)))"

definition sum_moments :: "(rat \<times> stream_result) list \<Rightarrow> iq_moments option" where
  "sum_moments rs = (case rs of [] \<Rightarrow> None | r # rs \<Rightarrow> Some (foldl (\<lambda>m r. moments_add m (sr_moments (snd r))) (sr_moments (snd r)) rs))"

lemma sum_moments_snoc:
  "sum_moments (rs @ [r]) = Some (case sum_moments rs of None \<Rightarrow> sr_moments (snd r) | Some m \<Rightarrow> moments_add m (sr_moments (snd r)))"
  by (cases rs) (simp_all add: sum_moments_def)

text \<open>
  A window is right: it has results, all of one tuning, their average, count and moments, and
  every one arrived within it.
\<close>

definition window_ok :: "live_window \<Rightarrow> bool" where
  "window_ok w \<longleftrightarrow> lw_results w \<noteq> [] \<and> same_tuning (lw_results w) \<and>
     lw_avg w = mean_powers (map (sr_powers \<circ> snd) (lw_results w)) \<and> lw_count w = length (lw_results w) \<and>
     sum_moments (lw_results w) = Some (lw_moments w) \<and> lw_last w = snd (last (lw_results w)) \<and> 0 \<le> lw_duration w \<and>
     (\<forall>(t, res) \<in> set (lw_results w). fst (lw_start w) \<le> t \<and> t \<le> fst (lw_start w) + lw_duration w)"

fun windows_apart :: "live_window list \<Rightarrow> bool" where
  "windows_apart (v # w # ws) \<longleftrightarrow> fst (lw_start v) + lw_duration v \<le> fst (lw_start w) \<and> windows_apart (w # ws)"
| "windows_apart _ \<longleftrightarrow> True"

lemma windows_apart_snoc:
  "windows_apart (ws @ [w]) \<longleftrightarrow> windows_apart ws \<and> (ws \<noteq> [] \<longrightarrow> fst (lw_start (last ws)) + lw_duration (last ws) \<le> fst (lw_start w))"
  by (induction ws rule: windows_apart.induct) auto

section \<open>The loop's invariant\<close>

text \<open>\<open>t\<close> is the last reading of the clock, \<open>rs\<close> the results so far.\<close>

definition consumer_inv :: "rat \<Rightarrow> (rat \<times> stream_result) list \<Rightarrow> consumer \<Rightarrow> bool" where
  "consumer_inv t rs c \<longleftrightarrow> \<not> cs_failed c \<and> concat (map segment_results (cs_log c)) @ cs_pending c = rs \<and>
     cs_accum c = map (sr_powers \<circ> snd) (cs_pending c) \<and> cs_moments c = sum_moments (cs_pending c) \<and>
     cs_last c = (if cs_pending c = [] then None else Some (snd (last (cs_pending c)))) \<and> same_tuning (cs_pending c) \<and>
     (\<forall>w \<in> set (live_windows (cs_log c)). window_ok w) \<and> windows_apart (live_windows (cs_log c)) \<and>
     (case ak_start (cs_clock c) of
        None \<Rightarrow> cs_pending c = [] \<and> (live_windows (cs_log c) \<noteq> [] \<longrightarrow>
          (let w = last (live_windows (cs_log c)) in fst (lw_start w) + lw_duration w \<le> t))
      | Some s \<Rightarrow> fst s \<le> t \<and> (cs_pending c \<noteq> [] \<longrightarrow> fst s \<le> ak_last_mono (cs_clock c) \<and> ak_last_mono (cs_clock c) \<le> t) \<and>
          (\<forall>(a, res) \<in> set (cs_pending c). fst s \<le> a \<and> a \<le> ak_last_mono (cs_clock c)) \<and>
          (live_windows (cs_log c) \<noteq> [] \<longrightarrow> (let w = last (live_windows (cs_log c)) in fst (lw_start w) + lw_duration w \<le> fst s))) \<and>
     (cs_pending c \<noteq> [] \<longrightarrow> ak_has_results (cs_clock c))"

lemma live_windows_snoc [simp]:
  "live_windows [] = []" "live_windows (xs @ [Published w]) = live_windows xs @ [w]" "live_windows (xs @ [Dropped rs]) = live_windows xs"
  by (simp_all add: live_windows_def)

lemma consumer_inv_new: "consumer_inv t [] (consumer_new cd)"
  by (simp add: consumer_inv_def consumer_new_def clock_new_def sum_moments_def same_tuning_def)

lemma consumer_inv_later: "consumer_inv t rs c \<Longrightarrow> t \<le> u \<Longrightarrow> consumer_inv u rs c"
  by (auto simp: consumer_inv_def Let_def split: option.splits)

lemma inv_end: "consumer_inv t rs c \<Longrightarrow> live_windows (cs_log c) \<noteq> [] \<Longrightarrow>
    fst (lw_start (last (live_windows (cs_log c)))) + lw_duration (last (live_windows (cs_log c))) \<le> t"
  by (auto simp: consumer_inv_def Let_def split: option.splits)

lemma inv_parts:
  assumes "consumer_inv t rs c"
  shows "\<not> cs_failed c" "concat (map segment_results (cs_log c)) @ cs_pending c = rs" "cs_accum c = map (sr_powers \<circ> snd) (cs_pending c)"
    "cs_moments c = sum_moments (cs_pending c)" "\<forall>w \<in> set (live_windows (cs_log c)). window_ok w" "windows_apart (live_windows (cs_log c))"
    "cs_last c = (if cs_pending c = [] then None else Some (snd (last (cs_pending c))))" "same_tuning (cs_pending c)"
  using assms by (simp_all add: consumer_inv_def)

lemma inv_empty:
  assumes i: "consumer_inv t rs c" and k: "ak_start k = None"
    and c': "c' = c\<lparr>cs_accum := [], cs_moments := None, cs_clock := k, cs_last := None, cs_pending := [],
      cs_log := cs_log c @ (if cs_pending c = [] then [] else [Dropped (cs_pending c)])\<rparr>"
  shows "consumer_inv t rs c'"
  unfolding consumer_inv_def c' using inv_parts [OF i] inv_end [OF i] k by (cases "cs_pending c = []") (simp_all add: sum_moments_def same_tuning_def)

lemma emit_inv:
  assumes i: "consumer_inv t rs c" and p: "cs_pending c \<noteq> []" and now: "\<And>r. now = Some r \<Longrightarrow> t \<le> fst r"
    and res: "cs_last c = Some res"
  shows "consumer_inv (case now of None \<Rightarrow> t | Some r \<Rightarrow> fst r) rs (emit_window cd now res c)"
    and "cs_pending (emit_window cd now res c) = []" "cs_last (emit_window cd now res c) = None" "cs_accum (emit_window cd now res c) = []"
proof -
  obtain s where s: "ak_start (cs_clock c) = Some s" using i p by (auto simp: consumer_inv_def split: option.splits)
  obtain m where m: "cs_moments c = Some m" using i p by (cases "cs_pending c") (auto simp: consumer_inv_def sum_moments_def)
  define d where "d = (case now of None \<Rightarrow> ak_last_mono (cs_clock c) - fst s | Some r \<Rightarrow> fst r - fst s)"
  have lm: "fst s \<le> ak_last_mono (cs_clock c)" "ak_last_mono (cs_clock c) \<le> t" "fst s \<le> t"
    using i p s by (auto simp: consumer_inv_def)
  have d: "0 \<le> d" "ak_last_mono (cs_clock c) \<le> fst s + d" "fst s + d \<le> (case now of None \<Rightarrow> t | Some r \<Rightarrow> fst r)"
    using lm now [THEN order_trans [rotated]] by (cases now; simp add: d_def)+
  define k where "k = (case now of None \<Rightarrow> clock_reset (cs_clock c) | Some r \<Rightarrow> (cs_clock c)\<lparr>ak_start := Some r, ak_has_results := False\<rparr>)"
  define w where "w = \<lparr>lw_avg = mean_powers (cs_accum c), lw_count = length (cs_accum c), lw_moments = m, lw_last = res, lw_start = s,
      lw_duration = d, lw_capture_span = capture_span cd c res, lw_results = cs_pending c\<rparr>"
  have cl: "clock_close now (cs_clock c) = Some ((s, d), k)"
    using d(1) by (cases now) (simp_all add: clock_close_def s d_def k_def max_def)
  have e: "emit_window cd now res c = c\<lparr>cs_clock := k, cs_accum := [], cs_moments := None, cs_last := None, cs_pending := [],
      cs_log := cs_log c @ [Published w]\<rparr>"
    by (simp add: emit_window_def m cl w_def)
  then show "cs_pending (emit_window cd now res c) = []" "cs_last (emit_window cd now res c) = None" "cs_accum (emit_window cd now res c) = []"
    by simp_all
  have b: "\<forall>(a, r) \<in> set (cs_pending c). fst s \<le> a \<and> a \<le> ak_last_mono (cs_clock c)" "same_tuning (cs_pending c)"
    "cs_accum c = map (sr_powers \<circ> snd) (cs_pending c)" "sum_moments (cs_pending c) = Some m" "res = snd (last (cs_pending c))"
    using i s m res p by (auto simp: consumer_inv_def)
  have ok: "window_ok w" using b p d by (fastforce simp: window_ok_def w_def)
  have ap: "windows_apart (live_windows (cs_log c) @ [w])"
    using i s by (simp add: consumer_inv_def windows_apart_snoc w_def Let_def)
  have f: "\<not> cs_failed c" "concat (map segment_results (cs_log c)) @ cs_pending c = rs" "\<forall>w \<in> set (live_windows (cs_log c)). window_ok w"
    using i by (simp_all add: consumer_inv_def)
  show "consumer_inv (case now of None \<Rightarrow> t | Some r \<Rightarrow> fst r) rs (emit_window cd now res c)"
    unfolding e consumer_inv_def using f ok ap d by (cases now) (simp_all add: k_def w_def clock_reset_def sum_moments_def same_tuning_def)
qed

lemma flush_inv:
  assumes i: "consumer_inv t rs c"
  shows "consumer_inv t rs (flush_pending cd c)" "cs_pending (flush_pending cd c) = []"
proof -
  have r: "flush_pending cd c = (if cs_pending c = [] then c\<lparr>cs_clock := clock_reset (cs_clock c)\<rparr>
      else emit_window cd None (snd (last (cs_pending c))) c)"
    using i by (simp add: flush_pending_def consumer_inv_def)
  have "consumer_inv t rs (flush_pending cd c) \<and> cs_pending (flush_pending cd c) = []"
  proof (cases "cs_pending c = []")
    case True
    then have "c\<lparr>cs_clock := clock_reset (cs_clock c)\<rparr> = c\<lparr>cs_accum := [], cs_moments := None, cs_clock := clock_reset (cs_clock c),
        cs_last := None, cs_pending := [], cs_log := cs_log c @ (if cs_pending c = [] then [] else [Dropped (cs_pending c)])\<rparr>"
      using inv_parts [OF i] by (simp add: sum_moments_def)
    then show ?thesis using inv_empty [OF i _ refl, of "clock_reset (cs_clock c)"] True unfolding r by (simp add: clock_reset_def)
  next
    case False
    have l: "cs_last c = Some (snd (last (cs_pending c)))" using i False by (simp add: consumer_inv_def)
    show ?thesis using emit_inv [OF i False _ l, of None cd] False unfolding r by simp
  qed
  then show "consumer_inv t rs (flush_pending cd c)" "cs_pending (flush_pending cd c) = []" by simp_all
qed

text \<open>After \<open>consumer_tuning\<close> the pending results, if any, have the tuning of the new one.\<close>

lemma tuning_inv:
  assumes i: "consumer_inv t rs c"
  shows "consumer_inv t rs (consumer_tuning cd res c) \<and>
    (\<forall>(a, r) \<in> set (cs_pending (consumer_tuning cd res c)). sr_center_freq r = sr_center_freq res \<and> length (sr_powers r) = length (sr_powers res))"
proof (cases "cs_pending c = []")
  case True
  then have "consumer_tuning cd res c = c" using i by (simp add: consumer_tuning_def consumer_inv_def)
  then show ?thesis using i True by simp
next
  case False
  have a: "cs_accum c = map (sr_powers \<circ> snd) (cs_pending c)" "cs_last c = Some (snd (last (cs_pending c)))" "same_tuning (cs_pending c)"
    using i False by (simp_all add: consumer_inv_def)
  have st: "sr_center_freq (snd r) = sr_center_freq (snd (last (cs_pending c))) \<and> length (sr_powers (snd r)) = length (sr_powers (snd (hd (cs_pending c))))"
    if "r \<in> set (cs_pending c)" for r
    using a(3) [unfolded same_tuning_def, rule_format, OF that last_in_set [OF False]]
      a(3) [unfolded same_tuning_def, rule_format, OF that hd_in_set [OF False]] by simp
  consider (bins) "length (sr_powers (snd (hd (cs_pending c)))) \<noteq> length (sr_powers res)"
    | (retune) "length (sr_powers (snd (hd (cs_pending c)))) = length (sr_powers res)" "sr_center_freq (snd (last (cs_pending c))) \<noteq> sr_center_freq res"
    | (same) "length (sr_powers (snd (hd (cs_pending c)))) = length (sr_powers res)" "sr_center_freq (snd (last (cs_pending c))) = sr_center_freq res"
    by blast
  then show ?thesis
  proof cases
    case bins
    then have e: "consumer_tuning cd res c = c\<lparr>cs_accum := [], cs_moments := None, cs_clock := clock_reset (cs_clock c), cs_last := None,
        cs_pending := [], cs_log := cs_log c @ [Dropped (cs_pending c)]\<rparr>"
      using False by (simp add: consumer_tuning_def a hd_map)
    show ?thesis using inv_empty [OF i, of "clock_reset (cs_clock c)" "consumer_tuning cd res c"] False e by (simp add: clock_reset_def)
  next
    case retune
    then have "consumer_tuning cd res c = flush_pending cd c" using False by (simp add: consumer_tuning_def a hd_map)
    then show ?thesis using flush_inv [OF i] by simp
  next
    case same
    then have "consumer_tuning cd res c = c" using False by (simp add: consumer_tuning_def a hd_map)
    then show ?thesis using i st same by fastforce
  qed
qed

lemma accumulate_inv:
  assumes i: "consumer_inv t rs c" and t: "t \<le> fst now"
    and tun: "\<forall>(a, r) \<in> set (cs_pending c). sr_center_freq r = sr_center_freq res \<and> length (sr_powers r) = length (sr_powers res)"
  shows "consumer_inv (fst now) (rs @ [(fst now, res)]) (accumulate waited now res c)"
    and "cs_last (accumulate waited now res c) = Some res" "cs_pending (accumulate waited now res c) \<noteq> []"
proof -
  let ?c = "accumulate waited now res c"
  show "cs_last ?c = Some res" "cs_pending ?c \<noteq> []" by (simp_all add: accumulate_def)
  have f: "\<not> cs_failed c" "concat (map segment_results (cs_log c)) @ cs_pending c = rs" "cs_accum c = map (sr_powers \<circ> snd) (cs_pending c)"
    "cs_moments c = sum_moments (cs_pending c)" "\<forall>w \<in> set (live_windows (cs_log c)). window_ok w" "windows_apart (live_windows (cs_log c))"
    using i by (simp_all add: consumer_inv_def)
  have "sr_center_freq (snd x) = sr_center_freq res \<and> length (sr_powers (snd x)) = length (sr_powers res)"
    if "x \<in> set (cs_pending c @ [(fst now, res)])" for x using tun that by auto
  then have st: "same_tuning (cs_pending c @ [(fst now, res)])" by (simp add: same_tuning_def)
  obtain s where s: "ak_start (mark_result waited now (cs_clock c)) = Some s" "fst s \<le> fst now"
      "\<forall>(a, r) \<in> set (cs_pending c). fst s \<le> a \<and> a \<le> fst now"
      "live_windows (cs_log c) \<noteq> [] \<longrightarrow> fst (lw_start (last (live_windows (cs_log c)))) + lw_duration (last (live_windows (cs_log c))) \<le> fst s"
  proof (cases "ak_start (cs_clock c)")
    case None
    then show ?thesis using that [of now] i t by (auto simp: mark_result_def consumer_inv_def Let_def)
  next
    case (Some s)
    have b: "fst s \<le> fst now" "\<forall>(a, r) \<in> set (cs_pending c). fst s \<le> a \<and> a \<le> fst now"
      "live_windows (cs_log c) \<noteq> [] \<longrightarrow> fst (lw_start (last (live_windows (cs_log c)))) + lw_duration (last (live_windows (cs_log c))) \<le> fst s"
      "cs_pending c \<noteq> [] \<longrightarrow> ak_has_results (cs_clock c)"
      using i Some t by (fastforce simp: consumer_inv_def Let_def)+
    show ?thesis
    proof (cases "\<not> ak_has_results (cs_clock c) \<and> ak_max_gap (cs_clock c) < waited")
      case True
      then have "ak_start (mark_result waited now (cs_clock c)) = Some now" "cs_pending c = []"
        using Some b(4) by (simp_all add: mark_result_def clock_reset_def)
      then show ?thesis using that [of now] b by auto
    next
      case False
      then have "ak_start (mark_result waited now (cs_clock c)) = Some s" using Some by (auto simp: mark_result_def Let_def)
      then show ?thesis using that b by blast
    qed
  qed
  have m: "ak_last_mono (mark_result waited now (cs_clock c)) = fst now" "ak_has_results (mark_result waited now (cs_clock c))"
    by (simp_all add: mark_result_def Let_def)
  show "consumer_inv (fst now) (rs @ [(fst now, res)]) ?c"
    unfolding consumer_inv_def accumulate_def using f st s m by (simp add: sum_moments_snoc Let_def split: option.split)
qed

lemma handle_inv:
  assumes i: "consumer_inv t rs c" and t: "t \<le> fst t1" "fst t1 \<le> t2" "t2 \<le> fst t3"
  shows "consumer_inv (fst t3) (rs @ [(fst t1, res)]) (handle_result cd d waited t1 t2 t3 res c)"
proof -
  let ?c = "accumulate waited t1 res (consumer_tuning cd res c)"
  note a = accumulate_inv [OF conjunct1 [OF tuning_inv [OF i, of cd res]] t(1) conjunct2 [OF tuning_inv [OF i, of cd res]], of waited]
  have l: "fst t1 \<le> fst t3" using t by simp
  show ?thesis
  proof (cases "d \<le> clock_elapsed t2 (cs_clock ?c)")
    case True
    then have "handle_result cd d waited t1 t2 t3 res c = emit_window cd (Some t3) res ?c" by (simp add: handle_result_def Let_def)
    then show ?thesis using emit_inv(1) [OF a(1,3) _ a(2), of "Some t3" cd] l by simp
  next
    case False
    then have "handle_result cd d waited t1 t2 t3 res c = ?c" by (simp add: handle_result_def Let_def)
    then show ?thesis using consumer_inv_later [OF a(1) l] by simp
  qed
qed

lemma consumer_run_inv:
  "consumer_inv t rs c \<Longrightarrow> clock_forward t es \<Longrightarrow> \<exists>u. consumer_inv u (rs @ arrivals es) (fold (consumer_step cd d) es c)"
proof (induction es arbitrary: t rs c)
  case (Cons e es)
  show ?case
  proof (cases e)
    case Idle_Timeout
    then show ?thesis using Cons.IH [OF flush_inv(1) [OF Cons.prems(1)]] Cons.prems(2) by simp
  next
    case (Result_In waited t1 t2 t3 res)
    then have t: "t \<le> fst t1" "fst t1 \<le> t2" "t2 \<le> fst t3" "clock_forward (fst t3) es" using Cons.prems(2) by simp_all
    show ?thesis using Cons.IH [OF handle_inv [OF Cons.prems(1) t(1-3)] t(4)] Result_In by simp
  qed
qed auto

text \<open>
  C10: Whatever the results, timeouts and tunings, the published windows take the results in order, each at most
  once and with none left out but those pending and those a change of the bins dropped. Each window has at least one
  result, all of one tuning, is published with their mean, number and summed moments, and its span holds their
  arrivals; the spans do not overlap, and the loop's assertions never fail.
\<close>
theorem averaged_windows_exact:
  assumes "clock_forward t es" "c = consumer_run cd d es"
  shows "\<not> cs_failed c \<and> concat (map segment_results (cs_log c)) @ cs_pending c = arrivals es \<and>
    (\<forall>w \<in> set (live_windows (cs_log c)). window_ok w) \<and> windows_apart (live_windows (cs_log c))"
proof -
  from consumer_run_inv [OF consumer_inv_new assms(1), where cd = cd and d = d] obtain u where "consumer_inv u (arrivals es) c"
    unfolding assms(2) consumer_run_def by auto
  then show ?thesis unfolding consumer_inv_def by blast
qed

definition one_result :: "rat \<Rightarrow> int \<Rightarrow> rat list \<Rightarrow> consumer_event" where
  "one_result t freq ps = Result_In (1 / 25) (t, t) t (t, t) \<lparr>sr_powers = ps, sr_center_freq = freq, sr_capture_time = Some (t - 1),
     sr_moments = \<lparr>im_n = 1, im_s_abs = 1, im_s_pow = 1, im_s_pow2 = 1, im_max_pow = t, im_hist = [1]\<rparr>\<rparr>"

definition sweep_example :: "consumer_event list" where
  "sweep_example = [one_result 1 7 [2, 4], one_result (3 / 2) 7 [4, 6], one_result (17 / 10) 7 [1, 1], one_result (9 / 5) 9 [3, 3],
     one_result (19 / 10) 9 [5], Idle_Timeout]"

text \<open>A window of two results, one that a retune ends, a result that a change of the bins drops, and one that the idle timeout ends.\<close>

theorem averaged_windows_exact_witness:
  "let c = consumer_run (1 / 25) (1 / 2) sweep_example
   in map lw_avg (live_windows (cs_log c)) = [[3, 5], [1, 1], [5]] \<and> map lw_duration (live_windows (cs_log c)) = [1 / 2, 1 / 5, 0] \<and>
      concat (map segment_results (cs_log c)) @ cs_pending c = arrivals sweep_example"
proof -
  have "clock_forward 0 sweep_example" by (simp add: sweep_example_def one_result_def)
  note averaged_windows_exact [OF this refl, of "1 / 25" "1 / 2"]
  moreover have "map lw_avg (live_windows (cs_log (consumer_run (1 / 25) (1 / 2) sweep_example))) = [[3, 5], [1, 1], [5]]"
    "map lw_duration (live_windows (cs_log (consumer_run (1 / 25) (1 / 2) sweep_example))) = [1 / 2, 1 / 5, 0]"
    by code_simp+
  ultimately show ?thesis unfolding Let_def by blast
qed

end
