(* ===== verification/Handoff.thy ===== *)
theory Handoff
  imports Bisect "HOL-Library.Sublist"
begin

text \<open>
  The small queues between the threads of \<open>pipeline/streaming.py\<close>: the hand-off of results to the event
  loop (\<open>_LoopHandoff\<close>), the database writes in order (\<open>_OrderedDbWriter\<close>), the stop put into a full queue
  (\<open>_signal_stop\<close>), and the capture times of recent chunks (\<open>_ChunkTimes\<close>).
\<close>

section \<open>From a thread to the event loop\<close>

text \<open>
  \<open>ho_callbacks\<close> are the calls the loop has not run, \<open>ho_queue\<close> the bounded queue they fill. Ghosts: what was
  accepted, what the consumer took, and how many a full queue lost.
\<close>

record 'a handoff =
  ho_limit :: nat
  ho_pending :: nat
  ho_dropped :: nat
  ho_callbacks :: "'a list"
  ho_queue :: "'a list"
  ho_accepted :: "'a list"
  ho_taken :: "'a list"
  ho_lost :: nat

definition handoff_new :: "nat \<Rightarrow> 'a handoff option" where
  "handoff_new maxsize = (if maxsize = 0 then None
     else Some \<lparr>ho_limit = maxsize, ho_pending = 0, ho_dropped = 0, ho_callbacks = [], ho_queue = [], ho_accepted = [], ho_taken = [], ho_lost = 0\<rparr>)"

text \<open>\<open>shut\<close>: the loop was closed, and the call to it raises.\<close>

definition handoff_submit :: "bool \<Rightarrow> 'a \<Rightarrow> 'a handoff \<Rightarrow> bool \<times> 'a handoff" where
  "handoff_submit shut item h =
     (if ho_limit h \<le> ho_pending h then (False, h\<lparr>ho_dropped := ho_dropped h + 1\<rparr>)
      else
        let h = h\<lparr>ho_pending := ho_pending h + 1\<rparr>
        in if shut then (False, h\<lparr>ho_pending := ho_pending h - 1\<rparr>)
           else (True, h\<lparr>ho_callbacks := ho_callbacks h @ [item], ho_accepted := ho_accepted h @ [item]\<rparr>))"

definition put_nowait_drop_full :: "'a \<Rightarrow> 'a handoff \<Rightarrow> 'a handoff" where
  "put_nowait_drop_full item h =
     (if length (ho_queue h) < ho_limit h then h\<lparr>ho_queue := ho_queue h @ [item]\<rparr> else h\<lparr>ho_lost := ho_lost h + 1\<rparr>)"

definition handoff_deliver :: "'a handoff \<Rightarrow> 'a handoff" where
  "handoff_deliver h = (case ho_callbacks h of
       [] \<Rightarrow> h
     | item # rest \<Rightarrow> put_nowait_drop_full item (h\<lparr>ho_callbacks := rest, ho_pending := ho_pending h - 1\<rparr>))"

definition handoff_take :: "'a handoff \<Rightarrow> 'a handoff" where
  "handoff_take h = (case ho_queue h of [] \<Rightarrow> h | item # rest \<Rightarrow> h\<lparr>ho_queue := rest, ho_taken := ho_taken h @ [item]\<rparr>)"

datatype 'a handoff_op = Submit bool 'a | Deliver | Take

fun handoff_step :: "'a handoff_op \<Rightarrow> 'a handoff \<Rightarrow> 'a handoff" where
  "handoff_step (Submit shut item) h = snd (handoff_submit shut item h)"
| "handoff_step Deliver h = handoff_deliver h"
| "handoff_step Take h = handoff_take h"

definition handoff_inv :: "nat \<Rightarrow> 'a handoff \<Rightarrow> bool" where
  "handoff_inv n h \<longleftrightarrow> ho_limit h = n \<and> ho_pending h = length (ho_callbacks h) \<and> length (ho_callbacks h) \<le> n \<and> length (ho_queue h) \<le> n \<and>
     subseq (ho_taken h @ ho_queue h @ ho_callbacks h) (ho_accepted h) \<and>
     length (ho_accepted h) = length (ho_taken h @ ho_queue h @ ho_callbacks h) + ho_lost h"

lemma subseq_drop_mid: "subseq (xs @ y # ys) zs \<Longrightarrow> subseq (xs @ ys) zs"
  by (metis subseq_order.order_trans list_emb_append_mono subseq_Cons' subseq_order.order_refl)

lemma handoff_step_inv: "handoff_inv n h \<Longrightarrow> handoff_inv n (handoff_step p h)"
proof (cases p)
  case (Submit shut item)
  assume h: "handoff_inv n h"
  have "subseq ((ho_taken h @ ho_queue h @ ho_callbacks h) @ [item]) (ho_accepted h @ [item])"
    using h by (intro list_emb_append_mono) (simp_all add: handoff_inv_def)
  then show ?thesis using h Submit by (auto simp: handoff_inv_def handoff_submit_def Let_def)
next
  case Deliver
  assume h: "handoff_inv n h"
  then show ?thesis using Deliver subseq_drop_mid [of "ho_taken h @ ho_queue h"]
    by (auto simp: handoff_inv_def handoff_deliver_def put_nowait_drop_full_def split: list.split)
next
  case Take
  assume h: "handoff_inv n h"
  then show ?thesis using Take by (auto simp: handoff_inv_def handoff_take_def split: list.split)
qed

text \<open>
  C33: The hand-off holds at most twice the queue's size in results, however long the loop is blocked: at most that
  many calls the loop has not run, and at most that many in the queue. The consumer gets the accepted results in order,
  and those it never gets are exactly the ones counted as lost to a full queue.
\<close>
theorem handoff_bounded:
  assumes "handoff_new maxsize = Some h0" "h = fold handoff_step ops h0"
  shows "length (ho_callbacks h) \<le> maxsize \<and> length (ho_queue h) \<le> maxsize \<and>
    subseq (ho_taken h @ ho_queue h @ ho_callbacks h) (ho_accepted h) \<and>
    length (ho_accepted h) = length (ho_taken h) + length (ho_queue h) + length (ho_callbacks h) + ho_lost h"
proof -
  have "handoff_inv maxsize h0" using assms(1) by (auto simp: handoff_new_def handoff_inv_def split: if_splits)
  then have "handoff_inv maxsize h" unfolding assms(2)
    by (induction ops arbitrary: h0) (simp_all add: handoff_step_inv)
  then show ?thesis by (auto simp: handoff_inv_def)
qed

theorem handoff_bounded_witness:
  "let h = fold handoff_step [Submit False 1, Submit False 2, Submit False 3, Deliver, Deliver, Take, Submit False (4 :: int), Deliver]
      (the (handoff_new 2))
   in ho_taken h = [1] \<and> ho_queue h = [2, 4] \<and> ho_dropped h = 1 \<and> length (ho_queue h) \<le> 2"
proof -
  define h where "h = fold handoff_step [Submit False 1, Submit False 2, Submit False 3, Deliver, Deliver, Take, Submit False (4 :: int), Deliver]
      (the (handoff_new 2))"
  have "handoff_new 2 = Some (the (handoff_new 2 :: int handoff option))" by (simp add: handoff_new_def)
  from handoff_bounded [OF this h_def] have "length (ho_queue h) \<le> 2" by simp
  moreover have "ho_taken h = [1]" "ho_queue h = [2, 4]" "ho_dropped h = 1"
    by (simp_all add: h_def handoff_new_def handoff_submit_def handoff_deliver_def put_nowait_drop_full_def handoff_take_def)
  ultimately show ?thesis by (simp add: h_def)
qed

section \<open>Database writes in order\<close>

text \<open>
  A job is its window's start and an identity. \<open>dw_log\<close> has the warnings: how many are pending, dropped since the last
  and in all. Ghosts: the accepted jobs, and what became of those that left: run, or discarded.
\<close>

definition DB_WRITE_DROP_LOG_SEC :: rat where "DB_WRITE_DROP_LOG_SEC = 60"

record db_writer =
  dw_maxsize :: nat
  dw_queue :: "(int \<times> nat) list"
  dw_starts :: "int list"
  dw_alive :: bool
  dw_busy :: "(int \<times> nat) option"
  dw_dropped :: nat
  dw_warned_at :: "rat option"
  dw_dropped_at_warn :: nat
  dw_log :: "(nat \<times> nat \<times> nat) list"
  dw_accepted :: "(int \<times> nat) list"
  dw_outcomes :: "((int \<times> nat) \<times> bool) list"

definition db_writer_new :: "nat \<Rightarrow> db_writer" where
  "db_writer_new maxsize = \<lparr>dw_maxsize = maxsize, dw_queue = [], dw_starts = [], dw_alive = False, dw_busy = None, dw_dropped = 0,
     dw_warned_at = None, dw_dropped_at_warn = 0, dw_log = [], dw_accepted = [], dw_outcomes = []\<rparr>"

definition oldest_pending_start :: "db_writer \<Rightarrow> int option" where
  "oldest_pending_start w = (case dw_starts w of [] \<Rightarrow> None | s # _ \<Rightarrow> Some s)"

definition db_submit :: "rat \<Rightarrow> int \<times> nat \<Rightarrow> db_writer \<Rightarrow> bool \<times> db_writer" where
  "db_submit now job w =
     (if 0 < dw_maxsize w \<and> dw_maxsize w \<le> length (dw_queue w) then
        let w = w\<lparr>dw_dropped := dw_dropped w + 1\<rparr>
        in (False, if (case dw_warned_at w of None \<Rightarrow> True | Some t \<Rightarrow> DB_WRITE_DROP_LOG_SEC \<le> now - t)
              then w\<lparr>dw_log := dw_log w @ [(length (dw_queue w), dw_dropped w - dw_dropped_at_warn w, dw_dropped w)],
                dw_warned_at := Some now, dw_dropped_at_warn := dw_dropped w\<rparr>
              else w)
      else (True, w\<lparr>dw_queue := dw_queue w @ [job], dw_starts := dw_starts w @ [fst job], dw_alive := True, dw_accepted := dw_accepted w @ [job]\<rparr>))"

text \<open>The worker takes a job, and its job ends, whether it raised or not.\<close>

definition db_get :: "db_writer \<Rightarrow> db_writer" where
  "db_get w = (if \<not> dw_alive w \<or> dw_busy w \<noteq> None then w
     else case dw_queue w of [] \<Rightarrow> w | job # rest \<Rightarrow> w\<lparr>dw_queue := rest, dw_busy := Some job\<rparr>)"

definition db_job_done :: "db_writer \<Rightarrow> db_writer" where
  "db_job_done w = (case dw_busy w of
       None \<Rightarrow> w
     | Some job \<Rightarrow> w\<lparr>dw_busy := None, dw_starts := tl (dw_starts w), dw_outcomes := dw_outcomes w @ [(job, True)]\<rparr>)"

text \<open>\<open>drain\<close>, when the queue was worked off or at its timeout: how many writes were discarded.\<close>

definition db_unfinished :: "db_writer \<Rightarrow> (int \<times> nat) list" where
  "db_unfinished w = (case dw_busy w of None \<Rightarrow> [] | Some job \<Rightarrow> [job]) @ dw_queue w"

definition db_drain :: "db_writer \<Rightarrow> nat \<times> db_writer" where
  "db_drain w =
     (let discarded = (if dw_alive w then length (dw_queue w) + (if dw_busy w \<noteq> None then 1 else 0) else 0)
      in (discarded, w\<lparr>dw_queue := [], dw_starts := [], dw_alive := False, dw_busy := None,
            dw_outcomes := dw_outcomes w @ map (\<lambda>job. (job, False)) (db_unfinished w)\<rparr>))"

datatype db_op = Db_Submit rat "int \<times> nat" | Db_Get | Db_Done | Db_Drain

fun db_step :: "db_op \<Rightarrow> db_writer \<Rightarrow> db_writer" where
  "db_step (Db_Submit now job) w = snd (db_submit now job w)"
| "db_step Db_Get w = db_get w"
| "db_step Db_Done w = db_job_done w"
| "db_step Db_Drain w = snd (db_drain w)"

definition db_inv :: "db_writer \<Rightarrow> bool" where
  "db_inv w \<longleftrightarrow> map fst (dw_outcomes w) @ db_unfinished w = dw_accepted w \<and> dw_starts w = map fst (db_unfinished w) \<and>
     (0 < dw_maxsize w \<longrightarrow> length (dw_queue w) \<le> dw_maxsize w) \<and> (db_unfinished w \<noteq> [] \<longrightarrow> dw_alive w)"

lemma db_step_inv: "db_inv w \<Longrightarrow> db_inv (db_step p w)"
proof (cases p)
  case (Db_Submit now job)
  assume w: "db_inv w"
  show ?thesis
  proof (cases "0 < dw_maxsize w \<and> dw_maxsize w \<le> length (dw_queue w)")
    case True
    then show ?thesis using w Db_Submit by (simp add: db_inv_def db_submit_def db_unfinished_def Let_def)
  next
    case False
    then show ?thesis using w Db_Submit by (auto simp: db_inv_def db_submit_def db_unfinished_def)
  qed
qed (auto simp: db_inv_def db_get_def db_job_done_def db_drain_def db_unfinished_def Let_def comp_def split: option.splits list.splits)

lemma db_step_max [simp]: "dw_maxsize (db_step p w) = dw_maxsize w"
  by (cases p) (simp_all add: db_submit_def db_get_def db_job_done_def db_drain_def Let_def split: option.split list.split)

text \<open>
  C32: The accepted writes leave the writer in the order they were submitted, none twice and none skipped; the oldest
  pending start, which holds the minute rollup back, is that of the first write not finished, in flight or queued;
  the queue keeps its bound; and a drain returns exactly the number of accepted writes it discards.
\<close>
theorem db_writes_in_order:
  assumes "w = fold db_step ops (db_writer_new maxsize)"
  shows "\<exists>rest. map fst (dw_outcomes w) @ rest = dw_accepted w \<and>
    oldest_pending_start w = (case rest of [] \<Rightarrow> None | job # _ \<Rightarrow> Some (fst job)) \<and>
    (0 < maxsize \<longrightarrow> length rest \<le> maxsize + 1) \<and>
    (let (discarded, v) = db_drain w in discarded = length rest \<and> map fst (dw_outcomes v) = dw_accepted v \<and> oldest_pending_start v = None)"
proof -
  have m: "dw_maxsize (fold db_step ops v) = dw_maxsize v" for v by (induction ops arbitrary: v) simp_all
  have "db_inv (fold db_step ops v)" if "db_inv v" for v using that by (induction ops arbitrary: v) (simp_all add: db_step_inv)
  then have i: "db_inv w" "dw_maxsize w = maxsize"
    unfolding assms m by (simp_all add: db_inv_def db_writer_new_def db_unfinished_def)
  have v: "db_inv (snd (db_drain w))" using db_step_inv [OF i(1), of Db_Drain] by simp
  have "length (db_unfinished w) = fst (db_drain w)"
    using i(1) by (auto simp: db_drain_def db_inv_def db_unfinished_def Let_def split: option.splits)
  then show ?thesis using i v
    by (intro exI [of _ "db_unfinished w"]) (auto simp: db_inv_def oldest_pending_start_def db_unfinished_def db_drain_def Let_def comp_def split: list.splits option.splits)
qed

theorem db_writes_in_order_witness:
  "\<exists>rest. map fst (dw_outcomes (fold db_step [Db_Submit 0 (10, 1), Db_Submit 1 (11, 2), Db_Get, Db_Submit 2 (12, 3), Db_Done] (db_writer_new 2))) @ rest =
    [(10, 1), (11, 2), (12, 3)]"
  using db_writes_in_order [OF refl, of "[Db_Submit 0 (10, 1), Db_Submit 1 (11, 2), Db_Get, Db_Submit 2 (12, 3), Db_Done]" 2]
  by (auto simp: db_submit_def db_get_def db_job_done_def db_writer_new_def)

section \<open>Stopping a queue\<close>

text \<open>\<open>None\<close> is the stop; a queue that is not bounded has \<open>maxsize\<close> 0.\<close>

function signal_stop :: "nat \<Rightarrow> 'a option list \<Rightarrow> 'a option list" where
  "signal_stop maxsize q =
     (if maxsize = 0 \<or> length q < maxsize then q @ [None]
      else case q of [] \<Rightarrow> [] | _ # rest \<Rightarrow> signal_stop maxsize rest)"
  by pat_completeness auto
termination by (relation "measure (\<lambda>(m, q). length q)") auto

declare signal_stop.simps [simp del]

lemma signal_stop_keeps_newest:
  "signal_stop maxsize q = (if maxsize = 0 then q else drop (length q + 1 - maxsize) q) @ [None]"
proof (induction maxsize q rule: signal_stop.induct)
  case (1 maxsize q)
  show ?case
  proof (cases "maxsize = 0 \<or> length q < maxsize")
    case True
    then show ?thesis by (auto simp: signal_stop.simps [of maxsize q])
  next
    case False
    then obtain x rest where q: "q = x # rest" by (cases q) auto
    have "signal_stop maxsize q = signal_stop maxsize rest" using False q by (subst signal_stop.simps) simp
    also have "\<dots> = drop (length rest + 1 - maxsize) rest @ [None]" using 1 [OF False q] False by simp
    finally show ?thesis using False q by (simp add: Suc_diff_le)
  qed
qed

section \<open>The capture times of recent chunks\<close>

definition CHUNK_TIMES_KEEP :: nat where "CHUNK_TIMES_KEEP = 4096"

definition bisect_right :: "'a :: linorder list \<Rightarrow> 'a \<Rightarrow> nat" where
  "bisect_right xs x = length (takeWhile (\<lambda>y. y \<le> x) xs)"

record chunk_times =
  ct_starts :: "int list"
  ct_times :: "rat list"

definition chunk_times_add :: "int \<Rightarrow> rat \<Rightarrow> chunk_times \<Rightarrow> chunk_times" where
  "chunk_times_add chunk_start capture_time ct =
     (let go = (\<lambda>ct.
          let ct = ct\<lparr>ct_starts := ct_starts ct @ [chunk_start], ct_times := ct_times ct @ [capture_time]\<rparr>
          in if 2 * CHUNK_TIMES_KEEP < length (ct_starts ct)
             then ct\<lparr>ct_starts := drop CHUNK_TIMES_KEEP (ct_starts ct), ct_times := drop CHUNK_TIMES_KEEP (ct_times ct)\<rparr> else ct)
      in if ct_starts ct \<noteq> [] \<and> chunk_start \<le> last (ct_starts ct) then
           if chunk_start = last (ct_starts ct) then ct else go (ct\<lparr>ct_starts := [], ct_times := []\<rparr>)
         else go ct)"

definition time_ms :: "int \<Rightarrow> rat \<Rightarrow> bool \<Rightarrow> chunk_times \<Rightarrow> rat option" where
  "time_ms sample rate is_end ct =
     (let i = int ((if is_end then bisect_left else bisect_right) (ct_starts ct) sample) - 1
      in if i < 0 \<or> rate \<le> 0 then None
         else Some ((ct_times ct ! nat i + of_int (sample - ct_starts ct ! nat i) / rate) * 1000))"

text \<open>The chunks since the counter last went back, each once.\<close>

definition epoch_add :: "int \<times> rat \<Rightarrow> (int \<times> rat) list \<Rightarrow> (int \<times> rat) list" where
  "epoch_add x es = (if es \<noteq> [] \<and> fst x = fst (last es) then es else if es \<noteq> [] \<and> fst x < fst (last es) then [x] else es @ [x])"

definition times_inv :: "(int \<times> rat) list \<Rightarrow> chunk_times \<Rightarrow> bool" where
  "times_inv es ct \<longleftrightarrow> sorted_wrt (<) (map fst es) \<and> (\<exists>k. ct_starts ct = map fst (drop k es) \<and> ct_times ct = map snd (drop k es) \<and>
     (k = 0 \<or> CHUNK_TIMES_KEEP < length es - k))"

lemma times_inv_add:
  assumes i: "times_inv es ct"
  shows "times_inv (epoch_add (s, t) es) (chunk_times_add s t ct)"
proof -
  obtain k where k: "ct_starts ct = map fst (drop k es)" "ct_times ct = map snd (drop k es)" "k = 0 \<or> CHUNK_TIMES_KEEP < length es - k"
    and so: "sorted_wrt (<) (map fst es)" using i by (auto simp: times_inv_def)
  have ne: "ct_starts ct \<noteq> [] \<longleftrightarrow> es \<noteq> []" using k(1,3) by auto
  have l: "last (ct_starts ct) = fst (last es)" if "es \<noteq> []" using that k(1,3) by (auto simp: last_map)
  have one: "\<not> 2 * CHUNK_TIMES_KEEP < 1" by (simp add: CHUNK_TIMES_KEEP_def)
  consider (equal) "es \<noteq> []" "s = fst (last es)" | (restart) "es \<noteq> []" "s < fst (last es)" | (grow) "es = [] \<or> fst (last es) < s" by fastforce
  then show ?thesis
  proof cases
    case equal
    then show ?thesis using i l ne by (simp add: chunk_times_add_def epoch_add_def)
  next
    case restart
    then have "chunk_times_add s t ct = ct\<lparr>ct_starts := [s], ct_times := [t]\<rparr>"
      using l ne one by (simp add: chunk_times_add_def Let_def)
    moreover have "epoch_add (s, t) es = [(s, t)]" using restart by (auto simp: epoch_add_def)
    ultimately show ?thesis unfolding times_inv_def by (intro conjI exI [of _ 0]) simp_all
  next
    case grow
    then have e: "epoch_add (s, t) es = es @ [(s, t)]" by (auto simp: epoch_add_def)
    have k': "k \<le> length es" using k(3) by auto
    have so': "sorted_wrt (<) (map fst (es @ [(s, t)]))"
    proof (cases "es = []")
      case False
      then obtain ys y where es: "es = ys @ [y]" by (cases es rule: rev_cases) auto
      have "fst x < s" if "x \<in> set es" for x
        using so grow that unfolding es by (auto simp: sorted_wrt_append)
      then show ?thesis using so by (simp add: sorted_wrt_append)
    qed simp
    define ds where "ds = drop k (es @ [(s, t)])"
    have ds: "ct_starts ct @ [s] = map fst ds" "ct_times ct @ [t] = map snd ds" "length ds = length es - k + 1"
      using k' k(1,2) by (simp_all add: ds_def)
    have len: "Suc (length (ct_starts ct)) = length ds" using arg_cong [OF ds(1), of length] by simp
    have c: "\<not> (ct_starts ct \<noteq> [] \<and> s \<le> last (ct_starts ct))" using grow l ne by auto
    have add: "chunk_times_add s t ct = (if 2 * CHUNK_TIMES_KEEP < length ds
        then ct\<lparr>ct_starts := drop CHUNK_TIMES_KEEP (map fst ds), ct_times := drop CHUNK_TIMES_KEEP (map snd ds)\<rparr>
        else ct\<lparr>ct_starts := map fst ds, ct_times := map snd ds\<rparr>)"
      unfolding chunk_times_add_def Let_def if_not_P [OF c] using ds(1,2) len by simp
    show ?thesis
    proof (cases "2 * CHUNK_TIMES_KEEP < length ds")
      case True
      have "drop (k + CHUNK_TIMES_KEEP) (es @ [(s, t)]) = drop CHUNK_TIMES_KEEP ds" by (simp only: ds_def drop_drop add.commute)
      moreover have "CHUNK_TIMES_KEEP < length (es @ [(s, t)]) - (k + CHUNK_TIMES_KEEP)" using True ds(3) k' by simp
      ultimately show ?thesis unfolding e times_inv_def using so' True
        by (intro conjI exI [of _ "k + CHUNK_TIMES_KEEP"]) (simp_all add: add drop_map)
    next
      case False
      have "k = 0 \<or> CHUNK_TIMES_KEEP < length (es @ [(s, t)]) - k" using k(3) k' by auto
      then show ?thesis unfolding e times_inv_def using so' False
        by (intro conjI exI [of _ k]) (simp_all add: add ds_def)
    qed
  qed
qed

lemma strict_nth: "sorted_wrt (<) ys \<Longrightarrow> i < j \<Longrightarrow> j < length ys \<Longrightarrow> ys ! i < (ys ! j :: int)"
  by (simp add: sorted_wrt_iff_nth_less)

lemma bisect_at:
  assumes ys: "sorted_wrt (<) ys" and i: "i < length ys"
    and at: "if is_end then ys ! i < sample \<and> (Suc i < length ys \<longrightarrow> sample \<le> ys ! Suc i)
      else ys ! i \<le> sample \<and> (Suc i < length ys \<longrightarrow> sample < ys ! Suc i)"
  shows "(if is_end then bisect_left else bisect_right) ys (sample :: int) = Suc i"
proof -
  have le: "ys ! m \<le> ys ! i" if "m < Suc i" for m using strict_nth [OF ys, of m i] that i by (cases "m = i") auto
  have l: "takeWhile (\<lambda>y. y < sample) ys = take (Suc i) ys" if is_end
    by (rule takeWhile_eq_take_P_nth) (use at that le in \<open>auto intro: le_less_trans\<close>)
  have r: "takeWhile (\<lambda>y. y \<le> sample) ys = take (Suc i) ys" if "\<not> is_end"
    by (rule takeWhile_eq_take_P_nth) (use at that le in \<open>auto intro: order_trans\<close>)
  show ?thesis using l r i by (simp add: bisect_left_def bisect_right_def)
qed

text \<open>
  Any sample of the last \<open>KEEP\<close> chunks since the stream's counter last went back gets its capture time from
  the chunk that holds it: that chunk's time plus the sample's distance from its first sample; an exclusive end is
  timed from the chunk it ends.
\<close>
theorem chunk_time_exact:
  assumes "es = fold epoch_add xs []" "ct = fold (\<lambda>(s, t). chunk_times_add s t) xs \<lparr>ct_starts = [], ct_times = []\<rparr>"
    and "0 < rate" and j: "j < length es" "length es \<le> j + CHUNK_TIMES_KEEP"
    and at: "if is_end then fst (es ! j) < sample \<and> (Suc j < length es \<longrightarrow> sample \<le> fst (es ! Suc j))
      else fst (es ! j) \<le> sample \<and> (Suc j < length es \<longrightarrow> sample < fst (es ! Suc j))"
  shows "time_ms sample rate is_end ct = Some ((snd (es ! j) + of_int (sample - fst (es ! j)) / rate) * 1000)"
proof -
  have "times_inv (fold epoch_add xs es0) (fold (\<lambda>(s, t). chunk_times_add s t) xs ct0)" if "times_inv es0 ct0" for es0 ct0
    using that by (induction xs arbitrary: es0 ct0) (auto simp: times_inv_add)
  from this [of "[]" "\<lparr>ct_starts = [], ct_times = []\<rparr>"] have "times_inv es ct" unfolding assms(1,2) by (simp add: times_inv_def)
  then obtain k where k: "ct_starts ct = map fst (drop k es)" "ct_times ct = map snd (drop k es)" "k = 0 \<or> CHUNK_TIMES_KEEP < length es - k"
    and so: "sorted_wrt (<) (map fst es)" by (auto simp: times_inv_def)
  have kj: "k \<le> j" using k(3) j by auto
  have ss: "sorted_wrt (<) (map fst (drop k es))" using so by (simp add: sorted_wrt_drop flip: drop_map)
  have "(if is_end then bisect_left else bisect_right) (map fst (drop k es)) sample = Suc (j - k)"
    using at j(1) kj by (intro bisect_at [OF ss]) (simp_all add: nth_map Suc_diff_le [symmetric] split: if_splits)
  moreover have "k + nat (int (Suc (j - k)) - 1) = j" "\<not> int (Suc (j - k)) - 1 < 0" using kj by simp_all
  ultimately show ?thesis using assms(3) j(1) kj by (simp add: time_ms_def k(1,2) Let_def)
qed

theorem chunk_time_exact_witness:
  "time_ms 27 10 False (fold (\<lambda>(s, t). chunk_times_add s t) [(90, 1), (10, 5), (10, 9), (20, 6), (30, 8)] \<lparr>ct_starts = [], ct_times = []\<rparr>) = Some 6700"
proof -
  have es: "fold epoch_add [(90, 1), (10, 5), (10, 9), (20, 6), (30, 8)] [] = [(10, 5), (20, 6), (30 :: int, 8 :: rat)]"
    by (simp add: epoch_add_def)
  show ?thesis using chunk_time_exact [OF refl refl, of 10 1 "[(90, 1), (10, 5), (10, 9), (20, 6), (30, 8)]" False 27]
    unfolding es by (simp add: CHUNK_TIMES_KEEP_def)
qed

end
