(* ===== verification/Collection.thy ===== *)
theory Collection
  imports Dicts
begin

text \<open>
  The collection statistics, \<open>storage/collection.py\<close>: what was recorded, deleted and received,
  counted per UTC hour in memory and added to the \<open>collection_hours\<close> table by a flush
  (\<open>SensorDatabase.add_collection_hours\<close>). Times are exact rationals. The pending rows are one
  dict by hour and field; the time zones of the report are left out.
\<close>

section \<open>Hours\<close>

definition HOUR :: int where "HOUR = 3600"

definition hour_of :: "rat \<Rightarrow> int" where "hour_of ts = \<lfloor>ts / of_int HOUR\<rfloor> * HOUR"

text \<open>The stretch from \<open>t\<close> to \<open>stop\<close> cut at the hours: each with its seconds.\<close>

lemma hour_of_le: "of_int (hour_of t) \<le> t" and hour_of_gt: "t < of_int (hour_of t) + of_int HOUR"
proof -
  have "of_int \<lfloor>t / of_int HOUR\<rfloor> \<le> t / of_int HOUR" "t / of_int HOUR < of_int \<lfloor>t / of_int HOUR\<rfloor> + 1" by linarith+
  then show "of_int (hour_of t) \<le> t" "t < of_int (hour_of t) + of_int HOUR" by (simp_all add: hour_of_def HOUR_def field_simps)
qed

lemma hour_of_eqI:
  assumes "h = k * HOUR" "of_int h \<le> t" "t < of_int h + of_int HOUR"
  shows "hour_of t = h"
proof -
  have "\<lfloor>t / of_int HOUR\<rfloor> = k" using assms by (intro floor_unique) (simp_all add: HOUR_def field_simps)
  then show ?thesis by (simp add: hour_of_def assms(1))
qed

lemma hour_of_next: "hour_of (of_int (hour_of t + HOUR)) = hour_of t + HOUR"
  by (rule hour_of_eqI [of _ "\<lfloor>t / of_int HOUR\<rfloor> + 1"]) (simp_all add: hour_of_def HOUR_def)

function hour_parts :: "rat \<Rightarrow> rat \<Rightarrow> (int \<times> rat) list" where
  "hour_parts t stop =
     (let h = hour_of t; stop_at = min stop (of_int (h + HOUR))
      in (h, stop_at - t) # (if stop \<le> stop_at then [] else hour_parts stop_at stop))"
  by pat_completeness auto
termination
proof (relation "measure (\<lambda>(t, stop). nat (\<lceil>stop\<rceil> - hour_of t))")
  fix t stop :: rat and x :: int and xa :: rat
  assume a: "x = hour_of t" "xa = min stop (of_int (x + HOUR))" "\<not> stop \<le> xa"
  then have xa: "xa = of_int (hour_of t + HOUR)" "of_int (hour_of t + HOUR) < stop" by (auto simp: min_def split: if_splits)
  then have "hour_of xa = hour_of t + HOUR" by (simp only: xa(1) hour_of_next)
  moreover have "hour_of t + HOUR < \<lceil>stop\<rceil>" using xa(2) by linarith
  ultimately show "((xa, stop), t, stop) \<in> measure (\<lambda>(t, stop). nat (\<lceil>stop\<rceil> - hour_of t))" by (simp add: HOUR_def)
qed simp

declare hour_parts.simps [simp del]

section \<open>Counting\<close>

type_synonym figures = "((int \<times> string) \<times> rat) list"

definition figure :: "figures \<Rightarrow> int \<Rightarrow> string \<Rightarrow> rat" where
  "figure p h f = (case map_of p (h, f) of None \<Rightarrow> 0 | Some v \<Rightarrow> v)"

definition add_figure :: "int \<Rightarrow> string \<Rightarrow> rat \<Rightarrow> figures \<Rightarrow> figures" where
  "add_figure h f x p = dict_set (h, f) (figure p h f + x) p"

definition ORIGINS :: "string list" where "ORIGINS = [''auto'', ''manual'', ''scheduled'']"

text \<open>The bytes of each part, in proportion; the last gets the rest.\<close>

fun part_bytes :: "int \<Rightarrow> rat \<Rightarrow> int \<Rightarrow> (int \<times> rat) list \<Rightarrow> (int \<times> rat \<times> int) list" where
  "part_bytes nbytes whole_secs given [] = []"
| "part_bytes nbytes whole_secs given [(h, secs)] = [(h, secs, nbytes - given)]"
| "part_bytes nbytes whole_secs given ((h, secs) # p # ps) =
     (let b = (if 0 < whole_secs then py_round (of_int nbytes * secs / whole_secs) else 0)
      in (h, secs, b) # part_bytes nbytes whole_secs (given + b) (p # ps))"

definition add_part :: "string \<Rightarrow> int \<times> rat \<times> int \<Rightarrow> figures \<Rightarrow> figures" where
  "add_part origin = (\<lambda>(h, secs, b) p.
     let p = (if b \<noteq> 0 then add_figure h (origin @ ''_bytes'') (of_int b) p else p)
     in if secs \<noteq> 0 then add_figure h (origin @ ''_seconds'') secs p else p)"

definition add_recorded :: "string \<Rightarrow> rat \<Rightarrow> rat \<Rightarrow> int \<Rightarrow> figures \<Rightarrow> figures" where
  "add_recorded origin start_ts stop_ts nbytes p =
     (if origin \<notin> set ORIGINS then p
      else
        let stop_ts = max stop_ts start_ts
        in fold (add_part origin) (part_bytes nbytes (stop_ts - start_ts) 0 (hour_parts start_ts stop_ts))
             (add_figure (hour_of start_ts) (origin @ ''_captures'') 1 p))"



section \<open>Flushing\<close>

text \<open>
  The writer's connection: the committed table and the additions of its open transaction. Ghost: what was ever counted.
\<close>

record collection =
  co_pending :: figures
  co_flushing :: "figures option"
  co_executed :: bool
  co_open :: figures
  co_table :: figures
  co_since :: "int option"
  co_counted :: figures











definition count_figures :: "(figures \<Rightarrow> figures) \<Rightarrow> collection \<Rightarrow> collection" where
  "count_figures f c = c\<lparr>co_pending := f (co_pending c), co_counted := f (co_counted c)\<rparr>"


section \<open>The split over the hours\<close>

lemma figure_add: "figure (add_figure h f x p) h' f' = figure p h' f' + (if h = h' \<and> f = f' then x else 0)"
  by (simp add: figure_def add_figure_def map_of_dict_set)

text \<open>How many seconds of a stretch are in the hour \<open>h\<close>.\<close>

definition overlap :: "rat \<Rightarrow> rat \<Rightarrow> int \<Rightarrow> rat" where
  "overlap start stop h = max 0 (min stop (of_int h + of_int HOUR) - max start (of_int h))"

lemma hour_grid: "hour_of t = k * HOUR \<Longrightarrow> h = j * HOUR \<Longrightarrow> h < hour_of t \<Longrightarrow> h + HOUR \<le> hour_of t"
  by (simp add: HOUR_def)

lemma overlap_same:
  assumes "of_int h \<le> t" "t \<le> stop" "stop \<le> of_int h + of_int HOUR"
  shows "overlap t stop h = stop - t"
  using assms by (simp add: overlap_def max_def min_def)

lemma overlap_before: "of_int h + of_int HOUR \<le> t \<Longrightarrow> overlap t stop h = 0"
  by (auto simp: overlap_def max_def min_def)

lemma overlap_after: "stop \<le> of_int h \<Longrightarrow> overlap t stop h = 0"
  by (auto simp: overlap_def max_def min_def)

lemma overlap_cut:
  assumes "t \<le> of_int h" "u \<le> of_int h"
  shows "overlap t stop h = overlap u stop h"
  using assms by (simp add: overlap_def max_def)

lemma overlap_full: "of_int h \<le> t \<Longrightarrow> t < of_int h + of_int HOUR \<Longrightarrow> of_int h + of_int HOUR \<le> stop \<Longrightarrow>
    overlap t stop h = of_int h + of_int HOUR - t"
  by (simp add: overlap_def max_def min_def)

lemma parts_overlap:
  assumes "t \<le> stop" "h = j * HOUR"
  shows "(\<Sum>(h', secs) \<leftarrow> hour_parts t stop. if h' = h then secs else 0) = overlap t stop h"
  using assms(1)
proof (induction t stop rule: hour_parts.induct)
  case (1 t stop)
  let ?h = "hour_of t"
  let ?e = "of_int (?h + HOUR) :: rat"
  have hk: "?h = \<lfloor>t / of_int HOUR\<rfloor> * HOUR" by (simp add: hour_of_def)
  have b: "of_int ?h \<le> t" "t < of_int ?h + of_int HOUR" by (rule hour_of_le, rule hour_of_gt)
  have "h + HOUR \<le> ?h" if "h < ?h" using that unfolding hk assms(2) by (simp add: HOUR_def)
  then have lo: "of_int h + of_int HOUR \<le> t" if "h < ?h" using that b(1) by (metis of_int_add of_int_le_iff order_trans)
  have "?h + HOUR \<le> h" if "?h < h" using that unfolding hk assms(2) by (simp add: HOUR_def)
  then have hi: "?e \<le> of_int h" if "?h < h" using that by (simp only: of_int_le_iff)
  consider (before) "h < ?h" | (this) "h = ?h" | (after) "?h < h" by linarith
  note three = this
  show ?case
  proof (cases "stop \<le> ?e")
    case True
    then have e: "hour_parts t stop = [(?h, stop - t)]" by (subst hour_parts.simps) (simp add: Let_def min_def)
    have "overlap t stop h = (if ?h = h then stop - t else 0)"
      using three
    proof cases
      case before then show ?thesis using overlap_before [OF lo] by simp
    next
      case this then show ?thesis using overlap_same [OF b(1) "1.prems"] True by simp
    next
      case after then show ?thesis using overlap_after [of stop h t] hi True by simp
    qed
    then show ?thesis by (simp add: e)
  next
    case False
    have e: "hour_parts t stop = (?h, ?e - t) # hour_parts ?e stop" using False by (subst hour_parts.simps) (simp add: Let_def min_def)
    have m: "min stop ?e = ?e" "\<not> stop \<le> min stop ?e" using False by simp_all
    have IH: "(\<Sum>(h', secs) \<leftarrow> hour_parts ?e stop. if h' = h then secs else 0) = overlap ?e stop h"
      using "1.IH" [OF refl refl m(2)] False unfolding m(1) by simp
    have "overlap t stop h = (if ?h = h then ?e - t else 0) + overlap ?e stop h"
      using three
    proof cases
      case before
      then have "of_int h + of_int HOUR \<le> ?e" using lo b(2) by simp
      then show ?thesis using before overlap_before [OF lo, of stop] overlap_before [of h ?e stop] by simp
    next
      case this
      then show ?thesis using overlap_full [OF b] overlap_before [of h ?e stop] False by simp
    next
      case after
      then show ?thesis using overlap_cut [of t h ?e stop] hi b(2) by simp
    qed
    then show ?thesis unfolding e by (simp add: IH del: of_int_add)
  qed
qed

lemma part_bytes_secs: "map (\<lambda>(h, secs, b). (h, secs)) (part_bytes n whole_secs given ps) = ps"
  by (induction n whole_secs given ps rule: part_bytes.induct) (simp_all add: Let_def)

lemma part_bytes_sum: "ps \<noteq> [] \<Longrightarrow> (\<Sum>(h, secs, b) \<leftarrow> part_bytes n whole_secs given ps. b) = n - given"
  by (induction n whole_secs given ps rule: part_bytes.induct) (simp_all add: Let_def)

lemma parts_nonempty: "hour_parts t stop \<noteq> []"
  by (subst hour_parts.simps) (simp add: Let_def)

lemma figure_part:
  "figure (add_part origin (h, secs, b) p) h' f = figure p h' f + (if h = h' \<and> f = origin @ ''_bytes'' then of_int b else 0) +
     (if h = h' \<and> f = origin @ ''_seconds'' then secs else 0)"
  by (simp add: add_part_def Let_def figure_add)

lemma figure_parts:
  "figure (fold (add_part origin) ps p) h f = figure p h f +
     (if f = origin @ ''_bytes'' then (\<Sum>(h', secs, b) \<leftarrow> ps. if h' = h then of_int b else 0) else 0) +
     (if f = origin @ ''_seconds'' then (\<Sum>(h', secs, b) \<leftarrow> ps. if h' = h then secs else 0) else 0)"
proof (induction ps arbitrary: p)
  case (Cons x ps)
  obtain h' secs b where "x = (h', secs, b)" by (cases x)
  then show ?case using Cons.IH by (simp add: figure_part)
qed simp

lemma sum_over_hours:
  assumes "finite H" "\<forall>(h, secs, b) \<in> set ps. h \<in> H"
  shows "(\<Sum>h \<in> H. \<Sum>(h', secs, b) \<leftarrow> ps. if h' = h then of_int b else 0) = (of_int (\<Sum>(h, secs, b) \<leftarrow> ps. b) :: rat)"
  using assms(2)
proof (induction ps)
  case (Cons x ps)
  obtain h secs b where x: "x = (h, secs, b)" by (cases x)
  then show ?case using Cons assms(1) by (simp add: sum.distrib)
qed simp

lemma part_secs_sum:
  "(\<Sum>(h', secs, b) \<leftarrow> part_bytes n whole_secs given ps. if h' = h then secs else 0) = (\<Sum>(h', secs) \<leftarrow> ps. if h' = h then secs else 0)"
  by (induction n whole_secs given ps rule: part_bytes.induct) (simp_all add: Let_def)

lemma part_bytes_hours: "fst ` set (part_bytes n whole_secs given ps) = fst ` set ps"
  by (induction n whole_secs given ps rule: part_bytes.induct) (simp_all add: Let_def)

text \<open>
  C29: A finished capture of \<open>n\<close> bytes from \<open>start\<close> to \<open>stop\<close> is counted once, in the hour it started in; each hour
  gets exactly the seconds of the capture that lie in it; and the bytes given to its hours add up to exactly \<open>n\<close>.
\<close>
theorem recorded_split_exact:
  assumes "origin \<in> set ORIGINS" "start \<le> stop" "q = add_recorded origin start stop n p"
  shows "(\<forall>k. figure q (k * HOUR) (origin @ ''_seconds'') = figure p (k * HOUR) (origin @ ''_seconds'') + overlap start stop (k * HOUR)) \<and>
    (\<Sum>h \<in> fst ` set (hour_parts start stop). figure q h (origin @ ''_bytes'') - figure p h (origin @ ''_bytes'')) = of_int n \<and>
    (\<forall>h. figure q h (origin @ ''_captures'') = figure p h (origin @ ''_captures'') + (if h = hour_of start then 1 else 0))"
proof -
  define ps where "ps = part_bytes n (stop - start) 0 (hour_parts start stop)"
  have q: "q = fold (add_part origin) ps (add_figure (hour_of start) (origin @ ''_captures'') 1 p)"
    using assms by (simp add: add_recorded_def ps_def Let_def max_def)
  have s: "(\<Sum>(h', secs, b) \<leftarrow> ps. if h' = k * HOUR then secs else 0) = overlap start stop (k * HOUR)" for k
    using parts_overlap [OF assms(2) refl, of k] by (simp add: ps_def part_secs_sum)
  have "(\<Sum>h \<in> fst ` set (hour_parts start stop). \<Sum>(h', secs, b) \<leftarrow> ps. if h' = h then of_int b else 0) = (of_int n :: rat)"
  proof -
    have "\<forall>(h, secs, b) \<in> set ps. h \<in> fst ` set (hour_parts start stop)"
      using part_bytes_hours [of n "stop - start" 0 "hour_parts start stop"] by (force simp: ps_def)
    from sum_over_hours [OF _ this] show ?thesis using part_bytes_sum [OF parts_nonempty] by (simp add: ps_def)
  qed
  then show ?thesis by (simp add: q figure_parts figure_add s)
qed

theorem recorded_split_exact_witness:
  "let q = add_recorded ''auto'' 3000 9000 600 []
   in figure q 0 ''auto_seconds'' = 600 \<and> figure q 3600 ''auto_seconds'' = 3600 \<and> figure q 7200 ''auto_seconds'' = 1800 \<and> figure q 0 ''auto_captures'' = 1"
proof -
  let ?q = "add_recorded ''auto'' 3000 9000 600 []"
  have "figure ?q (k * HOUR) ''auto_seconds'' = overlap 3000 9000 (k * HOUR)" for k
    using recorded_split_exact [of "''auto''" 3000 9000 ?q 600 "[]"] by (simp add: ORIGINS_def figure_def)
  from this [of 0] this [of 1] this [of 2] have "figure ?q 0 ''auto_seconds'' = 600" "figure ?q 3600 ''auto_seconds'' = 3600" "figure ?q 7200 ''auto_seconds'' = 1800"
    by (simp_all add: overlap_def HOUR_def)
  moreover have "figure ?q 0 ''auto_captures'' = 1" by code_simp
  ultimately show ?thesis by simp
qed

section \<open>Nothing lost, nothing twice\<close>



lemma figure_empty [simp]: "figure [] h f = 0"
  by (simp add: figure_def)
















definition in_flight :: "collection \<Rightarrow> figures" where
  "in_flight c = (case co_flushing c of Some rows \<Rightarrow> if co_executed c then [] else rows | None \<Rightarrow> [])"


lemma in_flight_count [simp]: "in_flight (count_figures g c) = in_flight c"
  by (cases "co_flushing c") (simp_all add: in_flight_def count_figures_def)

lemma count_fields [simp]:
  "co_table (count_figures g c) = co_table c" "co_open (count_figures g c) = co_open c" "co_flushing (count_figures g c) = co_flushing c"
  "co_pending (count_figures g c) = g (co_pending c)" "co_counted (count_figures g c) = g (co_counted c)"
  by (simp_all add: count_figures_def)







end
