(* ===== verification/Live_Clients.thy ===== *)
theory Live_Clients
  imports Prelude
begin

text \<open>
  The live frames to WebSocket clients, \<open>web/websocket.py\<close>: which frames a subscriber's queue takes, the
  parts of a frame its client already holds and is not sent again, and the shared encodings. The frame's fields
  that matter are named; the rest is \<open>fr_other\<close>. Beside each subscriber stands what its client holds.
\<close>

section \<open>Frames\<close>

record live_frame =
  fr_psd :: bool
  fr_mode :: "string option"
  fr_powers :: "rat list option"
  fr_max_powers :: "rat list option"
  fr_noise_floor :: "rat list option"
  fr_frequencies :: "rat list option"
  fr_grid_rows :: "rat list list option"
  fr_other :: string

definition NOISE_FLOOR_RESEND_SEC :: rat where "NOISE_FLOOR_RESEND_SEC = 1"
definition SLOW_SEND_SEC :: rat where "SLOW_SEND_SEC = 1"
definition LOG_EVERY_SEC :: rat where "LOG_EVERY_SEC = 10"
definition ENCODE_CACHE_FRAMES :: nat where "ENCODE_CACHE_FRAMES = 32"
definition CLIENT_QUEUE_MAX :: nat where "CLIENT_QUEUE_MAX = 10"

definition round_db :: "rat list \<Rightarrow> rat list" where
  "round_db = map (\<lambda>x. of_int (py_round (x * 10)) / 10)"

type_synonym freq_sig = "nat \<times> rat \<times> rat"

record subscriber =
  sb_queue :: "live_frame list"
  sb_high_res :: bool
  sb_also_averaged :: bool
  sb_wants_psd :: bool
  sb_freq_sig :: "freq_sig option"
  sb_nf_bins :: int
  sb_nf_sent_at :: rat
  sb_sent :: nat
  sb_dropped :: nat
  sb_dropped_logged :: nat
  sb_last_drop_log :: rat

definition subscriber_new :: subscriber where
  "subscriber_new = \<lparr>sb_queue = [], sb_high_res = False, sb_also_averaged = False, sb_wants_psd = True, sb_freq_sig = None,
     sb_nf_bins = -1, sb_nf_sent_at = 0, sb_sent = 0, sb_dropped = 0, sb_dropped_logged = 0, sb_last_drop_log = 0\<rparr>"

section \<open>Publishing\<close>

definition wants_frame :: "subscriber \<Rightarrow> string option \<Rightarrow> bool" where
  "wants_frame sub mode =
     (if \<not> sb_wants_psd sub then False
      else if mode = Some ''high_res'' then sb_high_res sub
      else if mode = Some ''averaged'' then \<not> sb_high_res sub \<or> sb_also_averaged sub
      else True)"

text \<open>The frame as it is queued: the levels rounded, the grid rows only for High Res clients.\<close>

definition prepare_frame :: "live_frame \<Rightarrow> live_frame \<times> live_frame option" where
  "prepare_frame frame =
     (let data = frame\<lparr>fr_grid_rows := None\<rparr>;
          data = (if fr_psd data then data\<lparr>fr_powers := map_option round_db (fr_powers data), fr_max_powers := map_option round_db (fr_max_powers data),
            fr_noise_floor := map_option round_db (fr_noise_floor data)\<rparr> else data)
      in (data, map_option (\<lambda>rows. data\<lparr>fr_grid_rows := Some rows\<rparr>) (fr_grid_rows frame)))"

definition offer_frame :: "live_frame \<Rightarrow> subscriber \<Rightarrow> subscriber" where
  "offer_frame frame sub =
     (let (data, with_rows) = prepare_frame frame
      in if fr_psd data \<and> \<not> wants_frame sub (fr_mode data) then sub
         else
           let msg = (case with_rows of Some m \<Rightarrow> if sb_high_res sub then m else data | None \<Rightarrow> data)
           in if length (sb_queue sub) < CLIENT_QUEUE_MAX then sub\<lparr>sb_queue := sb_queue sub @ [msg]\<rparr>
              else sub\<lparr>sb_dropped := sb_dropped sub + 1\<rparr>)"

definition live_publish :: "live_frame \<Rightarrow> subscriber list \<Rightarrow> subscriber list" where
  "live_publish frame subs = map (offer_frame frame) subs"

definition has_high_res_subscribers :: "subscriber list \<Rightarrow> bool" where
  "has_high_res_subscribers subs \<longleftrightarrow> list_ex (\<lambda>s. sb_high_res s \<and> sb_wants_psd s) subs"

section \<open>What the client already has\<close>

definition freq_sig_of :: "rat list \<Rightarrow> freq_sig" where "freq_sig_of fs = (length fs, hd fs, last fs)"

text \<open>Whether the frequencies and the noise floor are left out.\<close>

definition client_drops :: "live_frame \<Rightarrow> rat \<Rightarrow> subscriber \<Rightarrow> (bool \<times> bool) \<times> subscriber" where
  "client_drops data now sub =
     (if \<not> fr_psd data then ((False, False), sub)
      else
        let (fq, sub) = (case fr_frequencies data of
              Some (f # fs) \<Rightarrow>
                if sb_freq_sig sub = Some (freq_sig_of (f # fs)) then (True, sub) else (False, sub\<lparr>sb_freq_sig := Some (freq_sig_of (f # fs))\<rparr>)
            | _ \<Rightarrow> (False, sub));
            (nf, sub) = (case fr_noise_floor data of
              Some ns \<Rightarrow>
                if int (length ns) = sb_nf_bins sub \<and> now - sb_nf_sent_at sub < NOISE_FLOOR_RESEND_SEC then (True, sub)
                else (False, sub\<lparr>sb_nf_bins := int (length ns), sb_nf_sent_at := now\<rparr>)
            | None \<Rightarrow> (False, sub))
        in ((fq, nf), sub))"

definition leave_out :: "bool \<times> bool \<Rightarrow> live_frame \<Rightarrow> live_frame" where
  "leave_out = (\<lambda>(fq, nf) data.
     (let data = (if fq then data\<lparr>fr_frequencies := None\<rparr> else data) in if nf then data\<lparr>fr_noise_floor := None\<rparr> else data))"

definition shape_for_client :: "live_frame \<Rightarrow> rat \<Rightarrow> subscriber \<Rightarrow> live_frame \<times> subscriber" where
  "shape_for_client data now sub = (let (drops, sub) = client_drops data now sub in (leave_out drops data, sub))"

section \<open>The shared encodings\<close>

text \<open>
  \<open>render\<close> is the JSON text of a frame. A frame is an object at an address; the cache holds the frames of its
  entries, so an address in it is that of a live frame.
\<close>

record frame_object =
  fo_identity :: nat
  fo_address :: nat
  fo_frame :: live_frame

type_synonym encode_cache = "(nat \<times> frame_object \<times> ((bool \<times> bool) \<times> string) list) list"

definition cache_encode :: "(live_frame \<Rightarrow> string) \<Rightarrow> frame_object \<Rightarrow> bool \<times> bool \<Rightarrow> encode_cache \<Rightarrow> string \<times> encode_cache" where
  "cache_encode render data drops cache =
     (let (variants, cache) = (case map_of cache (fo_address data) of
            Some (held, vs) \<Rightarrow>
              if fo_identity held = fo_identity data then (vs, cache)
              else ([], map (\<lambda>(a, e). if a = fo_address data then (a, (data, [])) else (a, e)) cache)
          | None \<Rightarrow>
              let cache = cache @ [(fo_address data, (data, []))]
              in ([], drop (length cache - ENCODE_CACHE_FRAMES) cache))
      in case map_of variants drops of
           Some tx \<Rightarrow> (tx, cache)
         | None \<Rightarrow>
             let tx = render (leave_out drops (fo_frame data))
             in (tx, map (\<lambda>(a, held, vs). if a = fo_address data then (a, held, vs @ [(drops, tx)]) else (a, held, vs)) cache))"

section \<open>One client\<close>

text \<open>
  The client keeps the last axis and noise floor it was sent. Ghost: the frames the sender took from the queue, with the times.
\<close>

record client =
  cl_sub :: subscriber
  cl_frequencies :: "rat list option"
  cl_noise_floor :: "rat list option"
  cl_taken :: "(rat \<times> live_frame) list"
  cl_log :: "(rat \<times> nat) list"

definition client_new :: client where
  "client_new = \<lparr>cl_sub = subscriber_new, cl_frequencies = None, cl_noise_floor = None, cl_taken = [], cl_log = []\<rparr>"

definition client_receive :: "live_frame \<Rightarrow> client \<Rightarrow> client" where
  "client_receive msg c =
     (if \<not> fr_psd msg then c
      else
        let c = (case fr_frequencies msg of Some (f # fs) \<Rightarrow> c\<lparr>cl_frequencies := Some (f # fs)\<rparr> | _ \<Rightarrow> c)
        in case fr_noise_floor msg of Some ns \<Rightarrow> c\<lparr>cl_noise_floor := Some ns\<rparr> | None \<Rightarrow> c)"

text \<open>\<open>send_loop\<close>: a frame is taken at \<open>t0\<close> and its send has returned at \<open>t1\<close>.\<close>

definition send_one :: "rat \<Rightarrow> rat \<Rightarrow> client \<Rightarrow> client" where
  "send_one t0 t1 c = (case sb_queue (cl_sub c) of
       [] \<Rightarrow> c
     | data # rest \<Rightarrow>
         let (msg, sub) = shape_for_client data t0 ((cl_sub c)\<lparr>sb_queue := rest\<rparr>);
             sub = sub\<lparr>sb_sent := sb_sent sub + 1\<rparr>;
             new_drops = sb_dropped sub - sb_dropped_logged sub;
             (sub, logged) = (if (SLOW_SEND_SEC \<le> t1 - t0 \<or> 0 < new_drops) \<and> LOG_EVERY_SEC \<le> t1 - sb_last_drop_log sub
               then (sub\<lparr>sb_last_drop_log := t1, sb_dropped_logged := sb_dropped sub\<rparr>, [(t1 - t0, new_drops)]) else (sub, []))
         in client_receive msg (c\<lparr>cl_sub := sub, cl_taken := cl_taken c @ [(t0, data)], cl_log := cl_log c @ logged\<rparr>))"

datatype client_op = Publish live_frame | Set_Mode bool bool | Set_View bool | Send_One rat rat

fun client_step :: "client_op \<Rightarrow> client \<Rightarrow> client" where
  "client_step (Publish frame) c = c\<lparr>cl_sub := offer_frame frame (cl_sub c)\<rparr>"
| "client_step (Set_Mode high_res averaged) c = c\<lparr>cl_sub := (cl_sub c)\<lparr>sb_high_res := high_res, sb_also_averaged := averaged\<rparr>\<rparr>"
| "client_step (Set_View visible) c = c\<lparr>cl_sub := (cl_sub c)\<lparr>sb_wants_psd := visible\<rparr>\<rparr>"
| "client_step (Send_One t0 t1) c = send_one t0 t1 c"

section \<open>The client is up to date\<close>

definition client_inv :: "client \<Rightarrow> bool" where
  "client_inv c \<longleftrightarrow>
     (case sb_freq_sig (cl_sub c) of
        None \<Rightarrow> cl_frequencies c = None
      | Some sg \<Rightarrow> \<exists>fs. fs \<noteq> [] \<and> cl_frequencies c = Some fs \<and> freq_sig_of fs = sg) \<and>
     (if sb_nf_bins (cl_sub c) < 0 then cl_noise_floor c = None
      else \<exists>ns. cl_noise_floor c = Some ns \<and> int (length ns) = sb_nf_bins (cl_sub c) \<and>
        (\<exists>d. (sb_nf_sent_at (cl_sub c), d) \<in> set (cl_taken c) \<and> fr_noise_floor d = Some ns))"

lemma client_inv_new: "client_inv client_new"
  by (simp add: client_inv_def client_new_def subscriber_new_def)

lemma offer_keeps [simp]:
  "sb_freq_sig (offer_frame frame sub) = sb_freq_sig sub" "sb_nf_bins (offer_frame frame sub) = sb_nf_bins sub"
  "sb_nf_sent_at (offer_frame frame sub) = sb_nf_sent_at sub"
  by (simp_all add: offer_frame_def Let_def split: prod.split)

lemma client_inv_copy:
  assumes "client_inv c" "sb_freq_sig (cl_sub d) = sb_freq_sig (cl_sub c)" "sb_nf_bins (cl_sub d) = sb_nf_bins (cl_sub c)"
    "sb_nf_sent_at (cl_sub d) = sb_nf_sent_at (cl_sub c)" "cl_frequencies d = cl_frequencies c" "cl_noise_floor d = cl_noise_floor c"
    "cl_taken d = cl_taken c"
  shows "client_inv d"
  using assms(1) unfolding client_inv_def assms(2-) .

text \<open>What the sender did to the subscriber and the client, field by field.\<close>

lemma send_axis:
  assumes "sb_queue (cl_sub c) = data # rest"
  shows "sb_freq_sig (cl_sub (send_one t0 t1 c)) = (case fr_frequencies data of
      Some (f # fs) \<Rightarrow> if fr_psd data then Some (freq_sig_of (f # fs)) else sb_freq_sig (cl_sub c) | _ \<Rightarrow> sb_freq_sig (cl_sub c))"
    and "cl_frequencies (send_one t0 t1 c) = (case fr_frequencies data of
      Some (f # fs) \<Rightarrow> if fr_psd data \<and> sb_freq_sig (cl_sub c) \<noteq> Some (freq_sig_of (f # fs)) then Some (f # fs) else cl_frequencies c
    | _ \<Rightarrow> cl_frequencies c)"
    and "cl_taken (send_one t0 t1 c) = cl_taken c @ [(t0, data)]"
  using assms by (auto simp: send_one_def shape_for_client_def client_drops_def leave_out_def client_receive_def Let_def
    split: option.splits list.splits prod.splits if_splits)

lemma send_floor:
  fixes t0 :: rat
  assumes "sb_queue (cl_sub c) = data # rest"
  defines "held \<equiv> \<lambda>ns. int (length ns) = sb_nf_bins (cl_sub c) \<and> t0 - sb_nf_sent_at (cl_sub c) < NOISE_FLOOR_RESEND_SEC"
  shows "sb_nf_bins (cl_sub (send_one t0 t1 c)) = (case fr_noise_floor data of
      Some ns \<Rightarrow> if fr_psd data then int (length ns) else sb_nf_bins (cl_sub c) | None \<Rightarrow> sb_nf_bins (cl_sub c))"
    and "sb_nf_sent_at (cl_sub (send_one t0 t1 c)) = (case fr_noise_floor data of
      Some ns \<Rightarrow> if fr_psd data \<and> \<not> held ns then t0 else sb_nf_sent_at (cl_sub c) | None \<Rightarrow> sb_nf_sent_at (cl_sub c))"
    and "cl_noise_floor (send_one t0 t1 c) = (case fr_noise_floor data of
      Some ns \<Rightarrow> if fr_psd data \<and> \<not> held ns then Some ns else cl_noise_floor c | None \<Rightarrow> cl_noise_floor c)"
  using assms(1) unfolding held_def by (auto simp: send_one_def shape_for_client_def client_drops_def leave_out_def client_receive_def Let_def
    split: option.splits list.splits prod.splits if_splits)

lemma send_inv:
  assumes i: "client_inv c"
  shows "client_inv (send_one t0 t1 c)"
proof (cases "sb_queue (cl_sub c)")
  case Nil
  then show ?thesis using i by (simp add: send_one_def)
next
  case (Cons data rest)
  note ax = send_axis [OF Cons, of t0 t1] and fl = send_floor [OF Cons, of t0 t1]
  let ?c = "send_one t0 t1 c"
  have "case sb_freq_sig (cl_sub ?c) of None \<Rightarrow> cl_frequencies ?c = None
      | Some sg \<Rightarrow> \<exists>fs. fs \<noteq> [] \<and> cl_frequencies ?c = Some fs \<and> freq_sig_of fs = sg"
    using i unfolding ax client_inv_def by (auto split: option.splits list.splits if_splits)
  moreover have "if sb_nf_bins (cl_sub ?c) < 0 then cl_noise_floor ?c = None
      else \<exists>ns. cl_noise_floor ?c = Some ns \<and> int (length ns) = sb_nf_bins (cl_sub ?c) \<and>
        (\<exists>d. (sb_nf_sent_at (cl_sub ?c), d) \<in> set (cl_taken ?c) \<and> fr_noise_floor d = Some ns)"
    using i unfolding fl ax(3) client_inv_def by (auto split: option.splits if_splits)
  ultimately show ?thesis unfolding client_inv_def by blast
qed

lemma client_step_inv: "client_inv c \<Longrightarrow> client_inv (client_step p c)"
  by (cases p) (auto simp: send_inv intro: client_inv_copy)

definition uniform_axis :: "rat list \<Rightarrow> bool" where
  "uniform_axis fs \<longleftrightarrow> (\<exists>f0 step. fs = map (\<lambda>i. f0 + of_nat i * step) [0..<length fs])"

lemma uniform_axis_sig:
  assumes "uniform_axis fs" "uniform_axis gs" "freq_sig_of fs = freq_sig_of gs" "fs \<noteq> []" "gs \<noteq> []"
  shows "gs = fs"
proof -
  define n where "n = length fs"
  have n: "length gs = n" "0 < n" using assms(3,4) unfolding n_def by (auto simp: freq_sig_of_def)
  obtain f a where f: "fs = map (\<lambda>i. f + of_nat i * a) [0..<n]" using assms(1) by (auto simp: uniform_axis_def n_def)
  obtain g b where g: "gs = map (\<lambda>i. g + of_nat i * b) [0..<n]" using assms(2) n by (auto simp: uniform_axis_def)
  have "hd fs = f" "hd gs = g" unfolding f g using n(2) by (simp_all add: hd_map hd_upt)
  moreover have "last fs = f + of_nat (n - 1) * a" "last gs = g + of_nat (n - 1) * b" unfolding f g using n(2) by (simp_all add: last_map)
  moreover have "hd fs = hd gs" "last fs = last gs" using assms(3) by (simp_all add: freq_sig_of_def)
  ultimately have "f = g" "of_nat (n - 1) * a = of_nat (n - 1) * b" by (metis, metis add_left_cancel)
  then have "f = g" "n = 1 \<or> a = b" using n(2) by auto
  then show ?thesis unfolding f g by auto
qed

text \<open>
  C31: Whenever a spectrum frame is sent, whatever was left out of it and of the frames before, the client holds an axis
  with the frame's number of bins, first and last frequency (the frame's own, when axes are uniform), and a noise floor
  of the frame's number of bins that was that of a frame sent less than NOISE_FLOOR_RESEND_SEC ago.
\<close>
theorem client_up_to_date:
  assumes "c = fold client_step ops client_new" "sb_queue (cl_sub c) = data # rest" "fr_psd data" "c' = send_one t0 t1 c"
  shows "(\<forall>fs. fr_frequencies data = Some fs \<and> fs \<noteq> [] \<longrightarrow>
      (\<exists>gs. cl_frequencies c' = Some gs \<and> freq_sig_of gs = freq_sig_of fs \<and> (uniform_axis fs \<and> uniform_axis gs \<longrightarrow> gs = fs))) \<and>
    (\<forall>ns. fr_noise_floor data = Some ns \<longrightarrow>
      (\<exists>ms t d. cl_noise_floor c' = Some ms \<and> length ms = length ns \<and> (t, d) \<in> set (cl_taken c') \<and> fr_noise_floor d = Some ms \<and>
        t0 - t < NOISE_FLOOR_RESEND_SEC))"
proof (intro conjI allI impI)
  have "client_inv (fold client_step ops c0)" if "client_inv c0" for c0
    using that by (induction ops arbitrary: c0) (simp_all add: client_step_inv)
  then have i: "client_inv c" "client_inv c'" unfolding assms(1,4) using client_inv_new send_inv by blast+
  note ax = send_axis [OF assms(2), of t0 t1, folded assms(4)] and fl = send_floor [OF assms(2), of t0 t1, folded assms(4)]
  {
    fix fs assume fs: "fr_frequencies data = Some fs \<and> fs \<noteq> []"
    then have "sb_freq_sig (cl_sub c') = Some (freq_sig_of fs)" using ax(1) assms(3) by (cases fs) simp_all
    then obtain gs where "gs \<noteq> []" "cl_frequencies c' = Some gs" "freq_sig_of gs = freq_sig_of fs" using i(2) by (auto simp: client_inv_def)
    then show "\<exists>gs. cl_frequencies c' = Some gs \<and> freq_sig_of gs = freq_sig_of fs \<and> (uniform_axis fs \<and> uniform_axis gs \<longrightarrow> gs = fs)"
      using uniform_axis_sig [of fs gs] fs by auto
  next
    fix ns assume ns: "fr_noise_floor data = Some ns"
    then have b: "sb_nf_bins (cl_sub c') = int (length ns)" using fl(1) assms(3) by simp
    then obtain ms d where m: "cl_noise_floor c' = Some ms" "length ms = length ns" "(sb_nf_sent_at (cl_sub c'), d) \<in> set (cl_taken c')"
      "fr_noise_floor d = Some ms" using i(2) by (auto simp: client_inv_def)
    have "t0 - sb_nf_sent_at (cl_sub c') < NOISE_FLOOR_RESEND_SEC" using fl(2) ns assms(3) by (auto simp: NOISE_FLOOR_RESEND_SEC_def)
    with m show "\<exists>ms t d. cl_noise_floor c' = Some ms \<and> length ms = length ns \<and> (t, d) \<in> set (cl_taken c') \<and> fr_noise_floor d = Some ms \<and>
        t0 - t < NOISE_FLOOR_RESEND_SEC" by blast
  }
qed

definition psd_example :: "rat \<Rightarrow> live_frame" where
  "psd_example p = \<lparr>fr_psd = True, fr_mode = Some ''averaged'', fr_powers = Some [p, p], fr_max_powers = None, fr_noise_floor = Some [p, p],
     fr_frequencies = Some [100, 200], fr_grid_rows = None, fr_other = []\<rparr>"

theorem client_up_to_date_witness:
  "let c = fold client_step [Publish (psd_example 1), Publish (psd_example 2), Send_One 5 5] client_new; c' = send_one (11 / 2) 6 c
   in cl_frequencies c' = Some [100, 200] \<and> cl_noise_floor c' = Some [1, 1]"
proof -
  let ?c = "fold client_step [Publish (psd_example 1), Publish (psd_example 2), Send_One 5 5] client_new"
  have q: "sb_queue (cl_sub ?c) = [psd_example 2]" by code_simp
  have "\<exists>gs. cl_frequencies (send_one (11 / 2) 6 ?c) = Some gs \<and> freq_sig_of gs = (2, 100, 200)"
    using client_up_to_date [OF refl q _ refl, of "11 / 2" 6] by (auto simp: psd_example_def freq_sig_of_def)
  moreover have "cl_frequencies (send_one (11 / 2) 6 ?c) = Some [100, 200]" "cl_noise_floor (send_one (11 / 2) 6 ?c) = Some [1, 1]" by code_simp+
  ultimately show ?thesis by (simp only: Let_def)
qed

section \<open>The shared encodings are right\<close>

text \<open>Every live frame is one object; those in the cache and the one asked for have an address of their own.\<close>

definition cache_ok :: "(live_frame \<Rightarrow> string) \<Rightarrow> (nat \<Rightarrow> live_frame) \<Rightarrow> encode_cache \<Rightarrow> bool" where
  "cache_ok render contents cache \<longleftrightarrow> distinct (map fst cache) \<and> length cache \<le> ENCODE_CACHE_FRAMES \<and>
     (\<forall>(a, held, vs) \<in> set cache. fo_frame held = contents (fo_identity held) \<and>
        (\<forall>(drops, tx) \<in> set vs. tx = render (leave_out drops (fo_frame held))))"

lemma cache_okD:
  assumes "cache_ok render contents cache"
  shows "distinct (map fst cache)" "length cache \<le> ENCODE_CACHE_FRAMES"
    and "(a, held, vs) \<in> set cache \<Longrightarrow> fo_frame held = contents (fo_identity held)"
    and "(a, held, vs) \<in> set cache \<Longrightarrow> (drops, tx) \<in> set vs \<Longrightarrow> tx = render (leave_out drops (fo_frame held))"
  using assms by (auto simp: cache_ok_def)

lemma cache_okI:
  assumes "distinct (map fst cache)" "length cache \<le> ENCODE_CACHE_FRAMES"
    and "\<And>a held vs. (a, held, vs) \<in> set cache \<Longrightarrow> fo_frame held = contents (fo_identity held)"
    and "\<And>a held vs drops tx. (a, held, vs) \<in> set cache \<Longrightarrow> (drops, tx) \<in> set vs \<Longrightarrow> tx = render (leave_out drops (fo_frame held))"
  shows "cache_ok render contents cache"
  unfolding cache_ok_def using assms by fast

definition replace_entry :: "nat \<Rightarrow> frame_object \<times> ((bool \<times> bool) \<times> string) list \<Rightarrow> encode_cache \<Rightarrow> encode_cache" where
  "replace_entry k new = map (\<lambda>(a, e). if a = k then (a, new) else (a, e))"

definition add_variant :: "nat \<Rightarrow> (bool \<times> bool) \<times> string \<Rightarrow> encode_cache \<Rightarrow> encode_cache" where
  "add_variant k v = map (\<lambda>(a, held, vs). if a = k then (a, held, vs @ [v]) else (a, held, vs))"

lemma entry_keys: "map fst (replace_entry k new cache) = map fst cache" "map fst (add_variant k v cache) = map fst cache"
  "length (replace_entry k new cache) = length cache" "length (add_variant k v cache) = length cache"
  by (induction cache) (auto simp: replace_entry_def add_variant_def)

lemma in_replace: "(a, held, vs) \<in> set (replace_entry k (h, []) cache) \<Longrightarrow> a = k \<and> held = h \<and> vs = [] \<or> a \<noteq> k \<and> (a, held, vs) \<in> set cache"
  by (auto simp: replace_entry_def split: if_splits)

lemma in_variant: "(a, held, vs) \<in> set (add_variant k v cache) \<Longrightarrow> \<exists>ws. (a, held, ws) \<in> set cache \<and> (vs = ws \<or> a = k \<and> vs = ws @ [v])"
  by (fastforce simp: add_variant_def split: if_splits)

lemma cache_encode_eq:
  "cache_encode render data drops cache =
     (let (variants, cache) = (case map_of cache (fo_address data) of
            Some (held, vs) \<Rightarrow> if fo_identity held = fo_identity data then (vs, cache) else ([], replace_entry (fo_address data) (data, []) cache)
          | None \<Rightarrow> let cache = cache @ [(fo_address data, (data, []))] in ([], drop (length cache - ENCODE_CACHE_FRAMES) cache))
      in case map_of variants drops of
           Some tx \<Rightarrow> (tx, cache)
         | None \<Rightarrow> (render (leave_out drops (fo_frame data)),
             add_variant (fo_address data) (drops, render (leave_out drops (fo_frame data))) cache))"
  by (simp add: cache_encode_def replace_entry_def add_variant_def Let_def split: option.split prod.split)

text \<open>The entry found, or made, for the frame.\<close>

lemma cache_entry:
  assumes c: "cache_ok render contents cache" and d: "fo_frame data = contents (fo_identity data)"
    and v: "(case map_of cache (fo_address data) of
            Some (held, vs) \<Rightarrow> if fo_identity held = fo_identity data then (vs, cache) else ([], replace_entry (fo_address data) (data, []) cache)
          | None \<Rightarrow> let cache = cache @ [(fo_address data, (data, []))] in ([], drop (length cache - ENCODE_CACHE_FRAMES) cache)) = (vs, ch)"
  shows "cache_ok render contents ch" and "\<And>dr tx. (dr, tx) \<in> set vs \<Longrightarrow> tx = render (leave_out dr (fo_frame data))"
    and "\<And>held ws. (fo_address data, held, ws) \<in> set ch \<Longrightarrow> fo_frame held = fo_frame data"
proof -
  let ?a = "fo_address data"
  have "cache_ok render contents ch \<and> (\<forall>dr tx. (dr, tx) \<in> set vs \<longrightarrow> tx = render (leave_out dr (fo_frame data))) \<and>
    (\<forall>held ws. (?a, held, ws) \<in> set ch \<longrightarrow> fo_frame held = fo_frame data)"
  proof (cases "map_of cache ?a")
    case None
    then have new: "?a \<notin> fst ` set cache" by (simp add: map_of_eq_None_iff)
    define all where "all = cache @ [(?a, (data, []))]"
    have r: "vs = []" "ch = drop (length all - ENCODE_CACHE_FRAMES) all" using v None by (simp_all add: all_def Let_def)
    have sub: "x \<in> set cache \<or> x = (?a, data, [])" if "x \<in> set ch" for x using that in_set_dropD unfolding r all_def by fastforce
    have "distinct (map fst all)" using cache_okD(1) [OF c] new by (simp add: all_def)
    then have "distinct (map fst ch)" "length ch \<le> ENCODE_CACHE_FRAMES" unfolding r by (simp_all add: distinct_drop flip: drop_map)
    then have "cache_ok render contents ch"
    proof (rule cache_okI)
      fix a held vs assume "(a, held, vs) \<in> set ch"
      from sub [OF this] show "fo_frame held = contents (fo_identity held)" using cache_okD(3) [OF c] d by blast
    next
      fix a held vs dr tx assume m: "(a, held, vs) \<in> set ch" "(dr, tx) \<in> set vs"
      from sub [OF m(1)] m(2) have "(a, held, vs) \<in> set cache" by auto
      then show "tx = render (leave_out dr (fo_frame held))" using cache_okD(4) [OF c _ m(2)] by blast
    qed
    moreover have "fo_frame held = fo_frame data" if "(?a, held, ws) \<in> set ch" for held ws
      using sub [OF that] new by (auto simp: image_iff)
    ultimately show ?thesis using r(1) by simp
  next
    case (Some e)
    obtain held ws where e: "e = (held, ws)" by (cases e)
    have m: "(?a, held, ws) \<in> set cache" using map_of_SomeD [OF Some] by (simp add: e)
    have u: "held' = held" if "(?a, held', vs') \<in> set cache" for held' vs'
      using eq_key_imp_eq_value [OF cache_okD(1) [OF c] that m] by simp
    show ?thesis
    proof (cases "fo_identity held = fo_identity data")
      case True
      then have r: "vs = ws" "ch = cache" using v Some e by simp_all
      have "fo_frame held = fo_frame data" using cache_okD(3) [OF c m] d True by simp
      then show ?thesis unfolding r using c u cache_okD(4) [OF c m] by metis
    next
      case False
      then have r: "vs = []" "ch = replace_entry ?a (data, []) cache" using v Some e by simp_all
      have "cache_ok render contents ch"
        unfolding r
      proof (rule cache_okI)
        fix a held vs assume "(a, held, vs) \<in> set (replace_entry ?a (data, []) cache)"
        then show "fo_frame held = contents (fo_identity held)" using in_replace cache_okD(3) [OF c] d by blast
      next
        fix a held vs dr tx assume m: "(a, held, vs) \<in> set (replace_entry ?a (data, []) cache)" "(dr, tx) \<in> set vs"
        then have "(a, held, vs) \<in> set cache" "(dr, tx) \<in> set vs" using in_replace [OF m(1)] by auto
        then show "tx = render (leave_out dr (fo_frame held))" by (rule cache_okD(4) [OF c])
      qed (simp_all add: entry_keys cache_okD [OF c])
      moreover have "fo_frame held = fo_frame data" if "(?a, held, ws) \<in> set ch" for held ws
        using in_replace [OF that [unfolded r]] by auto
      ultimately show ?thesis using r(1) by simp
    qed
  qed
  then show "cache_ok render contents ch" and "\<And>dr tx. (dr, tx) \<in> set vs \<Longrightarrow> tx = render (leave_out dr (fo_frame data))"
    and "\<And>held ws. (?a, held, ws) \<in> set ch \<Longrightarrow> fo_frame held = fo_frame data" by blast+
qed

text \<open>The shared text of a frame is its own, and the cache keeps its bound and stays right.\<close>

lemma cache_encode_right:
  assumes c: "cache_ok render contents cache" and d: "fo_frame data = contents (fo_identity data)"
  shows "fst (cache_encode render data drops cache) = render (leave_out drops (fo_frame data)) \<and>
    cache_ok render contents (snd (cache_encode render data drops cache))"
proof -
  let ?a = "fo_address data" and ?tx = "render (leave_out drops (fo_frame data))"
  obtain vs ch where v: "(case map_of cache ?a of
            Some (held, vs) \<Rightarrow> if fo_identity held = fo_identity data then (vs, cache) else ([], replace_entry ?a (data, []) cache)
          | None \<Rightarrow> let cache = cache @ [(?a, (data, []))] in ([], drop (length cache - ENCODE_CACHE_FRAMES) cache)) = (vs, ch)" by fastforce
  note e = cache_entry [OF c d v]
  have "cache_ok render contents (add_variant ?a (drops, ?tx) ch)"
  proof (rule cache_okI)
    fix a held vs assume "(a, held, vs) \<in> set (add_variant ?a (drops, ?tx) ch)"
    then show "fo_frame held = contents (fo_identity held)" using in_variant cache_okD(3) [OF e(1)] by blast
  next
    fix a held vs dr tx assume m: "(a, held, vs) \<in> set (add_variant ?a (drops, ?tx) ch)" "(dr, tx) \<in> set vs"
    then obtain ws where ws: "(a, held, ws) \<in> set ch" "vs = ws \<or> a = ?a \<and> vs = ws @ [(drops, ?tx)]" using in_variant [OF m(1)] by blast
    from ws(2) m(2) have "(dr, tx) \<in> set ws \<or> a = ?a \<and> dr = drops \<and> tx = ?tx" by auto
    then show "tx = render (leave_out dr (fo_frame held))"
      using cache_okD(4) [OF e(1) ws(1)] e(3) [of held ws] ws(1) by metis
  qed (simp_all add: entry_keys cache_okD [OF e(1)])
  then show ?thesis unfolding cache_encode_eq v using e(1) e(2) [OF map_of_SomeD] by (simp split: option.split)
qed

end
