(* ===== verification/Spec2Isabelle.thy ===== *)
theory Spec2Isabelle
  imports Run_File Governor Supervisor Rollup Rolling_Burst Grid_PreBuffer Receiver Sched_System Psd_Tiers Isolation Local_Storage
    Live_File Live_Control Averaging Handoff Collection Live_Clients
begin

text \<open>
  RFObserver is a radio-frequency monitor. A receiver thread reads chunks of IQ samples from
  the radio, logs the samples an overflow lost, writes every chunk to a ring and offers it to
  three consumers: the live recording (manual or started by the power trigger), the scheduled
  recordings, and the processing workers, which turn a chunk into a grid of PSD rows. From the
  grids come the averaged windows (live view, database, longer tiers), the bursts (a sliding
  window of rows), and for each burst the isolated samples, copied back out of the ring. A
  storage governor watches the volumes and refuses recordings, the capture storage evicts the
  old ones, and a supervisor owns the receiver and the processing task.

  All source names are under \<open>src/src/rfobserver/\<close>.

  Shared vocabulary. \<open>Prelude\<close>: Python's rounding and division, exceptions as the left summand
  of a sum, slices, JSON. \<open>Dicts\<close>: dicts as association lists in insertion order. \<open>Bisect\<close>:
  sorted lists. \<open>Iso_Time\<close>: the part of \<open>datetime\<close> that is used.

  The samples. \<open>Ring_Buffer\<close> (\<open>CircularBuffer\<close> of \<open>capture/buffer.py\<close>): the ring is the newest
  samples of the stream written, and every read a piece of it. It interprets the locale
  \<open>ring_provider\<close> of \<open>Ring_Reader\<close>, the interface over which the run cutter is proved (\<open>iq_ring\<close>).
  \<open>Grid_PreBuffer\<close> (\<open>GridPreBuffer\<close>): what a drain returns. \<open>Receiver\<close> (\<open>recv_chunk\<close> of
  \<open>capture/receiver.py\<close>): the chunks with their gaps are the device's time line.

  Live recordings, \<open>pipeline/streaming.py\<close>. \<open>Live_Control\<close>: the states idle, armed, recording
  and finalizing under the interleavings of the receiver thread, the web workers and the
  control thread; each recording is finalized once, unless a stop gives up waiting. \<open>Live_File\<close>:
  the samples of the file and the list of its gaps, which together put every sample at its
  device time.

  Scheduled recordings, \<open>schedules/\<close>. \<open>Sched_Model\<close> (\<open>model.py\<close>): parsing, limits, the instants of
  the runs. \<open>Run_Cutter\<close> and \<open>Run_File\<close> (\<open>cutter.py\<close>): the file of a run is a stretch of the time
  line from the requested instant on, zeros where samples were lost. \<open>Sched_Book\<close> (\<open>book.py\<close> and the
  tables of \<open>storage/database.py\<close>): the list in memory is the stored one, a restart restores it.
  \<open>Sched_Writer\<close> (\<open>writer.py\<close>): the file on the disk is what was put, under failing file
  operations and a budget. \<open>Sched_Engine\<close> (\<open>engine.py\<close>): which runs start, how PSD rows are placed.
  \<open>Sched_System\<close>: all of them under every order of events; one run is opened once, fed every chunk
  and closed once. This theory: the composition, from the stream to the file on the disk.

  Signals. \<open>Burst\<close> (\<open>processing/burst.py\<close>, the tiling of \<open>spectral.py\<close>) and \<open>Rolling_Burst\<close>
  (\<open>rolling_burst.py\<close>, over the locale \<open>burst_detector\<close>): the bucket index finds what a linear scan
  finds, a track is emitted once. \<open>Isolation\<close> (\<open>pipeline/isolation.py\<close>, \<open>processing/isolate.py\<close>): a burst
  handed on has exactly its samples, though the ring is overwritten meanwhile; every burst is
  accounted for. \<open>Averaging\<close> (the result consumer of \<open>streaming.py\<close>): windows take the results in
  order and do not overlap. \<open>Psd_Tiers\<close> (\<open>storage/psd_tiers.py\<close>) and \<open>Rollup\<close> (\<open>storage/rollup.py\<close>): the
  stored averages are those of the windows. \<open>Live_Clients\<close> (\<open>web/websocket.py\<close>): what is left out of
  a frame the client already has.

  Storage and life cycle. \<open>Governor\<close> (\<open>storage/governor.py\<close>): the steps of the ladder. \<open>Local_Storage\<close>
  (\<open>storage/local.py\<close>, \<open>priority.py\<close>): the index and the victims of the cap. \<open>Collection\<close>
  (\<open>storage/collection.py\<close>): nothing lost or counted twice, unless a commit fails. \<open>Supervisor\<close>
  (\<open>pipeline/supervisor.py\<close>): one receiver at a time, bounded restarts. \<open>Handoff\<close>: the bounded queues
  between the threads.

  Conventions. A record is an object's state, an operation a function from it to the updated
  one; a section under a lock is one step, and what may run in between is a separate step of an
  event list, so a theorem over all event lists is one over all interleavings. Names of fields
  carry the prefix of their record. Ghost fields (histories of calls, what was counted) are named
  as such where they are declared and read by no operation. Python's ints are \<open>int\<close>, floats exact rationals:
  rounding of doubles is not modelled, except where the source rounds. Loops that are not
  structural have a measure. \<open>due_loop\<close> has fuel, the milliseconds from its first run to the end of the chunk,
  and each turn goes on by at least one (\<open>due_loop_exact\<close>). \<open>enforce_cap\<close> is a partial
  function, and that it returns is part of \<open>enforce_cap_exact\<close>. What is not under \<open>src/\<close> (UHD packets, the labelling and
  percentile of scipy and numpy, FFTs, file systems, SQLite, clocks) is an argument, an oracle
  that may fail, or an outcome carried by an event.

  Not modelled: the numerical code itself (FFTs, CUDA, filters, the statistics on
  floating-point arrays), whose results are rounded; the wiring of threads, the
  file input and output of the live recorder's writer and finalizer, time limits of waits; the
  HTTP routes, the fleet page, the ZMS and mDNS clients and most SQL of \<open>database.py\<close>, which
  decode, call a library and encode; receivers other than the streaming one; logging and
  metrics.
\<close>

section \<open>The writer's state is its history\<close>

definition told :: "io_oracle \<Rightarrow> writer \<Rightarrow> world \<Rightarrow> bool" where
  "told io w0 w \<longleftrightarrow> wd_writer w = writer_run io (wd_calls w) w0"



lemma told_engine [simp]: "told io w0 (on_engine f w) = told io w0 w" "told io w0 (put_active key act w) = told io w0 w"
  "told io w0 (report i k e w) = told io w0 w"
  by (simp_all add: told_def)












section \<open>What a run's cutter made of a stream\<close>

declare ops_ok_append [simp]




















text \<open>
  The stretch of the time line that belongs to a run opened at the first of the chunks:
  it begins in the first chunk that ends after the run's start.
\<close>

fun start_inside :: "run_spec \<Rightarrow> fed_chunk \<Rightarrow> bool" where
  "start_inside sp (chunk, cs, t, gaps, f, rate, ring) \<longleftrightarrow> start_target sp t < int (length (inner_line chunk gaps))"




section \<open>From the stream to the disk\<close>









end
